(* ===== verification/Prelude.thy ===== *)
theory Prelude
  imports Main "HOL-Library.Word"
begin

text \<open>
  The prelude shared by every component: the machine integer types, byte strings, results
  (\<open>'e + 'a\<close>, with \<open>Inl\<close> the error), big-endian integer codecs, and the reader combinators
  with the facts that hold of every reader built from them (a reader that succeeds returns a
  suffix of its input, and its verdict does not change when more bytes arrive).
\<close>

unbundle bit_operations_syntax

section \<open>Machine integers and byte strings\<close>

type_synonym u8 = "8 word"
type_synonym u16 = "16 word"
type_synonym u32 = "32 word"
type_synonym u64 = "64 word"
type_synonym usize = nat
type_synonym bytes = "u8 list"

text \<open>
  A Rust \<open>str\<close> is its UTF-8 bytes. \<open>lit\<close> turns a literal of the source into those bytes.
\<close>

type_synonym str = "u8 list"

definition lit :: "string \<Rightarrow> str" where
  "lit s = map of_char s"

lemma lit_Nil [simp]: "lit [] = []"
  by (simp add: lit_def)

lemma lit_Cons [simp]: "lit (c # cs) = of_char c # lit cs"
  by (simp add: lit_def)

lemma unat_u8_less [simp]: "unat (b :: u8) < 256"
  using unsigned_less [of b] by simp

lemma unat_u16_less [simp]: "unat (b :: u16) < 65536"
  using unsigned_less [of b] by simp

lemma unat_u32_less [simp]: "unat (b :: u32) < 4294967296"
  using unsigned_less [of b] by simp

lemma unat_u8_le [simp]: "unat (b :: u8) \<le> 255"
  using unat_u8_less [of b] by linarith

lemma unat_u16_le [simp]: "unat (b :: u16) \<le> 65535"
  using unat_u16_less [of b] by linarith

lemma unat_u32_le [simp]: "unat (b :: u32) \<le> 4294967295"
  using unat_u32_less [of b] by linarith

lemma bit_less_exp:
  assumes "unat (w :: 'a::len word) < 2 ^ n" and "bit w m"
  shows "m < n"
proof (rule ccontr)
  assume "\<not> m < n"
  then have "(2 :: nat) ^ n \<le> 2 ^ m" by simp
  with assms(1) have "unat w div 2 ^ m = 0" by (meson div_less less_le_trans)
  moreover have "bit (unat w) m" using assms(2) by (simp add: bit_simps bit_imp_le_length)
  ultimately show False by (simp add: bit_iff_odd)
qed

text \<open>A widening \<open>as\<close> cast keeps the value.\<close>

lemma unat_ucast_up:
  assumes "LENGTH('b) \<le> LENGTH('a)"
  shows "unat (ucast (w :: 'b::len word) :: 'a::len word) = unat w"
proof -
  have "unat w < 2 ^ LENGTH('b)" by (rule unsigned_less)
  also have "\<dots> \<le> (2 :: nat) ^ LENGTH('a)" using assms by simp
  finally show ?thesis by (simp add: unsigned_ucast_eq take_bit_nat_eq_self)
qed

section \<open>Results\<close>

type_synonym ('e, 'a) result = "'e + 'a"

fun bind_res :: "('e, 'a) result \<Rightarrow> ('a \<Rightarrow> ('e, 'b) result) \<Rightarrow> ('e, 'b) result" where
  "bind_res (Inl e) f = Inl e"
| "bind_res (Inr a) f = f a"

fun map_res :: "('a \<Rightarrow> 'b) \<Rightarrow> ('e, 'a) result \<Rightarrow> ('e, 'b) result" where
  "map_res f (Inl e) = Inl e"
| "map_res f (Inr a) = Inr (f a)"

lemma bind_res_conv: "bind_res m f = (case m of Inl e \<Rightarrow> Inl e | Inr a \<Rightarrow> f a)"
  by (cases m) auto

lemma map_res_conv: "map_res f m = (case m of Inl e \<Rightarrow> Inl e | Inr a \<Rightarrow> Inr (f a))"
  by (cases m) auto

lemma bind_res_Inr_iff:
  "bind_res m f = Inr b \<longleftrightarrow> (\<exists>a. m = Inr a \<and> f a = Inr b)"
  by (cases m) auto

lemma bind_res_Inl_iff:
  "bind_res m f = Inl e \<longleftrightarrow> m = Inl e \<or> (\<exists>a. m = Inr a \<and> f a = Inl e)"
  by (cases m) auto

lemma map_res_Inr_iff: "map_res f m = Inr b \<longleftrightarrow> (\<exists>a. m = Inr a \<and> b = f a)"
  by (cases m) auto

lemma map_res_Inl_iff [simp]: "map_res f m = Inl e \<longleftrightarrow> m = Inl e"
  by (cases m) auto

lemma bind_res_assoc: "bind_res (bind_res m f) g = bind_res m (\<lambda>a. bind_res (f a) g)"
  by (cases m) auto

lemma map_res_bind_res: "map_res h (bind_res m f) = bind_res m (\<lambda>a. map_res h (f a))"
  by (cases m) auto

lemma bind_res_map_res: "bind_res (map_res h m) f = bind_res m (\<lambda>a. f (h a))"
  by (cases m) auto

lemma map_res_map_res [simp]: "map_res f (map_res g m) = map_res (\<lambda>a. f (g a)) m"
  by (cases m) auto

lemma bind_res_cong [fundef_cong]:
  "m = m' \<Longrightarrow> (\<And>a. m' = Inr a \<Longrightarrow> f a = f' a) \<Longrightarrow> bind_res m f = bind_res m' f'"
  by (cases m') auto

definition ok_or :: "'e \<Rightarrow> 'a option \<Rightarrow> ('e, 'a) result" where
  "ok_or e x = (case x of None \<Rightarrow> Inl e | Some a \<Rightarrow> Inr a)"

lemma ok_or_simps [simp]: "ok_or e None = Inl e" "ok_or e (Some a) = Inr a"
  by (simp_all add: ok_or_def)

section \<open>Big-endian integers\<close>

text \<open>
  \<open>to_be_bytes\<close> and \<open>from_be_bytes\<close> of the standard library, for any number of bytes: the value
  is a natural number, the width the length of the list.
\<close>

fun be_nat :: "bytes \<Rightarrow> nat" where
  "be_nat [] = 0"
| "be_nat (b # bs) = unat b * 256 ^ length bs + be_nat bs"

fun nat_be :: "nat \<Rightarrow> nat \<Rightarrow> bytes" where
  "nat_be 0 x = []"
| "nat_be (Suc n) x = of_nat (x div 256 ^ n) # nat_be n x"

lemma length_nat_be [simp]: "length (nat_be n x) = n"
  by (induction n) auto

lemma be_nat_nat_be [simp]: "be_nat (nat_be n x) = x mod 256 ^ n"
proof (induction n)
  case (Suc n)
  have "(x div 256 ^ n) mod 256 * 256 ^ n + x mod 256 ^ n = x mod 256 ^ Suc n"
    using mod_mult2_eq [of x "256 ^ n" 256] by (simp add: mult.commute)
  with Suc show ?case by (simp add: unat_of_nat)
qed simp

lemma be_nat_less: "be_nat bs < 256 ^ length bs"
proof (induction bs)
  case (Cons b bs)
  have "unat b \<le> 255" using unat_u8_less [of b] by linarith
  then have "unat b * 256 ^ length bs \<le> 255 * 256 ^ length bs" by (rule mult_le_mono1)
  with Cons.IH have "unat b * 256 ^ length bs + be_nat bs < 256 * 256 ^ length bs" by linarith
  then show ?case by simp
qed simp

lemma nat_be_cong: "x mod 256 ^ n = y mod 256 ^ n \<Longrightarrow> nat_be n x = nat_be n y"
proof (induction n)
  case (Suc n)
  have digit: "(z div 256 ^ n) mod 256 = (z mod 256 ^ Suc n) div 256 ^ n" for z :: nat
    using mod_mult2_eq [of z "256 ^ n" 256] by (simp add: mult.commute)
  have low: "z mod 256 ^ n = (z mod 256 ^ Suc n) mod 256 ^ n" for z :: nat
    by (simp add: mod_mod_cancel)
  from Suc.prems have "(x div 256 ^ n) mod 256 = (y div 256 ^ n) mod 256"
    by (simp only: digit)
  then have "(of_nat (x div 256 ^ n) :: u8) = of_nat (y div 256 ^ n)"
    by (simp add: of_nat_eq_iff take_bit_eq_mod word_of_nat_eq_iff)
  moreover have "nat_be n x = nat_be n y"
    using Suc.prems by (intro Suc.IH) (metis low)
  ultimately show ?case by simp
qed simp

lemma nat_be_be_nat [simp]: "nat_be (length bs) (be_nat bs) = bs"
proof (induction bs)
  case (Cons b bs)
  have "be_nat (b # bs) div 256 ^ length bs = unat b"
    using be_nat_less [of bs] by simp
  moreover have "nat_be (length bs) (be_nat (b # bs)) = nat_be (length bs) (be_nat bs)"
    by (rule nat_be_cong) simp
  ultimately show ?case using Cons by simp
qed simp

lemma be_nat_inject: "length xs = length ys \<Longrightarrow> be_nat xs = be_nat ys \<longleftrightarrow> xs = ys"
  by (metis nat_be_be_nat)

text \<open>Joining a byte below a shifted word is addition: the bits do not overlap.\<close>

lemma bit_u8_ge [simp]: "8 \<le> n \<Longrightarrow> \<not> bit (b :: u8) n"
  using bit_imp_le_length [of b n] by auto

lemma shift_or_byte: "push_bit 8 w OR ucast (b :: u8) = push_bit 8 w + (ucast b :: 'a::len word)"
  by (rule disjunctive_add_eq_or [symmetric])
    (auto intro!: bit_word_eqI simp: bit_simps)

section \<open>Readers\<close>

text \<open>
  A reader consumes a prefix of the unread bytes and returns its value with the rest. The
  cursor of the source (a slice and a position) is represented by the unread suffix.
\<close>

type_synonym ('e, 'a) reader = "bytes \<Rightarrow> ('e, 'a \<times> bytes) result"

definition ret :: "'a \<Rightarrow> ('e, 'a) reader" where
  "ret a bs = Inr (a, bs)"

definition fail :: "'e \<Rightarrow> ('e, 'a) reader" where
  "fail e bs = Inl e"

definition rbind :: "('e, 'a) reader \<Rightarrow> ('a \<Rightarrow> ('e, 'b) reader) \<Rightarrow> ('e, 'b) reader" where
  "rbind p f bs = bind_res (p bs) (\<lambda>(a, bs'). f a bs')"

definition rmap :: "('a \<Rightarrow> 'b) \<Rightarrow> ('e, 'a) reader \<Rightarrow> ('e, 'b) reader" where
  "rmap h p bs = map_res (\<lambda>(a, bs'). (h a, bs')) (p bs)"

definition lift_res :: "('e, 'a) result \<Rightarrow> ('e, 'a) reader" where
  "lift_res r bs = map_res (\<lambda>a. (a, bs)) r"

text \<open>\<open>for _ in 0..n { push(p()?) }\<close>: the reader \<open>n\<close> times, collecting the values.\<close>

fun rtimes :: "nat \<Rightarrow> ('e, 'a) reader \<Rightarrow> ('e, 'a list) reader" where
  "rtimes 0 p = ret []"
| "rtimes (Suc n) p = rbind p (\<lambda>a. rbind (rtimes n p) (\<lambda>as. ret (a # as)))"

lemma rbind_ret [simp]: "rbind (ret a) f = f a"
  by (rule ext) (simp add: rbind_def ret_def)

lemma rbind_fail [simp]: "rbind (fail e) f = fail e"
  by (rule ext) (simp add: rbind_def fail_def)

lemma rbind_assoc: "rbind (rbind p f) g = rbind p (\<lambda>a. rbind (f a) g)"
  by (rule ext) (auto simp: rbind_def bind_res_conv split: sum.splits)

lemma rmap_ret [simp]: "rmap h (ret a) = ret (h a)"
  by (rule ext) (simp add: rmap_def ret_def)

lemma rmap_fail [simp]: "rmap h (fail e) = fail e"
  by (rule ext) (simp add: rmap_def fail_def)

lemma rmap_rbind: "rmap h (rbind p f) = rbind p (\<lambda>a. rmap h (f a))"
  by (rule ext) (auto simp: rmap_def rbind_def bind_res_conv map_res_conv split: sum.splits)

lemma rbind_rmap: "rbind (rmap h p) f = rbind p (\<lambda>a. f (h a))"
  by (rule ext) (auto simp: rmap_def rbind_def bind_res_conv map_res_conv split: sum.splits)

lemma rmap_rmap: "rmap f (rmap g p) = rmap (\<lambda>a. f (g a)) p"
  by (rule ext) (auto simp: rmap_def map_res_conv split: sum.splits)

lemma rmap_conv_rbind: "rmap h p = rbind p (\<lambda>a. ret (h a))"
proof (rule ext)
  fix bs
  show "rmap h p bs = rbind p (\<lambda>a. ret (h a)) bs"
    by (cases "p bs") (auto simp: rmap_def rbind_def ret_def)
qed

lemma rmap_if: "rmap h (if b then p else q) = (if b then rmap h p else rmap h q)"
  by simp

lemma ret_eq_iff [simp]: "ret a bs = Inr (b, bs') \<longleftrightarrow> a = b \<and> bs = bs'"
  by (auto simp: ret_def)

lemma ret_not_Inl [simp]: "ret a bs \<noteq> Inl e"
  by (simp add: ret_def)

lemma fail_eq_iff [simp]: "fail e bs = Inl e' \<longleftrightarrow> e = e'" "fail e bs \<noteq> Inr x"
  by (simp_all add: fail_def)

lemma rbind_Inr_iff:
  "rbind p f bs = Inr r \<longleftrightarrow> (\<exists>a bs'. p bs = Inr (a, bs') \<and> f a bs' = Inr r)"
  by (auto simp: rbind_def bind_res_Inr_iff)

lemma rbind_Inl_iff:
  "rbind p f bs = Inl e \<longleftrightarrow> p bs = Inl e \<or> (\<exists>a bs'. p bs = Inr (a, bs') \<and> f a bs' = Inl e)"
  by (auto simp: rbind_def bind_res_Inl_iff)

lemma rmap_Inr_iff:
  "rmap h p bs = Inr (b, bs') \<longleftrightarrow> (\<exists>a. p bs = Inr (a, bs') \<and> b = h a)"
  by (auto simp: rmap_def map_res_Inr_iff)

lemma rmap_Inl_iff [simp]: "rmap h p bs = Inl e \<longleftrightarrow> p bs = Inl e"
  by (simp add: rmap_def)

lemma rbind_cong:
  "(\<And>bs. p bs = q bs) \<Longrightarrow> (\<And>a bs. f a bs = g a bs) \<Longrightarrow> rbind p f bs = rbind q g bs"
  by (simp add: rbind_def)

subsection \<open>Readers are stable under more input\<close>

text \<open>
  \<open>stable eof p\<close>: whatever \<open>p\<close> decides on some bytes it decides on every extension of them,
  leaving the extension unread, except that running out of bytes (the error \<open>eof\<close>) may be
  cured by more. This is what lets a decoder be run on a window of the input and run again
  when the window was too short.
\<close>

definition stable :: "'e \<Rightarrow> ('e, 'a) reader \<Rightarrow> bool" where
  "stable eof p \<longleftrightarrow>
     (\<forall>bs a r xs. p bs = Inr (a, r) \<longrightarrow> p (bs @ xs) = Inr (a, r @ xs)) \<and>
     (\<forall>bs e xs. p bs = Inl e \<longrightarrow> e \<noteq> eof \<longrightarrow> p (bs @ xs) = Inl e)"

named_theorems stable_intro

lemma stable_Inr: "stable eof p \<Longrightarrow> p bs = Inr (a, r) \<Longrightarrow> p (bs @ xs) = Inr (a, r @ xs)"
  by (simp add: stable_def)

lemma stable_Inl: "stable eof p \<Longrightarrow> p bs = Inl e \<Longrightarrow> e \<noteq> eof \<Longrightarrow> p (bs @ xs) = Inl e"
  by (simp add: stable_def)

lemma stable_ret [stable_intro]: "stable eof (ret a)"
  by (simp add: stable_def ret_def)

lemma stable_fail [stable_intro]: "stable eof (fail e)"
  by (simp add: stable_def fail_def)

lemma stable_rbind [stable_intro]:
  assumes p: "stable eof p" and f: "\<And>a. stable eof (f a)"
  shows "stable eof (rbind p f)"
  unfolding stable_def
proof (intro conjI allI impI)
  fix bs b r xs
  assume "rbind p f bs = Inr (b, r)"
  then obtain a bs' where "p bs = Inr (a, bs')" "f a bs' = Inr (b, r)"
    by (auto simp: rbind_Inr_iff)
  with stable_Inr [OF p] stable_Inr [OF f] show "rbind p f (bs @ xs) = Inr (b, r @ xs)"
    by (auto simp: rbind_Inr_iff)
next
  fix bs e xs
  assume "rbind p f bs = Inl e" and "e \<noteq> eof"
  with stable_Inl [OF p] stable_Inr [OF p] stable_Inl [OF f]
  show "rbind p f (bs @ xs) = Inl e"
    unfolding rbind_Inl_iff by blast
qed

lemma stable_rmap [stable_intro]: "stable eof p \<Longrightarrow> stable eof (rmap h p)"
  unfolding rmap_conv_rbind by (intro stable_intro)

lemma stable_lift_res [stable_intro]: "stable eof (lift_res r)"
  by (cases r) (simp_all add: stable_def lift_res_def)

lemma stable_rtimes [stable_intro]: "stable eof p \<Longrightarrow> stable eof (rtimes n p)"
  by (induction n) (auto intro!: stable_intro)

lemma stable_if [stable_intro]:
  "(b \<Longrightarrow> stable eof p) \<Longrightarrow> (\<not> b \<Longrightarrow> stable eof q) \<Longrightarrow> stable eof (if b then p else q)"
  by simp

lemma stable_option [stable_intro]:
  "stable eof p \<Longrightarrow> (\<And>a. stable eof (f a)) \<Longrightarrow>
   stable eof (case x of None \<Rightarrow> p | Some a \<Rightarrow> f a)"
  by (cases x) simp_all

subsection \<open>Readers only consume\<close>

text \<open>What is left is a suffix of the input, at least \<open>n\<close> bytes shorter.\<close>

definition consumes :: "nat \<Rightarrow> ('e, 'a) reader \<Rightarrow> bool" where
  "consumes n p \<longleftrightarrow> (\<forall>bs a r. p bs = Inr (a, r) \<longrightarrow> (\<exists>u. bs = u @ r \<and> n \<le> length u))"

named_theorems consumes_intro

lemma consumesD: "consumes n p \<Longrightarrow> p bs = Inr (a, r) \<Longrightarrow> length r + n \<le> length bs"
  by (fastforce simp: consumes_def)

lemma consumes_suffix: "consumes n p \<Longrightarrow> p bs = Inr (a, r) \<Longrightarrow> drop (length bs - length r) bs = r"
  by (fastforce simp: consumes_def)

lemma consumes_ret [consumes_intro]: "consumes 0 (ret a)"
  by (simp add: consumes_def ret_def)

lemma consumes_fail [consumes_intro]: "consumes n (fail e)"
  by (simp add: consumes_def fail_def)

lemma consumes_weaken: "consumes n p \<Longrightarrow> m \<le> n \<Longrightarrow> consumes m p"
  unfolding consumes_def by (meson le_trans)

lemma consumes_rbind [consumes_intro]:
  "consumes n p \<Longrightarrow> (\<And>a. consumes m (f a)) \<Longrightarrow> consumes (n + m) (rbind p f)"
  unfolding consumes_def rbind_Inr_iff by (metis add_mono append.assoc length_append)

lemma consumes_rmap [consumes_intro]: "consumes n p \<Longrightarrow> consumes n (rmap h p)"
  unfolding consumes_def by (auto simp: rmap_Inr_iff)

lemma consumes_rtimes: "consumes k p \<Longrightarrow> consumes (n * k) (rtimes n p)"
proof (induction n)
  case (Suc n)
  then have "consumes (k + (n * k + 0)) (rbind p (\<lambda>a. rbind (rtimes n p) (\<lambda>as. ret (a # as))))"
    by (intro consumes_intro)
  then show ?case by simp
qed (simp add: consumes_ret)

lemma rtimes_Inr_length: "rtimes n p bs = Inr (as, r) \<Longrightarrow> length as = n"
  by (induction n arbitrary: bs as r) (auto simp: rbind_Inr_iff)

end
