(* ===== verification/Rust_Str.thy ===== *)
theory Rust_Str
  imports Prelude
begin

text \<open>
  What the source uses of the standard library on \<open>str\<close> and integers: UTF-8 validation,
  searching for an ASCII separator, splitting at it, decimal parsing and printing, and checked
  arithmetic. A separator is one ASCII byte, so a split at it is a split between characters.
\<close>

section \<open>UTF-8\<close>

definition is_cont :: "u8 \<Rightarrow> bool" where
  "is_cont b \<longleftrightarrow> 0x80 \<le> b \<and> b \<le> 0xBF"

definition is_ascii :: "u8 \<Rightarrow> bool" where
  "is_ascii b \<longleftrightarrow> b < 0x80"

text \<open>
  The lead byte fixes the length of a character and, for some, narrows the second byte (no
  overlong form, no surrogate, nothing above U+10FFFF).
\<close>

definition utf8_second3 :: "u8 \<Rightarrow> u8 \<Rightarrow> bool" where
  "utf8_second3 a b \<longleftrightarrow>
     (if a = 0xE0 then 0xA0 \<le> b \<and> b \<le> 0xBF
      else if a = 0xED then 0x80 \<le> b \<and> b \<le> 0x9F
      else is_cont b)"

definition utf8_second4 :: "u8 \<Rightarrow> u8 \<Rightarrow> bool" where
  "utf8_second4 a b \<longleftrightarrow>
     (if a = 0xF0 then 0x90 \<le> b \<and> b \<le> 0xBF
      else if a = 0xF4 then 0x80 \<le> b \<and> b \<le> 0x8F
      else is_cont b)"

fun utf8_tail2 :: "bytes \<Rightarrow> bytes option" where
  "utf8_tail2 (b # r) = (if is_cont b then Some r else None)"
| "utf8_tail2 _ = None"

fun utf8_tail3 :: "u8 \<Rightarrow> bytes \<Rightarrow> bytes option" where
  "utf8_tail3 a (b # c # r) = (if utf8_second3 a b \<and> is_cont c then Some r else None)"
| "utf8_tail3 a _ = None"

fun utf8_tail4 :: "u8 \<Rightarrow> bytes \<Rightarrow> bytes option" where
  "utf8_tail4 a (b # c # d # r) =
     (if utf8_second4 a b \<and> is_cont c \<and> is_cont d then Some r else None)"
| "utf8_tail4 a _ = None"

definition utf8_char :: "u8 \<Rightarrow> bytes \<Rightarrow> bytes option" where
  "utf8_char a bs =
     (if a < 0x80 then Some bs
      else if 0xC2 \<le> a \<and> a \<le> 0xDF then utf8_tail2 bs
      else if 0xE0 \<le> a \<and> a \<le> 0xEF then utf8_tail3 a bs
      else if 0xF0 \<le> a \<and> a \<le> 0xF4 then utf8_tail4 a bs
      else None)"

lemma utf8_tail_length:
  "utf8_tail2 bs = Some r \<Longrightarrow> length r \<le> length bs"
  "utf8_tail3 a bs = Some r \<Longrightarrow> length r \<le> length bs"
  "utf8_tail4 a bs = Some r \<Longrightarrow> length r \<le> length bs"
  by (cases bs rule: utf8_tail2.cases, auto split: if_splits)
    (cases "(a, bs)" rule: utf8_tail3.cases, auto split: if_splits,
     cases "(a, bs)" rule: utf8_tail4.cases, auto split: if_splits)

lemma utf8_char_length: "utf8_char a bs = Some r \<Longrightarrow> length r \<le> length bs"
  by (auto simp: utf8_char_def dest: utf8_tail_length split: if_splits)

function utf8_valid :: "bytes \<Rightarrow> bool" where
  "utf8_valid [] = True"
| "utf8_valid (a # bs) = (case utf8_char a bs of None \<Rightarrow> False | Some r \<Rightarrow> utf8_valid r)"
  by pat_completeness auto
termination
  by (relation "measure length") (auto dest: utf8_char_length)

lemma utf8_valid_ascii: "list_all is_ascii bs \<Longrightarrow> utf8_valid bs"
  by (induction bs) (auto simp: is_ascii_def utf8_char_def)

text \<open>Cutting a valid string at an ASCII byte leaves two valid strings, and joining keeps it.\<close>

lemma not_cont_ascii: "is_cont c \<Longrightarrow> \<not> is_ascii c"
  unfolding is_ascii_def is_cont_def by unat_arith

lemma not_second_ascii:
  "utf8_second3 a c \<Longrightarrow> \<not> is_ascii c" "utf8_second4 a c \<Longrightarrow> \<not> is_ascii c"
  by (auto simp: utf8_second3_def utf8_second4_def is_cont_def is_ascii_def word_less_nat_alt
      word_le_nat_alt split: if_splits)

lemma utf8_char_append: "utf8_char a bs = Some r \<Longrightarrow> utf8_char a (bs @ ys) = Some (r @ ys)"
  by (cases bs rule: utf8_tail2.cases; cases "(a, bs)" rule: utf8_tail3.cases;
      cases "(a, bs)" rule: utf8_tail4.cases)
    (auto simp: utf8_char_def split: if_splits)

lemma utf8_valid_append: "utf8_valid xs \<Longrightarrow> utf8_valid (xs @ ys) \<longleftrightarrow> utf8_valid ys"
proof (induction xs rule: utf8_valid.induct)
  case (2 a bs)
  then obtain r where "utf8_char a bs = Some r" "utf8_valid r" by (auto split: option.splits)
  with "2.IH" utf8_char_append [of a bs r ys] show ?case by simp
qed simp

lemma utf8_tail_cut:
  assumes "is_ascii c"
  shows "utf8_tail2 (xs @ c # ys) = Some r \<Longrightarrow> \<exists>xs'. utf8_tail2 xs = Some xs' \<and> r = xs' @ c # ys"
    and "utf8_tail3 a (xs @ c # ys) = Some r \<Longrightarrow> \<exists>xs'. utf8_tail3 a xs = Some xs' \<and> r = xs' @ c # ys"
    and "utf8_tail4 a (xs @ c # ys) = Some r \<Longrightarrow> \<exists>xs'. utf8_tail4 a xs = Some xs' \<and> r = xs' @ c # ys"
proof -
  note ascii = not_second_ascii not_cont_ascii
  assume "utf8_tail2 (xs @ c # ys) = Some r"
  with assms show "\<exists>xs'. utf8_tail2 xs = Some xs' \<and> r = xs' @ c # ys"
    by (cases xs) (auto dest: ascii split: if_splits)
next
  note ascii = not_second_ascii not_cont_ascii
  assume "utf8_tail3 a (xs @ c # ys) = Some r"
  with assms show "\<exists>xs'. utf8_tail3 a xs = Some xs' \<and> r = xs' @ c # ys"
    by (cases "(a, xs @ c # ys)" rule: utf8_tail3.cases; cases xs; cases "tl xs")
      (auto dest: ascii split: if_splits)
next
  note ascii = not_second_ascii not_cont_ascii
  assume "utf8_tail4 a (xs @ c # ys) = Some r"
  with assms show "\<exists>xs'. utf8_tail4 a xs = Some xs' \<and> r = xs' @ c # ys"
    by (cases "(a, xs @ c # ys)" rule: utf8_tail4.cases; cases xs; cases "tl xs"; cases "tl (tl xs)")
      (auto dest: ascii split: if_splits)
qed

lemma utf8_char_cut:
  assumes "is_ascii c" and "utf8_char a (xs @ c # ys) = Some r"
  shows "\<exists>xs'. utf8_char a xs = Some xs' \<and> r = xs' @ c # ys"
  using assms(2) unfolding utf8_char_def
  by (simp split: if_splits) (use utf8_tail_cut [OF assms(1)] in blast)+

lemma utf8_valid_cut_left: "is_ascii c \<Longrightarrow> utf8_valid (xs @ c # ys) \<Longrightarrow> utf8_valid xs"
proof (induction xs rule: utf8_valid.induct)
  case (2 a bs)
  from "2.prems"(2) obtain r where r: "utf8_char a (bs @ c # ys) = Some r" "utf8_valid r"
    by (auto split: option.splits)
  then obtain xs' where "utf8_char a bs = Some xs'" "r = xs' @ c # ys"
    using utf8_char_cut [OF "2.prems"(1)] by blast
  with "2.IH" "2.prems"(1) r(2) show ?case by auto
qed simp

lemma utf8_valid_cut: 
  assumes "is_ascii c" and "utf8_valid (xs @ c # ys)"
  shows "utf8_valid xs \<and> utf8_valid ys"
proof -
  have xs: "utf8_valid xs" using assms by (rule utf8_valid_cut_left)
  then have "utf8_valid (c # ys)" using assms(2) by (simp add: utf8_valid_append)
  with xs assms(1) show ?thesis by (simp add: is_ascii_def utf8_char_def)
qed

section \<open>Searching and splitting\<close>

fun find_byte :: "u8 \<Rightarrow> str \<Rightarrow> nat option" where
  "find_byte c [] = None"
| "find_byte c (x # xs) = (if x = c then Some 0 else map_option Suc (find_byte c xs))"

fun rfind_byte :: "u8 \<Rightarrow> str \<Rightarrow> nat option" where
  "rfind_byte c [] = None"
| "rfind_byte c (x # xs) =
     (case rfind_byte c xs of Some i \<Rightarrow> Some (Suc i) | None \<Rightarrow> if x = c then Some 0 else None)"

definition split_once :: "u8 \<Rightarrow> str \<Rightarrow> (str \<times> str) option" where
  "split_once c s = map_option (\<lambda>i. (take i s, drop (Suc i) s)) (find_byte c s)"

definition rsplit_once :: "u8 \<Rightarrow> str \<Rightarrow> (str \<times> str) option" where
  "rsplit_once c s = map_option (\<lambda>i. (take i s, drop (Suc i) s)) (rfind_byte c s)"

lemma find_byte_None: "find_byte c s = None \<longleftrightarrow> c \<notin> set s"
  by (induction s) auto

lemma rfind_byte_None: "rfind_byte c s = None \<longleftrightarrow> c \<notin> set s"
  by (induction s) (auto split: option.splits)

lemma find_byte_absent [simp]: "c \<notin> set s \<Longrightarrow> find_byte c s = None"
  by (simp add: find_byte_None)

lemma rfind_byte_absent [simp]: "c \<notin> set s \<Longrightarrow> rfind_byte c s = None"
  by (simp add: rfind_byte_None)

lemma find_byte_append: "c \<notin> set xs \<Longrightarrow> find_byte c (xs @ c # ys) = Some (length xs)"
  by (induction xs) auto

lemma rfind_byte_append:
  assumes "c \<notin> set ys"
  shows "rfind_byte c (xs @ c # ys) = Some (length xs)"
proof -
  from assms have "rfind_byte c ys = None" by simp
  then show ?thesis by (induction xs) simp_all
qed

lemma find_byte_Some:
  "find_byte c s = Some i \<longleftrightarrow> i < length s \<and> s ! i = c \<and> c \<notin> set (take i s)"
proof (induction s arbitrary: i)
  case (Cons x xs)
  then show ?case by (cases i) auto
qed simp

lemma rfind_byte_Some:
  "rfind_byte c s = Some i \<longleftrightarrow> i < length s \<and> s ! i = c \<and> c \<notin> set (drop (Suc i) s)"
proof (induction s arbitrary: i)
  case (Cons x xs)
  show ?case
  proof (cases "rfind_byte c xs")
    case None
    then have "c \<notin> set xs" by (simp add: rfind_byte_None)
    then show ?thesis by (cases i) auto
  next
    case (Some j)
    then have "c \<in> set xs" using rfind_byte_absent [of c xs] by force
    moreover have "j = k \<longleftrightarrow> k < length xs \<and> xs ! k = c \<and> c \<notin> set (drop (Suc k) xs)" for k
      using Cons.IH [of k] Some by simp
    ultimately show ?thesis using Some by (cases i) simp_all
  qed
qed simp

lemma find_byte_split:
  assumes "find_byte c s = Some i"
  shows "s = take i s @ c # drop (Suc i) s"
  using assms by (metis find_byte_Some id_take_nth_drop)

lemma rfind_byte_split:
  assumes "rfind_byte c s = Some i"
  shows "s = take i s @ c # drop (Suc i) s"
  using assms by (metis rfind_byte_Some id_take_nth_drop)

section \<open>Integers: checked arithmetic, decimal parsing and printing\<close>

definition checked_add :: "'a::len word \<Rightarrow> 'a word \<Rightarrow> 'a word option" where
  "checked_add a b = (if unat a + unat b < 2 ^ LENGTH('a) then Some (a + b) else None)"

definition checked_mul :: "'a::len word \<Rightarrow> 'a word \<Rightarrow> 'a word option" where
  "checked_mul a b = (if unat a * unat b < 2 ^ LENGTH('a) then Some (a * b) else None)"

lemma checked_add_Some:
  "checked_add a b = Some c \<longleftrightarrow> c = a + b \<and> unat c = unat a + unat b"
  unfolding checked_add_def by (auto simp: unat_word_ariths) (metis unsigned_less unat_word_ariths(1))

lemma checked_mul_Some:
  "checked_mul a b = Some c \<longleftrightarrow> c = a * b \<and> unat c = unat a * unat b"
  unfolding checked_mul_def by (auto simp: unat_word_ariths) (metis unsigned_less unat_word_ariths(2))

definition is_ascii_digit :: "u8 \<Rightarrow> bool" where
  "is_ascii_digit b \<longleftrightarrow> 48 \<le> b \<and> b \<le> 57"

text \<open>
  \<open>FromStr\<close> of the unsigned integers: an optional \<open>+\<close>, at least one digit, and a value that
  fits.
\<close>

fun digits_value :: "nat \<Rightarrow> str \<Rightarrow> nat" where
  "digits_value acc [] = acc"
| "digits_value acc (b # bs) = digits_value (acc * 10 + unat (b - 48)) bs"

definition strip_plus :: "str \<Rightarrow> str" where
  "strip_plus s = (case s of b # bs \<Rightarrow> if b = 43 then bs else s | [] \<Rightarrow> [])"

definition parse_uint :: "nat \<Rightarrow> str \<Rightarrow> nat option" where
  "parse_uint limit s =
     (let ds = strip_plus s in
      if ds \<noteq> [] \<and> list_all is_ascii_digit ds \<and> digits_value 0 ds \<le> limit
      then Some (digits_value 0 ds) else None)"

function itoa :: "nat \<Rightarrow> str" where
  "itoa n = (if n < 10 then [of_nat (48 + n)] else itoa (n div 10) @ [of_nat (48 + n mod 10)])"
  by pat_completeness auto
termination
  by (relation "measure id") auto

declare itoa.simps [simp del]

lemma digits_value_append: "digits_value acc (xs @ ys) = digits_value (digits_value acc xs) ys"
  by (induction xs arbitrary: acc) auto

lemma digits_value_mono: "acc \<le> digits_value acc ds"
proof (induction ds arbitrary: acc)
  case (Cons b bs)
  have "acc \<le> acc * 10 + unat (b - 48)" by simp
  also have "\<dots> \<le> digits_value (acc * 10 + unat (b - 48)) bs" by (rule Cons.IH)
  finally show ?case by simp
qed simp

lemma digit_byte: "n < 10 \<Longrightarrow> is_ascii_digit (of_nat (48 + n))"
  by (simp add: is_ascii_digit_def word_le_nat_alt unat_of_nat del: of_nat_add)

lemma digit_value: "n < 10 \<Longrightarrow> unat ((of_nat (48 + n) :: u8) - 48) = n"
  by (simp add: unat_of_nat)

lemma itoa_facts: "itoa n \<noteq> [] \<and> list_all is_ascii_digit (itoa n) \<and> digits_value 0 (itoa n) = n"
proof (induction n rule: itoa.induct)
  case (1 n)
  show ?case
  proof (cases "n < 10")
    case True
    then show ?thesis
      by (subst (1 2 3) itoa.simps) (simp add: digit_byte digit_value del: of_nat_add)
  next
    case False
    have "n mod 10 < 10" by simp
    with False 1 show ?thesis
      by (subst (1 2 3) itoa.simps)
        (simp add: digits_value_append digit_byte digit_value del: of_nat_add)
  qed
qed

lemma itoa_digits: "b \<in> set (itoa n) \<Longrightarrow> is_ascii_digit b"
  using itoa_facts [of n] by (auto simp: list_all_iff)

lemma itoa_nonempty [simp]: "itoa n \<noteq> []"
  using itoa_facts by blast

lemma strip_plus_digits: "list_all is_ascii_digit ds \<Longrightarrow> strip_plus ds = ds"
  by (cases ds) (auto simp: strip_plus_def is_ascii_digit_def)

lemma parse_uint_itoa: "n \<le> limit \<Longrightarrow> parse_uint limit (itoa n) = Some n"
  using itoa_facts [of n] by (simp add: parse_uint_def strip_plus_digits)

lemma parse_uint_Some_digits:
  "parse_uint limit s = Some n \<Longrightarrow>
     n \<le> limit \<and> (\<forall>b \<in> set s. is_ascii_digit b \<or> b = 43) \<and> s \<noteq> []"
  by (cases s)
    (auto simp: parse_uint_def strip_plus_def Let_def list_all_iff split: if_splits)

end
