(* ===== verification/Jid.thy ===== *)
theory Jid
  imports Rust_Str
begin

text \<open>
  JIDs (\<open>wacore/binary/src/jid.rs\<close>): the known servers, the address record with its identity
  (equality and hash ignore an agent the server does not render), the text form and its
  parsers.
\<close>

section \<open>Servers\<close>

datatype server =
    Pn | Lid | Group | Broadcast | Newsletter | Hosted | HostedLid | Messenger | Interop | Bot | Call

fun server_as_str :: "server \<Rightarrow> str" where
  "server_as_str Pn = lit ''s.whatsapp.net''"
| "server_as_str Lid = lit ''lid''"
| "server_as_str Group = lit ''g.us''"
| "server_as_str Broadcast = lit ''broadcast''"
| "server_as_str Newsletter = lit ''newsletter''"
| "server_as_str Hosted = lit ''hosted''"
| "server_as_str HostedLid = lit ''hosted.lid''"
| "server_as_str Messenger = lit ''msgr''"
| "server_as_str Interop = lit ''interop''"
| "server_as_str Bot = lit ''bot''"
| "server_as_str Call = lit ''call''"

definition parse_known :: "str \<Rightarrow> server option" where
  "parse_known s =
     (if s = lit ''s.whatsapp.net'' then Some Pn
      else if s = lit ''lid'' then Some Lid
      else if s = lit ''g.us'' then Some Group
      else if s = lit ''broadcast'' then Some Broadcast
      else if s = lit ''newsletter'' then Some Newsletter
      else if s = lit ''hosted'' then Some Hosted
      else if s = lit ''hosted.lid'' then Some HostedLid
      else if s = lit ''msgr'' then Some Messenger
      else if s = lit ''interop'' then Some Interop
      else if s = lit ''bot'' then Some Bot
      else if s = lit ''c.us'' then Some Pn
      else if s = lit ''call'' then Some Call
      else None)"

definition is_pn_family :: "server \<Rightarrow> bool" where
  "is_pn_family s \<longleftrightarrow> (s = Pn \<or> s = Hosted)"

definition is_lid_family :: "server \<Rightarrow> bool" where
  "is_lid_family s \<longleftrightarrow> (s = Lid \<or> s = HostedLid)"

definition renders_agent :: "server \<Rightarrow> bool" where
  "renders_agent s \<longleftrightarrow> (\<not> (s = Pn \<or> s = Lid \<or> s = Hosted \<or> s = HostedLid))"

lemma parse_known_as_str [simp]: "parse_known (server_as_str s) = Some s"
  by (cases s) (simp_all add: parse_known_def)

lemma server_as_str_inject: "server_as_str s = server_as_str t \<longleftrightarrow> s = t"
  by (metis option.inject parse_known_as_str)

lemma server_no_at: "64 \<notin> set (server_as_str s)"
  by (cases s) simp_all

lemma parse_known_no_at: "parse_known s = Some sv \<Longrightarrow> 64 \<notin> set s"
  by (auto simp: parse_known_def split: if_splits)

lemma server_ascii: "list_all is_ascii (server_as_str s)"
  by (cases s) (simp_all add: is_ascii_def)

declare server_as_str.simps [simp del]

section \<open>JIDs\<close>

record jid =
  user :: str
  server :: server
  agent :: u8
  device :: u16
  integrator :: u16

definition STATUS_BROADCAST_USER :: str where
  "STATUS_BROADCAST_USER = lit ''status''"

definition PSA_USER :: str where
  "PSA_USER = lit ''0''"

datatype jid_error = InvalidFormat | ParseInt

definition is_ad :: "jid \<Rightarrow> bool" where
  "is_ad j \<longleftrightarrow> device j > 0 \<and>
     (server j = Pn \<or> server j = Lid \<or> server j = Hosted \<or> server j = HostedLid)"

definition is_interop :: "jid \<Rightarrow> bool" where
  "is_interop j \<longleftrightarrow> server j = Interop \<and> integrator j > 0"

definition is_messenger :: "jid \<Rightarrow> bool" where
  "is_messenger j \<longleftrightarrow> server j = Messenger \<and> device j > 0"

definition is_group :: "jid \<Rightarrow> bool" where
  "is_group j \<longleftrightarrow> server j = Group"

definition is_broadcast_list :: "jid \<Rightarrow> bool" where
  "is_broadcast_list j \<longleftrightarrow> server j = Broadcast \<and> user j \<noteq> STATUS_BROADCAST_USER"

definition is_status_broadcast :: "jid \<Rightarrow> bool" where
  "is_status_broadcast j \<longleftrightarrow> server j = Broadcast \<and> user j = STATUS_BROADCAST_USER"

definition is_psa :: "jid \<Rightarrow> bool" where
  "is_psa j \<longleftrightarrow> server j = Pn \<and> user j = PSA_USER"

definition starts_with :: "str \<Rightarrow> str \<Rightarrow> bool" where
  "starts_with s p \<longleftrightarrow> take (length p) s = p"

definition is_bot :: "jid \<Rightarrow> bool" where
  "is_bot j \<longleftrightarrow>
     (server j = Pn \<and> device j = 0 \<and>
      (starts_with (user j) (lit ''1313555'') \<or> starts_with (user j) (lit ''131655500'')))
     \<or> server j = Bot"

definition is_newsletter :: "jid \<Rightarrow> bool" where
  "is_newsletter j \<longleftrightarrow> server j = Newsletter"

definition is_hosted :: "jid \<Rightarrow> bool" where
  "is_hosted j \<longleftrightarrow> device j = 99 \<or> server j = Hosted \<or> server j = HostedLid"

definition is_same_user_as :: "jid \<Rightarrow> jid \<Rightarrow> bool" where
  "is_same_user_as a b \<longleftrightarrow> user a = user b"

definition jid_new :: "str \<Rightarrow> server \<Rightarrow> jid" where
  "jid_new u s = \<lparr>user = u, server = s, agent = 0, device = 0, integrator = 0\<rparr>"

subsection \<open>Identity\<close>

definition identity_agent :: "server \<Rightarrow> u8 \<Rightarrow> u8" where
  "identity_agent s a = (if renders_agent s then a else 0)"

text \<open>\<open>PartialEq for Jid\<close>, with the raw comparison that short-circuits the normalised one.\<close>

definition jid_eq :: "jid \<Rightarrow> jid \<Rightarrow> bool" where
  "jid_eq a b \<longleftrightarrow>
     user a = user b \<and> server a = server b \<and> device a = device b \<and> integrator a = integrator b \<and>
     (agent a = agent b \<or>
      identity_agent (server a) (agent a) = identity_agent (server b) (agent b))"

text \<open>\<open>Hash for Jid\<close>: the values fed to the hasher, in order.\<close>

definition jid_hash :: "jid \<Rightarrow> str \<times> server \<times> u16 \<times> u16 \<times> u8" where
  "jid_hash j = (user j, server j, device j, integrator j, identity_agent (server j) (agent j))"

definition device_eq :: "jid \<Rightarrow> jid \<Rightarrow> bool" where
  "device_eq a b \<longleftrightarrow> user a = user b \<and> server a = server b \<and> device a = device b"

definition is_same_chat_as :: "jid \<Rightarrow> jid \<Rightarrow> bool" where
  "is_same_chat_as a b \<longleftrightarrow>
     user a = user b \<and> server a = server b \<and> integrator a = integrator b \<and>
     (\<not> renders_agent (server a) \<or> agent a = agent b)"

definition with_device :: "jid \<Rightarrow> u16 \<Rightarrow> jid" where
  "with_device j d = j\<lparr>device := d\<rparr>"

definition with_device_hosting :: "jid \<Rightarrow> u16 \<Rightarrow> bool \<Rightarrow> jid" where
  "with_device_hosting j d hosted =
     (let j' = with_device j d in
      j'\<lparr>server :=
        (if server j' = Pn \<or> server j' = Hosted then (if hosted then Hosted else Pn)
         else if server j' = Lid \<or> server j' = HostedLid then (if hosted then HostedLid else Lid)
         else server j')\<rparr>)"

definition to_non_ad :: "jid \<Rightarrow> jid" where
  "to_non_ad j = (jid_new (user j) (server j))\<lparr>integrator := integrator j\<rparr>"

subsection \<open>The text form\<close>

text \<open>\<open>write_jid!\<close>: \<open>user[.agent][:device]@server\<close>, or the server alone.\<close>

definition push_jid_to_string :: "str \<Rightarrow> server \<Rightarrow> u8 \<Rightarrow> u16 \<Rightarrow> str \<Rightarrow> str" where
  "push_jid_to_string u s a d buf =
     (if u = [] then buf @ server_as_str s
      else buf @ u
        @ (if a > 0 \<and> renders_agent s then 46 # itoa (unat a) else [])
        @ (if d > 0 then 58 # itoa (unat d) else [])
        @ 64 # server_as_str s)"

definition jid_display :: "jid \<Rightarrow> str" where
  "jid_display j = push_jid_to_string (user j) (server j) (agent j) (device j) []"

definition push_phash_form_to :: "jid \<Rightarrow> str \<Rightarrow> str" where
  "push_phash_form_to j buf =
     (if user j = [] then buf @ server_as_str (server j)
      else buf @ user j @ lit ''.0:'' @ itoa (unat (device j)) @ 64 # server_as_str (server j))"

definition to_non_ad_string :: "jid \<Rightarrow> str" where
  "to_non_ad_string j = push_jid_to_string (user j) (server j) 0 0 []"

text \<open>
  \<open>JidStackWriter\<close>: a 64-byte buffer whose \<open>write_str\<close> is all or nothing; the fallible
  \<open>write_jid!\<close> stops at the first fragment that does not fit.
\<close>

definition stack_write_str :: "str \<Rightarrow> str \<Rightarrow> str option" where
  "stack_write_str buf s = (if length buf + length s > 64 then None else Some (buf @ s))"

definition jid_fragments :: "str \<Rightarrow> server \<Rightarrow> u8 \<Rightarrow> u16 \<Rightarrow> str list" where
  "jid_fragments u s a d =
     (if u = [] then [server_as_str s]
      else [u] @ (if a > 0 \<and> renders_agent s then [lit ''.'', itoa (unat a)] else [])
        @ (if d > 0 then [lit '':'', itoa (unat d)] else [])
        @ [lit ''@'', server_as_str s])"

fun write_fragments :: "str \<Rightarrow> str list \<Rightarrow> str option" where
  "write_fragments buf [] = Some buf"
| "write_fragments buf (f # fs) =
     (case stack_write_str buf f of None \<Rightarrow> None | Some buf' \<Rightarrow> write_fragments buf' fs)"

definition jid_ref_to_compact :: "jid \<Rightarrow> str" where
  "jid_ref_to_compact j =
     (case write_fragments [] (jid_fragments (user j) (server j) (agent j) (device j)) of
        Some s \<Rightarrow> s
      | None \<Rightarrow> push_jid_to_string (user j) (server j) (agent j) (device j) [])"

text \<open>\<open>StrEqWriter\<close>: compare fragment by fragment against a target, allocating nothing.\<close>

record str_eq_writer =
  target :: str
  position :: nat
  matches :: bool

definition str_eq_write :: "str_eq_writer \<Rightarrow> str \<Rightarrow> str_eq_writer" where
  "str_eq_write w v =
     (if matches w then
        (let e = position w + length v in
         w\<lparr>matches := \<not> (e > length (target w) \<or> take (length v) (drop (position w) (target w)) \<noteq> v),
           position := e\<rparr>)
      else w)"

definition jid_display_eq :: "str \<Rightarrow> server \<Rightarrow> u8 \<Rightarrow> u16 \<Rightarrow> str \<Rightarrow> bool" where
  "jid_display_eq u s a d other =
     (let w = foldl str_eq_write \<lparr>target = other, position = 0, matches = True\<rparr> (jid_fragments u s a d)
      in matches w \<and> position w = length other)"

definition jid_displays_equal :: "jid \<Rightarrow> jid \<Rightarrow> bool" where
  "jid_displays_equal l r =
     (if user l = [] \<or> user r = [] then user l = [] \<and> user r = [] \<and> server l = server r
      else user l = user r \<and> server l = server r \<and> device l = device r \<and>
           (\<not> renders_agent (server l) \<or> agent l = agent r))"

subsection \<open>Parsing\<close>

fun parse_u16_loop :: "u16 \<Rightarrow> str \<Rightarrow> u16 option" where
  "parse_u16_loop v [] = Some v"
| "parse_u16_loop v (b # bs) =
     (let digit = b - 48 in
      if digit > 9 then None
      else case checked_mul v 10 of None \<Rightarrow> None
           | Some v' \<Rightarrow> (case checked_add v' (ucast digit) of None \<Rightarrow> None
                        | Some v'' \<Rightarrow> parse_u16_loop v'' bs))"

definition parse_u16_decimal :: "str \<Rightarrow> u16 option" where
  "parse_u16_decimal s =
     (let bs = (if s \<noteq> [] \<and> hd s = 43 then tl s else s)
      in if bs = [] then None else parse_u16_loop 0 bs)"

record parsed_jid_parts =
  pp_user :: str
  pp_server :: str
  pp_agent :: u8
  pp_device :: u16
  pp_integrator :: u16

text \<open>The single pass over the user part: the position of \<open>@\<close>, of the last \<open>:\<close> and the last dot.\<close>

fun jid_scan_loop ::
  "nat \<Rightarrow> str \<Rightarrow> nat option \<Rightarrow> nat option \<Rightarrow> nat option \<times> nat option \<times> nat option" where
  "jid_scan_loop i [] colon dot = (None, colon, dot)"
| "jid_scan_loop i (b # bs) colon dot =
     (if b = 64 then (Some i, colon, dot)
      else if b = 58 then jid_scan_loop (Suc i) bs (Some i) dot
      else if b = 46 then jid_scan_loop (Suc i) bs colon (Some i)
      else jid_scan_loop (Suc i) bs colon dot)"

definition unwrap_or :: "'a \<Rightarrow> 'a option \<Rightarrow> 'a" where
  "unwrap_or d x = (case x of None \<Rightarrow> d | Some a \<Rightarrow> a)"

definition scan_agent :: "str \<Rightarrow> nat option \<Rightarrow> str \<times> u8" where
  "scan_agent before last_dot =
     (let agent_dot = (case last_dot of
            Some pos \<Rightarrow> (if pos < length before then Some pos else rfind_byte 46 before)
          | None \<Rightarrow> None)
      in case agent_dot of
           Some dp \<Rightarrow> (case parse_u16_decimal (drop (Suc dp) before) of
               Some v \<Rightarrow> (if v \<le> 255 then (take dp before, ucast v) else (before, 0))
             | None \<Rightarrow> (before, 0))
         | None \<Rightarrow> (before, 0))"

text \<open>The part before the device separator, and the device; a malformed device reads as 0.\<close>

definition scan_device :: "str \<Rightarrow> nat \<Rightarrow> nat option \<Rightarrow> str \<times> u16" where
  "scan_device s a colon =
     (case colon of
        Some pos \<Rightarrow> (take pos s, unwrap_or 0 (parse_u16_decimal (drop (Suc pos) (take a s))))
      | None \<Rightarrow> (take a s, 0))"

definition parse_jid_scan :: "str \<Rightarrow> (parsed_jid_parts \<times> server option) option" where
  "parse_jid_scan s =
     (let (at, colon, dot) = jid_scan_loop 0 s None None in
      case at of
        None \<Rightarrow> None
      | Some a \<Rightarrow>
          if a = 0 then None
          else
            let server_str = drop (Suc a) s;
                sv = parse_known server_str;
                (before, dev) = scan_device s a colon
            in if sv = Some Lid then
                 Some (\<lparr>pp_user = before, pp_server = server_str, pp_agent = 0, pp_device = dev,
                        pp_integrator = 0\<rparr>, sv)
               else
                 let (final_user, ag) = scan_agent before dot
                 in Some (\<lparr>pp_user = final_user, pp_server = server_str, pp_agent = ag,
                           pp_device = dev, pp_integrator = 0\<rparr>, sv))"

definition parse_jid_fast :: "str \<Rightarrow> parsed_jid_parts option" where
  "parse_jid_fast s = map_option fst (parse_jid_scan s)"

definition parse_jid_ref :: "str \<Rightarrow> jid option" where
  "parse_jid_ref s =
     (case parse_jid_scan s of
        None \<Rightarrow> None
      | Some (parts, None) \<Rightarrow> None
      | Some (parts, Some sv) \<Rightarrow>
          Some \<lparr>user = pp_user parts, server = sv, agent = pp_agent parts, device = pp_device parts,
                integrator = pp_integrator parts\<rparr>)"

text \<open>
  \<open>FromStr for Jid\<close>: the fast scan first; what it declines (no user, an unknown server) goes
  through the strict parser, where a malformed device is an error.
\<close>

definition parse_u16_std :: "str \<Rightarrow> u16 option" where
  "parse_u16_std s = map_option of_nat (parse_uint 65535 s)"

definition jid_from_str_slow :: "str \<Rightarrow> (jid_error, jid) result" where
  "jid_from_str_slow s =
     (let (user_part, sv) = (case split_once 64 s of Some p \<Rightarrow> p | None \<Rightarrow> ([], s)) in
      if user_part = [] \<and> parse_known sv = None then Inl InvalidFormat
      else if sv = lit ''lid'' then
        bind_res (case rsplit_once 58 user_part of
            Some (u, d) \<Rightarrow> map_res (\<lambda>n. (u, n)) (ok_or ParseInt (parse_u16_std d))
          | None \<Rightarrow> Inr (user_part, 0))
        (\<lambda>(u, d). map_res (\<lambda>k. \<lparr>user = u, server = k, agent = 0, device = d, integrator = 0\<rparr>)
                    (ok_or InvalidFormat (parse_known sv)))
      else
        bind_res (case rsplit_once 58 user_part of
            Some (u, d) \<Rightarrow> map_res (\<lambda>n. (u, n)) (ok_or ParseInt (parse_u16_std d))
          | None \<Rightarrow> Inr (user_part, 0))
        (\<lambda>(u, d).
          bind_res (case rsplit_once 46 u of
              Some (u', l) \<Rightarrow> (case parse_u16_std l of
                  Some v \<Rightarrow> (if v > 255 then Inl InvalidFormat else Inr (u', ucast v))
                | None \<Rightarrow> Inr (u, 0))
            | None \<Rightarrow> Inr (u, 0))
          (\<lambda>(u', a). map_res (\<lambda>k. \<lparr>user = u', server = k, agent = a, device = d, integrator = 0\<rparr>)
                       (ok_or InvalidFormat (parse_known sv)))))"

definition jid_from_str :: "str \<Rightarrow> (jid_error, jid) result" where
  "jid_from_str s =
     (case parse_jid_ref s of Some j \<Rightarrow> Inr j | None \<Rightarrow> jid_from_str_slow s)"

section \<open>Decimal fields\<close>

lemma digit_gt_9: "(b :: u8) - 48 > 9 \<longleftrightarrow> \<not> is_ascii_digit b"
  unfolding is_ascii_digit_def by unat_arith auto

lemma unat_ucast_digit: "unat (ucast (b :: u8) :: u16) = unat b"
  by (simp add: unat_ucast_up)

lemma parse_u16_loop_eq:
  "parse_u16_loop v bs =
     (if list_all is_ascii_digit bs \<and> digits_value (unat v) bs \<le> 65535
      then Some (of_nat (digits_value (unat v) bs)) else None)"
proof (induction bs arbitrary: v)
  case (Cons b bs)
  show ?case
  proof (cases "is_ascii_digit b")
    case True
    let ?n = "unat v * 10 + unat (b - 48)"
    show ?thesis
    proof (cases "?n \<le> 65535")
      case fits: True
      have mul: "checked_mul v 10 = Some (v * 10)" and u: "unat (v * 10) = unat v * 10"
        using fits by (auto simp: checked_mul_def unat_word_ariths)
      have add: "checked_add (v * 10) (ucast (b - 48)) = Some (v * 10 + ucast (b - 48))"
        using fits by (simp add: checked_add_def u unat_ucast_digit)
      have "unat (v * 10 + ucast (b - 48)) = ?n"
        using add by (simp add: checked_add_Some u unat_ucast_digit)
      with True mul add show ?thesis by (simp add: Cons.IH digit_gt_9 Let_def)
    next
      case False
      have "checked_mul v 10 = None \<or>
            (\<exists>w. checked_mul v 10 = Some w \<and> checked_add w (ucast (b - 48)) = None)"
        using False by (auto simp: checked_mul_def checked_add_def unat_word_ariths unat_ucast_digit)
      then have "parse_u16_loop v (b # bs) = None"
        using True by (auto simp: digit_gt_9 Let_def)
      moreover have "digits_value (unat v) (b # bs) > 65535"
        using False digits_value_mono [of ?n bs] by simp
      ultimately show ?thesis by simp
    qed
  qed (simp add: digit_gt_9 Let_def)
qed simp

lemma parse_u16_decimal_std: "parse_u16_decimal s = parse_u16_std s"
proof -
  have "(if s \<noteq> [] \<and> hd s = 43 then tl s else s) = strip_plus s"
    by (cases s) (auto simp: strip_plus_def)
  then show ?thesis
    by (simp add: parse_u16_decimal_def parse_u16_std_def parse_uint_def parse_u16_loop_eq Let_def)
qed

lemma parse_u16_itoa: "parse_u16_decimal (itoa (unat (n :: u16))) = Some n"
  by (simp add: parse_u16_decimal_std parse_u16_std_def parse_uint_itoa)

lemma parse_u16_itoa_u8: "parse_u16_decimal (itoa (unat (n :: u8))) = Some (ucast n)"
proof -
  have "parse_u16_decimal (itoa (unat (ucast n :: u16))) = Some (ucast n)" by (rule parse_u16_itoa)
  then show ?thesis by (simp add: unat_ucast_digit)
qed

section \<open>The text form: writers agree\<close>

lemma concat_jid_fragments: "concat (jid_fragments u s a d) = push_jid_to_string u s a d []"
  by (auto simp: jid_fragments_def push_jid_to_string_def)

lemma write_fragments_Some: "write_fragments buf fs = Some r \<Longrightarrow> r = buf @ concat fs"
  by (induction fs arbitrary: buf) (fastforce simp: stack_write_str_def split: option.splits if_splits)+

lemma jid_ref_to_compact_display: "jid_ref_to_compact j = jid_display j"
  by (auto simp: jid_ref_to_compact_def jid_display_def concat_jid_fragments
      dest: write_fragments_Some split: option.splits)

lemma str_eq_dead: "\<not> matches w \<Longrightarrow> foldl str_eq_write w fs = w"
  by (induction fs) (auto simp: str_eq_write_def)

lemma str_eq_fold:
  assumes "matches w" and "position w \<le> length (target w)"
  shows "(let w' = foldl str_eq_write w fs in matches w' \<and> position w' = length (target w)) \<longleftrightarrow>
         drop (position w) (target w) = concat fs"
  using assms
proof (induction fs arbitrary: w)
  case (Cons f fs)
  let ?w = "str_eq_write w f" and ?p = "position w" and ?t = "target w"
  have t: "target ?w = ?t" by (simp add: str_eq_write_def Let_def)
  show ?case
  proof (cases "?p + length f \<le> length ?t \<and> take (length f) (drop ?p ?t) = f")
    case True
    then have w: "matches ?w" "position ?w = ?p + length f"
      using Cons.prems by (auto simp: str_eq_write_def Let_def)
    have "drop ?p ?t = f @ drop (?p + length f) ?t"
      using True append_take_drop_id [of "length f" "drop ?p ?t"] by (simp add: add.commute)
    then show ?thesis using Cons.IH [of ?w] w True by (simp add: t)
  next
    case False
    then have "\<not> matches ?w" using Cons.prems by (auto simp: str_eq_write_def Let_def)
    then have "\<not> (let w' = foldl str_eq_write w (f # fs) in
        matches w' \<and> position w' = length ?t)"
      by (simp add: str_eq_dead)
    moreover have "drop ?p ?t \<noteq> f @ concat fs"
    proof
      assume eq: "drop ?p ?t = f @ concat fs"
      then have "length ?t - ?p = length f + length (concat fs)" by (metis length_append length_drop)
      with False eq Cons.prems show False by simp
    qed
    ultimately show ?thesis by simp
  qed
qed auto

lemma jid_display_eq_iff:
  "jid_display_eq u s a d other \<longleftrightarrow> other = push_jid_to_string u s a d []"
  using str_eq_fold [of "\<lparr>target = other, position = 0, matches = True\<rparr>" "jid_fragments u s a d"]
  by (simp add: jid_display_eq_def concat_jid_fragments)

section \<open>Identity: equality, hash, chat\<close>

text \<open>The comparison short-circuit is harmless, and equality is exactly equality of what is hashed.\<close>

lemma jid_eq_hash: "jid_eq a b \<longleftrightarrow> jid_hash a = jid_hash b"
  by (auto simp: jid_eq_def jid_hash_def)

lemma jid_eq_same_chat: "jid_eq a b \<longleftrightarrow> is_same_chat_as a b \<and> device a = device b"
  by (auto simp: jid_eq_def is_same_chat_as_def identity_agent_def)

section \<open>Parsing the text form\<close>

lemma jid_scan_loop_at:
  assumes "64 \<notin> set xs"
  shows "jid_scan_loop i (xs @ 64 # ys) c d =
    (Some (i + length xs),
     (case rfind_byte 58 xs of Some p \<Rightarrow> Some (i + p) | None \<Rightarrow> c),
     (case rfind_byte 46 xs of Some p \<Rightarrow> Some (i + p) | None \<Rightarrow> d))"
  using assms
proof (induction xs arbitrary: i c d)
  case (Cons x xs)
  then show ?case by (auto split: option.splits)
qed simp

lemma jid_scan_loop_no_at: "64 \<notin> set xs \<Longrightarrow> fst (jid_scan_loop i xs c d) = None"
  by (induction i xs c d rule: jid_scan_loop.induct) auto

text \<open>A user part that ends in a dot and a number up to 255 reads as carrying an agent.\<close>

definition ends_in_agent :: "str \<Rightarrow> bool" where
  "ends_in_agent u \<longleftrightarrow>
     (case rfind_byte 46 u of
        None \<Rightarrow> False
      | Some p \<Rightarrow> (case parse_u16_decimal (drop (Suc p) u) of None \<Rightarrow> False | Some v \<Rightarrow> v \<le> 255))"

lemma scan_agent_none: "\<not> ends_in_agent u \<Longrightarrow> scan_agent u (rfind_byte 46 u) = (u, 0)"
  by (cases "rfind_byte 46 u")
    (auto simp: scan_agent_def ends_in_agent_def dest: rfind_byte_Some [THEN iffD1]
      split: option.splits)

lemma digits_no_sep: "46 \<notin> set (itoa n)" "58 \<notin> set (itoa n)" "64 \<notin> set (itoa n)"
  using itoa_digits [of 46 n] itoa_digits [of 58 n] itoa_digits [of 64 n]
  by (auto simp: is_ascii_digit_def)

lemma scan_agent_some: "scan_agent (u @ 46 # itoa (unat (a :: u8))) (Some (length u)) = (u, a)"
proof -
  have "unat (ucast a :: u16) \<le> 255" by (simp add: unat_ucast_up)
  then have le: "(ucast a :: u16) \<le> 255" by (simp add: word_le_nat_alt)
  have "(ucast (ucast a :: u16) :: u8) = a"
    by (rule bit_word_eqI) (simp add: bit_simps)
  with le show ?thesis by (simp add: scan_agent_def parse_u16_itoa_u8)
qed

text \<open>
  The text before the \<open>@\<close> of a rendered JID, and where the scan finds its separators.
\<close>

definition shown_agent :: "jid \<Rightarrow> bool" where
  "shown_agent j \<longleftrightarrow> agent j > 0 \<and> renders_agent (server j)"

definition user_agent_text :: "jid \<Rightarrow> str" where
  "user_agent_text j = user j @ (if shown_agent j then 46 # itoa (unat (agent j)) else [])"

definition user_text :: "jid \<Rightarrow> str" where
  "user_text j = user_agent_text j @ (if device j > 0 then 58 # itoa (unat (device j)) else [])"

definition plain_user :: "jid \<Rightarrow> bool" where
  "plain_user j \<longleftrightarrow> user j \<noteq> [] \<and> 64 \<notin> set (user j) \<and> 58 \<notin> set (user j) \<and>
     (server j \<noteq> Lid \<longrightarrow> \<not> shown_agent j \<longrightarrow> \<not> ends_in_agent (user j))"

lemma jid_display_text:
  "user j \<noteq> [] \<Longrightarrow> jid_display j = user_text j @ 64 # server_as_str (server j)"
  by (simp add: jid_display_def push_jid_to_string_def user_text_def user_agent_text_def
      shown_agent_def)

lemma user_agent_text_facts:
  assumes "plain_user j"
  shows "64 \<notin> set (user_agent_text j)" "58 \<notin> set (user_agent_text j)" "user_agent_text j \<noteq> []"
  using assms by (auto simp: user_agent_text_def plain_user_def digits_no_sep)

lemma rfind_in_user_text:
  assumes "plain_user j"
  shows "rfind_byte 58 (user_text j) =
           (if device j > 0 then Some (length (user_agent_text j)) else None)"
    and "rfind_byte 46 (user_text j) = rfind_byte 46 (user_agent_text j)"
proof -
  note facts = user_agent_text_facts [OF assms]
  show "rfind_byte 58 (user_text j) =
           (if device j > 0 then Some (length (user_agent_text j)) else None)"
    using facts by (simp add: user_text_def rfind_byte_append digits_no_sep)
  have "rfind_byte c (xs @ ys) = rfind_byte c xs" if "c \<notin> set ys" for c xs and ys :: str
    using that by (induction xs) auto
  then show "rfind_byte 46 (user_text j) = rfind_byte 46 (user_agent_text j)"
    by (simp add: user_text_def digits_no_sep)
qed

lemma scan_agent_user_agent_text:
  assumes "plain_user j" and "server j \<noteq> Lid"
  shows "scan_agent (user_agent_text j) (rfind_byte 46 (user_agent_text j)) =
         (user j, identity_agent (server j) (agent j))"
proof (cases "shown_agent j")
  case True
  then show ?thesis
    by (simp add: user_agent_text_def rfind_byte_append digits_no_sep scan_agent_some
        identity_agent_def shown_agent_def)
next
  case False
  then have "identity_agent (server j) (agent j) = 0"
    by (auto simp: shown_agent_def identity_agent_def word_gt_0)
  with False assms show ?thesis
    by (simp add: user_agent_text_def scan_agent_none plain_user_def)
qed

lemma parse_jid_scan_at:
  assumes "64 \<notin> set xs" and "xs \<noteq> []"
  shows "parse_jid_scan (xs @ 64 # ys) =
    (let (before, dev) = scan_device (xs @ 64 # ys) (length xs) (rfind_byte 58 xs);
         (final_user, ag) = (if parse_known ys = Some Lid then (before, 0)
                             else scan_agent before (rfind_byte 46 xs))
     in Some (\<lparr>pp_user = final_user, pp_server = ys, pp_agent = ag, pp_device = dev,
               pp_integrator = 0\<rparr>, parse_known ys))"
proof -
  have "(case o' of None \<Rightarrow> None | Some p \<Rightarrow> Some (0 + p)) = o'" for o' :: "nat option"
    by (cases o') simp_all
  with assms show ?thesis
    by (simp add: parse_jid_scan_def jid_scan_loop_at Let_def split: prod.splits)
qed

lemma scan_device_user_text:
  assumes "plain_user j"
  shows "scan_device (user_text j @ ys) (length (user_text j)) (rfind_byte 58 (user_text j)) =
         (user_agent_text j, device j)"
proof (cases "device j > 0")
  case True
  with rfind_in_user_text [OF assms] show ?thesis
    by (simp add: scan_device_def) (simp add: user_text_def unwrap_or_def parse_u16_itoa)
next
  case False
  with rfind_in_user_text [OF assms] show ?thesis
    by (simp add: scan_device_def) (simp add: user_text_def word_gt_0)
qed

lemma parse_jid_ref_display:
  assumes "plain_user j"
  shows "parse_jid_ref (jid_display j) =
         Some (j\<lparr>agent := identity_agent (server j) (agent j), integrator := 0\<rparr>)"
proof -
  have "64 \<notin> set (user_text j)" "user_text j \<noteq> []"
    using user_agent_text_facts [OF assms] by (auto simp: user_text_def digits_no_sep)
  then have scan: "parse_jid_ref (jid_display j) =
    (let (u, a) = (if server j = Lid then (user_agent_text j, 0)
                   else scan_agent (user_agent_text j) (rfind_byte 46 (user_agent_text j)))
     in Some \<lparr>user = u, server = server j, agent = a, device = device j, integrator = 0\<rparr>)"
    using assms
    by (simp add: jid_display_text plain_user_def parse_jid_ref_def parse_jid_scan_at
        scan_device_user_text [OF assms] rfind_in_user_text(2) [OF assms] Let_def split: prod.splits)
  show ?thesis
  proof (cases "server j = Lid")
    case True
    then have "user_agent_text j = user j" "identity_agent (server j) (agent j) = 0"
      by (simp_all add: user_agent_text_def shown_agent_def identity_agent_def renders_agent_def)
    with True show ?thesis by (simp add: scan)
  next
    case False
    then show ?thesis by (simp add: scan scan_agent_user_agent_text [OF assms])
  qed
qed

lemma jid_from_str_display:
  "plain_user j \<Longrightarrow>
   jid_from_str (jid_display j) = Inr (j\<lparr>agent := identity_agent (server j) (agent j), integrator := 0\<rparr>)"
  by (simp add: jid_from_str_def parse_jid_ref_display)

section \<open>Properties\<close>



text \<open>
  C37 (\<open>Eq\<close> and \<open>Hash\<close> agree). Two JIDs are equal exactly when the same values are fed to the hasher,
  and exactly when they name the same device of the same chat, so equality is an equivalence that
  no field left over from the wire can break.
\<close>

theorem jid_eq_hash_chat:
  "(jid_eq a b \<longleftrightarrow> jid_hash a = jid_hash b) \<and>
   (jid_eq a b \<longleftrightarrow> is_same_chat_as a b \<and> device a = device b)"
  using jid_eq_hash jid_eq_same_chat by blast

text \<open>
  The allocation-free comparison. Comparing a JID with a string fragment by fragment, as
  \<open>display_eq\<close> does, is comparing the string with the rendered form, and the stack buffer of
  \<open>jid_ref_to_compact\<close> with its overflow fallback also yields the rendered form.
\<close>

theorem jid_display_eq_exact:
  "(jid_display_eq (user j) (server j) (agent j) (device j) other \<longleftrightarrow> other = jid_display j) \<and>
   jid_ref_to_compact j = jid_display j"
  by (simp add: jid_display_eq_iff jid_ref_to_compact_display jid_display_def)

text \<open>
  Equivalence of the hand-written number parser. The specialised \<open>u16\<close> parser accepts exactly
  what \<open>str::parse::<u16>\<close> accepts, overflow and the optional sign included, with the same value.
\<close>

theorem parse_u16_decimal_equiv: "parse_u16_decimal s = parse_u16_std s"
  by (rule parse_u16_decimal_std)

end
