(* ===== verification/Tokens.thy ===== *)
theory Tokens
  imports Rust_Str
begin

text \<open>
  The token dictionary (\<open>wacore/binary/src/token.rs\<close>) and the build script that lays out its
  open-addressing table (\<open>wacore/binary/build.rs\<close>). The token list itself (\<open>tokens.json\<close>) is an
  argument: every fact holds for whatever list the build script accepts. An assertion, a panic or a
  failed conversion of the build script is \<open>None\<close>: there is then no program.
\<close>

section \<open>Tags\<close>

definition LIST_EMPTY :: u8 where "LIST_EMPTY = 0"
definition DICTIONARY_0 :: u8 where "DICTIONARY_0 = 236"
definition DICTIONARY_3 :: u8 where "DICTIONARY_3 = 239"
definition JID_PAIR :: u8 where "JID_PAIR = 250"
definition HEX_8 :: u8 where "HEX_8 = 251"
definition BINARY_8 :: u8 where "BINARY_8 = 252"
definition BINARY_20 :: u8 where "BINARY_20 = 253"
definition BINARY_32 :: u8 where "BINARY_32 = 254"
definition NIBBLE_8 :: u8 where "NIBBLE_8 = 255"
definition INTEROP_JID :: u8 where "INTEROP_JID = 245"
definition FB_JID :: u8 where "FB_JID = 246"
definition AD_JID :: u8 where "AD_JID = 247"
definition LIST_8 :: u8 where "LIST_8 = 248"
definition LIST_16 :: u8 where "LIST_16 = 249"
definition PACKED_MAX :: nat where "PACKED_MAX = 127"

lemmas tag_defs = LIST_EMPTY_def DICTIONARY_0_def DICTIONARY_3_def JID_PAIR_def HEX_8_def
  BINARY_8_def BINARY_20_def BINARY_32_def NIBBLE_8_def INTEROP_JID_def FB_JID_def AD_JID_def
  LIST_8_def LIST_16_def

datatype token_kind = Single u8 | Double u8 u8

section \<open>The generated tables and the lookup\<close>

record token_tables =
  max_token_len :: nat
  tok_mul :: u32
  tok_shift :: nat
  tok_mask :: nat
  tok_keys :: "u32 list"
  tok_meta :: "u16 list"
  tok_off :: "u16 list"
  tok_blob :: bytes
  single_byte_tokens :: "str list"
  double_byte_tokens :: "str list list"

text \<open>\<open>u32::from_le_bytes\<close> of up to four bytes, the missing ones zero.\<close>

fun le_word :: "bytes \<Rightarrow> u32" where
  "le_word [] = 0"
| "le_word (b # bs) = ucast b OR push_bit 8 (le_word bs)"

definition token_key :: "bytes \<Rightarrow> u32" where
  "token_key b =
     (let len = length b in
      if len \<le> 4 then le_word b
      else
        let head = le_word (take 4 b); tail = le_word (drop (len - 4) b)
        in word_rotl 11 head XOR tail XOR (of_nat len * 0x9E3779B1))"

definition decode_kind :: "u16 \<Rightarrow> token_kind" where
  "decode_kind kind =
     (if kind < 256 then Single (ucast kind)
      else Double (ucast (drop_bit 8 kind) - 1) (ucast kind))"

text \<open>
  The test of one occupied slot: a short key matches by its padded word and the exact length in
  the meta tag; a long one by its signature, the tag 31 and the length-prefixed bytes in the blob.
\<close>

definition slot_match :: "token_tables \<Rightarrow> bytes \<Rightarrow> u32 \<Rightarrow> nat \<Rightarrow> token_kind option" where
  "slot_match T key x h =
     (let len = length key; meta = tok_meta T ! h in
      if tok_keys T ! h \<noteq> x then None
      else if len \<le> 4 then
        (if unat (drop_bit 11 meta) = len - 1 then Some (decode_kind (meta AND 0x7FF)) else None)
      else if drop_bit 11 meta = 31 then
        (let off = unat (tok_off T ! h) in
         if unat (tok_blob T ! off) = len \<and> take len (drop (off + 1) (tok_blob T)) = key
         then Some (decode_kind (meta AND 0x7FF)) else None)
      else None)"

text \<open>
  The probe loop. It stops at an empty slot or a match; the outer \<open>None\<close> is a probe that has
  visited more slots than the table has and would go round for ever.
\<close>

fun probe :: "token_tables \<Rightarrow> bytes \<Rightarrow> u32 \<Rightarrow> nat \<Rightarrow> nat \<Rightarrow> token_kind option option" where
  "probe T key x 0 h = None"
| "probe T key x (Suc n) h =
     (if tok_keys T ! h = 0 then Some None
      else case slot_match T key x h of
             Some k \<Rightarrow> Some (Some k)
           | None \<Rightarrow> probe T key x n ((h + 1) AND tok_mask T))"

definition lookup_bytes :: "token_tables \<Rightarrow> bytes \<Rightarrow> token_kind option option" where
  "lookup_bytes T key =
     (if length key = 0 \<or> length key > max_token_len T then Some None
      else
        let x = token_key key; h = unat (drop_bit (tok_shift T) (x * tok_mul T))
        in probe T key x (Suc (tok_mask T)) h)"

definition index_of_token :: "token_tables \<Rightarrow> str \<Rightarrow> token_kind option" where
  "index_of_token T s = (case lookup_bytes T s of Some r \<Rightarrow> r | None \<Rightarrow> None)"

definition get_single_token :: "token_tables \<Rightarrow> u8 \<Rightarrow> str option" where
  "get_single_token T i =
     (if unat i < length (single_byte_tokens T) then Some (single_byte_tokens T ! unat i) else None)"

definition get_double_token :: "token_tables \<Rightarrow> u8 \<Rightarrow> u8 \<Rightarrow> str option" where
  "get_double_token T d i =
     (if unat d < length (double_byte_tokens T) \<and> unat i < length (double_byte_tokens T ! unat d)
      then Some (double_byte_tokens T ! unat d ! unat i) else None)"

section \<open>The build script\<close>

record tokens_json =
  single_byte :: "str list"
  double_byte :: "str list list"

definition single_kind :: "nat \<Rightarrow> u16 option" where
  "single_kind i = (if i < 256 then Some (of_nat i) else None)"

definition double_kind :: "nat \<Rightarrow> nat \<Rightarrow> u16 option" where
  "double_kind d i =
     (if i < 256 \<and> d + 1 < 256 \<and> (d + 1) * 256 + i < 65536
      then Some (of_nat ((d + 1) * 256 + i)) else None)"

text \<open>One pass over a dictionary: empty entries are skipped, a duplicate panics.\<close>

fun gather ::
  "(nat \<Rightarrow> u16 option) \<Rightarrow> nat \<Rightarrow> str list \<Rightarrow> (str \<times> u16) list \<Rightarrow> (str \<times> u16) list option" where
  "gather mk i [] vs = Some vs"
| "gather mk i (t # ts) vs =
     (if t = [] then gather mk (Suc i) ts vs
      else case mk i of
             None \<Rightarrow> None
           | Some kind \<Rightarrow>
               (if t \<in> fst ` set vs then None else gather mk (Suc i) ts (vs @ [(t, kind)])))"

fun gather_dicts :: "nat \<Rightarrow> str list list \<Rightarrow> (str \<times> u16) list \<Rightarrow> (str \<times> u16) list option" where
  "gather_dicts d [] vs = Some vs"
| "gather_dicts d (dict # ds) vs =
     (case gather (double_kind d) 0 dict vs of None \<Rightarrow> None | Some vs' \<Rightarrow> gather_dicts (Suc d) ds vs')"

type_synonym entry = "u32 \<times> u16 \<times> u16"

fun make_entries ::
  "(str \<times> u16) list \<Rightarrow> bytes \<Rightarrow> entry list \<Rightarrow> (entry list \<times> bytes) option" where
  "make_entries [] blob es = Some (es, blob)"
| "make_entries ((t, k) # vs) blob es =
     (if 0 \<in> set t \<or> unat k \<ge> 2 ^ 11 \<or> token_key t = 0 then None
      else if length t \<le> 4 then
        make_entries vs blob (es @ [(token_key t, k OR push_bit 11 (of_nat (length t) - 1), 0)])
      else if length blob > 65535 then None
      else
        make_entries vs (blob @ of_nat (length t) # t)
          (es @ [(token_key t, k OR push_bit 11 31, of_nat (length blob))]))"

text \<open>The slot an entry goes to, giving up after eight displacements.\<close>

function insert_slot :: "u32 list \<Rightarrow> nat \<Rightarrow> nat \<Rightarrow> nat \<Rightarrow> nat option" where
  "insert_slot keys sz h disp =
     (if keys ! h = 0 then Some h
      else if disp + 1 > 8 then None
      else insert_slot keys sz ((h + 1) AND (sz - 1)) (disp + 1))"
  by pat_completeness auto
termination
  by (relation "measure (\<lambda>(_, _, _, disp). 9 - disp)") auto

declare insert_slot.simps [simp del]

type_synonym slots = "u32 list \<times> u16 list \<times> u16 list"

fun insert_all :: "nat \<Rightarrow> u32 \<Rightarrow> entry list \<Rightarrow> slots \<Rightarrow> slots option" where
  "insert_all k mul [] S = Some S"
| "insert_all k mul ((x, m, o') # es) (keys, meta, off) =
     (case insert_slot keys (2 ^ k) (unat (drop_bit (32 - k) (x * mul))) 0 of
        None \<Rightarrow> None
      | Some h \<Rightarrow> insert_all k mul es (keys[h := x], meta[h := m], off[h := o']))"

fun try_muls :: "nat \<Rightarrow> nat \<Rightarrow> u32 \<Rightarrow> entry list \<Rightarrow> (u32 \<times> slots) option" where
  "try_muls 0 k mul es = None"
| "try_muls (Suc n) k mul es =
     (case insert_all k mul es (replicate (2 ^ k) 0, replicate (2 ^ k) 0, replicate (2 ^ k) 0) of
        Some S \<Rightarrow> Some (mul, S)
      | None \<Rightarrow> try_muls n k (mul * 0x85EBCA6B OR 1) es)"

text \<open>
  The outer loop doubles the table until some multiplier fits; nothing in the source bounds it,
  so it takes fuel. A table of more than \<open>2 ^ 32\<close> slots would underflow the shift.
\<close>

fun build_table :: "nat \<Rightarrow> nat \<Rightarrow> entry list \<Rightarrow> (nat \<times> u32 \<times> slots) option" where
  "build_table 0 k es = None"
| "build_table (Suc n) k es =
     (if k > 32 then None
      else case try_muls 256 k 0x9E3779B1 es of
             Some (mul, S) \<Rightarrow> Some (k, mul, S)
           | None \<Rightarrow> build_table n (k + 1) es)"

function bit_len :: "nat \<Rightarrow> nat" where
  "bit_len n = (if n = 0 then 0 else Suc (bit_len (n div 2)))"
  by pat_completeness auto
termination
  by (relation "measure id") auto

declare bit_len.simps [simp del]

definition token_values :: "tokens_json \<Rightarrow> (str \<times> u16) list option" where
  "token_values tj =
     (case gather single_kind 0 (single_byte tj) [] of
        None \<Rightarrow> None
      | Some vs \<Rightarrow> gather_dicts 0 (double_byte tj) vs)"

definition build_tokens :: "nat \<Rightarrow> tokens_json \<Rightarrow> token_tables option" where
  "build_tokens fuel tj =
     (case token_values tj of
        None \<Rightarrow> None
      | Some vs \<Rightarrow>
          (let max_len = foldr max (map (length \<circ> fst) vs) 0 in
           if max_len \<ge> 256 then None
           else case make_entries vs [] [] of
                  None \<Rightarrow> None
                | Some (es, blob) \<Rightarrow>
                    (case build_table fuel (bit_len (length es * 4 div 3)) es of
                       None \<Rightarrow> None
                     | Some (k, mul, (keys, meta, off)) \<Rightarrow>
                         Some \<lparr>max_token_len = max_len, tok_mul = mul, tok_shift = 32 - k,
                               tok_mask = 2 ^ k - 1, tok_keys = keys, tok_meta = meta,
                               tok_off = off, tok_blob = blob,
                               single_byte_tokens = single_byte tj,
                               double_byte_tokens = double_byte tj\<rparr>)))"

section \<open>Keys and meta words\<close>

lemma bit_le_word:
  "bit (le_word bs) n \<longleftrightarrow> n < 32 \<and> n div 8 < length bs \<and> bit (bs ! (n div 8)) (n mod 8)"
proof (induction bs arbitrary: n)
  case (Cons b bs)
  show ?case
  proof (cases "n < 8")
    case True
    then show ?thesis by (auto simp: bit_simps)
  next
    case False
    then obtain m where m: "n = m + 8" by (metis add.commute le_Suc_ex not_less)
    moreover have "(m + 8) div 8 = Suc (m div 8)" by simp
    ultimately show ?thesis by (auto simp: bit_simps Cons.IH)
  qed
qed simp

lemma le_word_inject:
  assumes "length xs = length ys" and "length xs \<le> 4" and "le_word xs = le_word ys"
  shows "xs = ys"
proof (rule nth_equalityI)
  fix i assume i: "i < length xs"
  show "xs ! i = ys ! i"
  proof (rule bit_word_eqI)
    fix n assume "n < LENGTH(8)"
    then have n: "n < 8" by simp
    have "bit (le_word zs) (8 * i + n) \<longleftrightarrow> bit (zs ! i) n" if "length zs = length xs" for zs
      using that i n assms(2) by (simp add: bit_le_word)
    from this [of xs] this [of ys] assms(1,3) show "bit (xs ! i) n = bit (ys ! i) n" by simp
  qed
qed (rule assms(1))

definition tag_of :: "str \<Rightarrow> u16" where
  "tag_of t = (if length t \<le> 4 then of_nat (length t) - 1 else 31)"

lemma meta_fields:
  fixes k tg :: u16
  assumes "unat k < 2 ^ 11" and "unat tg < 32"
  shows "drop_bit 11 (k OR push_bit 11 tg) = tg" and "(k OR push_bit 11 tg) AND 0x7FF = k"
proof -
  have tg: "n < 5" if "bit tg n" for n
    using bit_less_exp [of tg 5 n] assms(2) that by simp
  note kb = bit_less_exp [OF assms(1)]
  show "drop_bit 11 (k OR push_bit 11 tg) = tg"
    by (rule bit_word_eqI) (use tg kb in \<open>fastforce simp: bit_simps\<close>)
  have mask: "(0x7FF :: u16) = mask 11" by (simp add: mask_eq_exp_minus_1)
  show "(k OR push_bit 11 tg) AND 0x7FF = k"
    unfolding mask by (rule bit_word_eqI) (use kb in \<open>fastforce simp: bit_simps\<close>)
qed

lemma unat_tag_of:
  "t \<noteq> [] \<Longrightarrow> unat (tag_of t) = (if length t \<le> 4 then length t - 1 else 31)"
proof (cases "length t \<le> 4")
  case True
  moreover assume "t \<noteq> []"
  ultimately have "length t \<in> {1, 2, 3, 4}" by (cases "length t") auto
  with True show ?thesis by (auto simp: tag_of_def)
qed (simp add: tag_of_def)

section \<open>Entries and blob\<close>

text \<open>What the entry of a token says, given the blob the long tokens are stored in.\<close>

definition entry_ok :: "bytes \<Rightarrow> str \<times> u16 \<Rightarrow> entry \<Rightarrow> bool" where
  "entry_ok blob v e \<longleftrightarrow>
     (case (v, e) of ((t, k), (x, m, o')) \<Rightarrow>
        x = token_key t \<and> x \<noteq> 0 \<and> unat k < 2 ^ 11 \<and> m = k OR push_bit 11 (tag_of t) \<and>
        (length t > 4 \<longrightarrow>
           unat o' + length t < length blob \<and> blob ! unat o' = of_nat (length t) \<and>
           take (length t) (drop (unat o' + 1) blob) = t))"

lemma entry_ok_append: "entry_ok blob v e \<Longrightarrow> entry_ok (blob @ ys) v e"
  by (auto simp: entry_ok_def nth_append split: prod.splits)

lemma make_entries_ok:
  assumes "make_entries vs blob es = Some (es', blob')" and "list_all2 (entry_ok blob) us es"
  shows "list_all2 (entry_ok blob') (us @ vs) es'"
  using assms
proof (induction vs blob es arbitrary: us rule: make_entries.induct)
  case (2 t k vs blob es)
  note guard = "2.prems"(1)
  show ?case
  proof (cases "length t \<le> 4")
    case True
    let ?e = "(token_key t, k OR push_bit 11 (of_nat (length t) - 1), 0 :: u16)"
    have "entry_ok blob (t, k) ?e"
      using guard True by (auto simp: entry_ok_def tag_of_def split: if_splits)
    then have "list_all2 (entry_ok blob) (us @ [(t, k)]) (es @ [?e])"
      using "2.prems"(2) by (intro list_all2_appendI) auto
    from "2.IH"(1) [OF _ True _ this] guard True show ?thesis by (auto split: if_splits)
  next
    case False
    let ?e = "(token_key t, k OR push_bit 11 31 :: u16, of_nat (length blob) :: u16)"
    let ?blob = "blob @ of_nat (length t) # t"
    have lb: "length blob \<le> 65535" using guard False by (auto split: if_splits)
    then have "unat (of_nat (length blob) :: u16) = length blob" by (simp add: unat_of_nat)
    then have "entry_ok ?blob (t, k) ?e"
      using guard False by (auto simp: entry_ok_def tag_of_def nth_append split: if_splits)
    moreover have "list_all2 (entry_ok ?blob) us es"
      using "2.prems"(2) by (rule list_all2_mono) (rule entry_ok_append)
    ultimately have "list_all2 (entry_ok ?blob) (us @ [(t, k)]) (es @ [?e])"
      by (intro list_all2_appendI) auto
    from "2.IH"(2) [OF _ False _ _ this] guard False lb show ?thesis by (auto split: if_splits)
  qed
qed simp

definition slot_holds :: "slots \<Rightarrow> nat \<Rightarrow> entry \<Rightarrow> bool" where
  "slot_holds S p e \<longleftrightarrow>
     (case (S, e) of ((keys, meta, off), (x, m, o')) \<Rightarrow> keys ! p = x \<and> meta ! p = m \<and> off ! p = o')"

text \<open>A slot matches a key exactly when it holds that key's own entry.\<close>

lemma slot_match_entry:
  assumes holds: "slot_holds (tok_keys T, tok_meta T, tok_off T) p e"
    and ok: "entry_ok (tok_blob T) (t, k) e"
    and t: "t \<noteq> []" "length t < 256" and s: "s \<noteq> []"
  shows "slot_match T s (token_key s) p = (if t = s then Some (decode_kind k) else None)"
proof -
  obtain x m o' where e: "e = (x, m, o')" by (cases e)
  have slot: "tok_keys T ! p = token_key t" "tok_meta T ! p = m" "tok_off T ! p = o'"
    using holds ok by (auto simp: slot_holds_def entry_ok_def e)
  have k: "unat k < 2 ^ 11" and m: "m = k OR push_bit 11 (tag_of t)"
    using ok by (auto simp: entry_ok_def e)
  have tg: "unat (tag_of t) < 32" using t by (auto simp: unat_tag_of)
  note fields = meta_fields [OF k tg, folded m]
  have pos: "1 \<le> length t" "1 \<le> length s" using t(1) s by (simp_all add: Suc_le_eq)
  show ?thesis
  proof (cases "length s \<le> 4")
    case True
    have tag: "unat (tag_of t) = length s - 1 \<longleftrightarrow> length t = length s"
    proof (cases "length t \<le> 4")
      case short: True
      then show ?thesis using unat_tag_of [OF t(1)] pos by (simp add: eq_diff_iff)
    next
      case False
      then show ?thesis using unat_tag_of [OF t(1)] True by simp
    qed
    have key: "token_key t = token_key s \<longleftrightarrow> t = s" if "length t = length s"
      using that True le_word_inject [of t s] by (auto simp: token_key_def)
    show ?thesis
      using True tag key by (cases "t = s") (auto simp: slot_match_def Let_def slot fields)
  next
    case False
    have tag31: "tag_of t = 31 \<longleftrightarrow> length t > 4"
      using unat_tag_of [OF t(1)] by (auto simp: word_unat_eq_iff split: if_splits)
    have long: "unat (tok_blob T ! unat o') = length t \<and>
        take (length t) (drop (unat o' + 1) (tok_blob T)) = t" if "length t > 4"
      using ok t(2) that by (auto simp: entry_ok_def e unat_of_nat)
    show ?thesis
    proof (cases "length t > 4")
      case True
      have "(unat (tok_blob T ! unat o') = length s \<and>
          take (length s) (drop (unat o' + 1) (tok_blob T)) = s) \<longleftrightarrow> t = s"
        using long [OF True] by metis
      then show ?thesis
        using False True tag31 by (cases "t = s") (auto simp: slot_match_def Let_def slot fields)
    next
      case short: False
      then have "t \<noteq> s" using False by auto
      then show ?thesis using False short tag31 by (simp add: slot_match_def Let_def slot fields)
    qed
  qed
qed

section \<open>Linear probing\<close>

definition home :: "nat \<Rightarrow> u32 \<Rightarrow> u32 \<Rightarrow> nat" where
  "home k mul x = unat (drop_bit (32 - k) (x * mul))"

lemma home_less: "k \<le> 32 \<Longrightarrow> home k mul x < 2 ^ k"
proof -
  assume k: "k \<le> 32"
  have "unat (drop_bit (32 - k) w) < 2 ^ k" for w :: u32
  proof -
    have "unat (drop_bit (32 - k) w) = unat w div 2 ^ (32 - k)"
      unfolding unat_drop_bit_eq unfolding drop_bit_eq_div ..
    moreover have "unat w < 2 ^ k * 2 ^ (32 - k)"
      using k unsigned_less [of w] by (simp flip: power_add)
    ultimately show ?thesis by (simp add: less_mult_imp_div_less)
  qed
  then show ?thesis by (simp add: home_def)
qed

lemma next_slot: "(h + 1) AND (2 ^ k - 1) = (h + 1) mod (2 ^ k :: nat)"
  by (metis mask_eq_exp_minus_1 take_bit_eq_mask take_bit_eq_mod)

text \<open>
  The table invariant: every entry sits at some displacement from its home with no empty slot
  before it, and every occupied slot is an entry.
\<close>

definition placed :: "nat \<Rightarrow> u32 \<Rightarrow> slots \<Rightarrow> entry \<Rightarrow> bool" where
  "placed k mul S e \<longleftrightarrow>
     fst e \<noteq> 0 \<and>
     (\<exists>d. slot_holds S ((home k mul (fst e) + d) mod 2 ^ k) e \<and>
          (\<forall>j < d. fst S ! ((home k mul (fst e) + j) mod 2 ^ k) \<noteq> 0))"

definition table_inv :: "nat \<Rightarrow> u32 \<Rightarrow> entry list \<Rightarrow> slots \<Rightarrow> bool" where
  "table_inv k mul es S \<longleftrightarrow>
     length (fst S) = 2 ^ k \<and> length (fst (snd S)) = 2 ^ k \<and> length (snd (snd S)) = 2 ^ k \<and>
     (\<forall>e \<in> set es. placed k mul S e) \<and>
     (\<forall>p < 2 ^ k. fst S ! p \<noteq> 0 \<longrightarrow> (\<exists>e \<in> set es. slot_holds S p e)) \<and>
     length (filter (\<lambda>x. x \<noteq> 0) (fst S)) \<le> length es"

lemma insert_slot_step:
  "insert_slot keys (2 ^ k) h disp =
     (if keys ! h = 0 then Some h
      else if disp + 1 > 8 then None
      else insert_slot keys (2 ^ k) ((h + 1) mod 2 ^ k) (disp + 1))"
  by (subst insert_slot.simps) (simp only: next_slot)

lemma mod_shift: "((h + 1) mod m + j) mod m = (h + Suc j) mod (m :: nat)"
  by (simp add: mod_add_left_eq)

lemma insert_slot_spec:
  assumes "insert_slot keys (2 ^ k) h disp = Some p" and "h < 2 ^ k"
  shows "\<exists>d. p = (h + d) mod 2 ^ k \<and> keys ! p = 0 \<and> (\<forall>j < d. keys ! ((h + j) mod 2 ^ k) \<noteq> 0)"
  using assms
proof (induction "9 - disp" arbitrary: h disp rule: less_induct)
  case less
  show ?case
  proof (cases "keys ! h = 0")
    case True
    then have "p = h" using less.prems(1) by (simp add: insert_slot_step)
    with True less.prems(2) show ?thesis by (intro exI [of _ 0]) simp
  next
    case False
    let ?h = "(h + 1) mod 2 ^ k"
    have rec: "disp < 8" "insert_slot keys (2 ^ k) ?h (disp + 1) = Some p"
      using False less.prems(1) by (auto simp: insert_slot_step [of keys k h disp] split: if_splits)
    have h: "?h < 2 ^ k" by simp
    have "9 - (disp + 1) < 9 - disp" using rec(1) by simp
    from less.hyps [OF this rec(2) h] obtain d where d: "p = (?h + d) mod 2 ^ k" "keys ! p = 0"
      "\<forall>j < d. keys ! ((?h + j) mod 2 ^ k) \<noteq> 0"
      by blast
    have free: "keys ! ((h + j) mod 2 ^ k) \<noteq> 0" if j: "j < Suc d" for j
    proof (cases j)
      case 0
      then show ?thesis using False less.prems(2) by simp
    next
      case (Suc i)
      with j have "i < d" by simp
      with d(3) have "keys ! ((?h + i) mod 2 ^ k) \<noteq> 0" by blast
      then show ?thesis unfolding Suc mod_shift .
    qed
    have "p = (h + Suc d) mod 2 ^ k" using d(1) unfolding mod_shift .
    with d(2) free show ?thesis by blast
  qed
qed

lemma filter_update_zero:
  assumes "p < length keys" and "keys ! p = 0" and "x \<noteq> (0 :: u32)"
  shows "length (filter (\<lambda>x. x \<noteq> 0) (keys[p := x])) = Suc (length (filter (\<lambda>x. x \<noteq> 0) keys))"
  using assms by (subst (1 2) id_take_nth_drop [OF assms(1)]) (simp add: upd_conv_take_nth_drop)

lemma insert_all_inv:
  assumes "insert_all k mul es S = Some S'" and "table_inv k mul us S" and "k \<le> 32"
    and "\<forall>e \<in> set es. fst e \<noteq> 0"
  shows "table_inv k mul (us @ es) S'"
  using assms
proof (induction k mul es S arbitrary: us rule: insert_all.induct)
  case (2 k mul x m o' es keys meta off)
  let ?S = "(keys, meta, off)"
  from "2.prems"(1) obtain p where
    p: "insert_slot keys (2 ^ k) (home k mul x) 0 = Some p" and
    rest: "insert_all k mul es (keys[p := x], meta[p := m], off[p := o']) = Some S'"
    by (auto simp: home_def split: option.splits)
  let ?S1 = "(keys[p := x], meta[p := m], off[p := o'])"
  obtain d where d: "p = (home k mul x + d) mod 2 ^ k" "keys ! p = 0"
    "\<forall>j < d. keys ! ((home k mul x + j) mod 2 ^ k) \<noteq> 0"
    using insert_slot_spec [OF p home_less] "2.prems"(3) by blast
  note inv = "2.prems"(2) [unfolded table_inv_def, simplified]
  have x: "x \<noteq> 0" and pl: "p < 2 ^ k" using "2.prems"(4) d(1) by auto
  have keep: "slot_holds ?S1 q e \<and> q \<noteq> p" if "slot_holds ?S q e" "fst e \<noteq> 0" for q e
    using that d(2) by (cases "q = p") (auto simp: slot_holds_def split: prod.splits)
  have busy: "keys[p := x] ! q \<noteq> 0" if "keys ! q \<noteq> 0" for q
    using that x d(2) by (cases "q = p") auto
  have old: "placed k mul ?S1 e" if e: "placed k mul ?S e" for e
  proof -
    obtain d' where "slot_holds ?S ((home k mul (fst e) + d') mod 2 ^ k) e" "fst e \<noteq> 0"
      "\<forall>j < d'. keys ! ((home k mul (fst e) + j) mod 2 ^ k) \<noteq> 0"
      using e by (auto simp: placed_def)
    then show ?thesis using keep busy unfolding placed_def fst_conv by blast
  qed
  have new: "placed k mul ?S1 (x, m, o')"
    unfolding placed_def using x d pl inv busy
    by (auto simp: slot_holds_def intro!: exI [of _ d])
  have occ: "\<exists>e \<in> set (us @ [(x, m, o')]). slot_holds ?S1 q e"
    if q: "q < 2 ^ k" "keys[p := x] ! q \<noteq> 0" for q
  proof (cases "q = p")
    case True
    then show ?thesis using pl inv by (auto simp: slot_holds_def)
  next
    case False
    then obtain e where "e \<in> set us" "slot_holds ?S q e" using q inv by auto
    then show ?thesis using False by (auto simp: slot_holds_def split: prod.splits intro!: bexI [of _ e])
  qed
  have "table_inv k mul (us @ [(x, m, o')]) ?S1"
    using inv old new occ filter_update_zero [of p keys x] pl d(2) x
    by (auto simp: table_inv_def)
  from "2.IH" [OF p [unfolded home_def] rest this "2.prems"(3)] "2.prems"(4) show ?case by simp
qed simp

lemma table_inv_empty: "table_inv k mul [] (replicate (2 ^ k) 0, replicate (2 ^ k) 0, replicate (2 ^ k) 0)"
  by (simp add: table_inv_def)

lemma try_muls_inv:
  assumes "try_muls n k mul es = Some (mul', S)" and "k \<le> 32" and "\<forall>e \<in> set es. fst e \<noteq> 0"
  shows "table_inv k mul' es S"
  using assms(1)
proof (induction n arbitrary: mul)
  case (Suc n)
  then show ?case
    using insert_all_inv [OF _ table_inv_empty assms(2,3)] by (auto split: option.splits)
qed simp

lemma build_table_inv:
  assumes "build_table n k es = Some (k', mul, S)" and "\<forall>e \<in> set es. fst e \<noteq> 0"
  shows "k \<le> k' \<and> k' \<le> 32 \<and> table_inv k' mul es S"
  using assms(1)
proof (induction n arbitrary: k)
  case (Suc n)
  then show ?case
    using try_muls_inv [of 256 k _ es, OF _ _ assms(2)]
    by (fastforce simp del: try_muls.simps split: option.splits if_splits)
qed simp

lemma bit_len_exceeds: "n < 2 ^ bit_len n"
proof (induction n rule: less_induct)
  case (less n)
  show ?case
  proof (cases "n = 0")
    case False
    then have "n div 2 < 2 ^ bit_len (n div 2)" by (intro less) simp
    then show ?thesis using False by (subst bit_len.simps) simp
  qed (simp add: bit_len.simps)
qed

lemma empty_slot:
  assumes "length (filter (\<lambda>x. x \<noteq> 0) keys) < length keys"
  shows "\<exists>p < length keys. keys ! p = (0 :: u32)"
proof (rule ccontr)
  assume "\<not> ?thesis"
  then have "filter (\<lambda>x. x \<noteq> 0) keys = keys" by (auto simp: filter_id_conv in_set_conv_nth)
  with assms show False by simp
qed

section \<open>Lookup\<close>

definition layout_ok :: "nat \<Rightarrow> entry list \<Rightarrow> (str \<times> u16) list \<Rightarrow> token_tables \<Rightarrow> bool" where
  "layout_ok k es vs T \<longleftrightarrow>
     k \<le> 32 \<and> length es < 2 ^ k \<and> tok_shift T = 32 - k \<and> tok_mask T = 2 ^ k - 1 \<and>
     table_inv k (tok_mul T) es (tok_keys T, tok_meta T, tok_off T) \<and>
     list_all2 (entry_ok (tok_blob T)) vs es \<and> distinct (map fst vs) \<and>
     (\<forall>v \<in> set vs. fst v \<noteq> [] \<and> length (fst v) \<le> max_token_len T) \<and> max_token_len T < 256"

text \<open>A probe that meets an empty slot within its budget stops at the first empty or matching one.\<close>

lemma probe_stops:
  assumes "tok_mask T = 2 ^ k - 1" and "h < 2 ^ k"
    and "\<exists>i < n. tok_keys T ! ((h + i) mod 2 ^ k) = 0"
  shows "\<exists>d. (\<forall>j < d. tok_keys T ! ((h + j) mod 2 ^ k) \<noteq> 0 \<and>
                      slot_match T s x ((h + j) mod 2 ^ k) = None) \<and>
             (let q = (h + d) mod 2 ^ k in
              if tok_keys T ! q = 0 then probe T s x n h = Some None
              else slot_match T s x q \<noteq> None \<and> probe T s x n h = Some (slot_match T s x q))"
    (is "\<exists>d. ?before h d \<and> ?at n h d")
  using assms(2,3)
proof (induction n arbitrary: h)
  case (Suc n)
  let ?h = "(h + 1) mod 2 ^ k"
  have step: "probe T s x (Suc n) h =
      (if tok_keys T ! h = 0 then Some None
       else case slot_match T s x h of Some kd \<Rightarrow> Some (Some kd) | None \<Rightarrow> probe T s x n ?h)"
    using next_slot [of h k] by (simp only: probe.simps assms(1))
  show ?case
  proof (cases "tok_keys T ! h = 0 \<or> slot_match T s x h \<noteq> None")
    case True
    then show ?thesis using Suc.prems(1) step by (intro exI [of _ 0]) (auto simp: Let_def)
  next
    case False
    obtain i where i: "i < Suc n" "tok_keys T ! ((h + i) mod 2 ^ k) = 0" using Suc.prems(2) by blast
    then have "i \<noteq> 0" using False Suc.prems(1) by (metis add.right_neutral mod_less)
    then obtain i' where i': "i = Suc i'" by (cases i) auto
    have "\<exists>i < n. tok_keys T ! ((?h + i) mod 2 ^ k) = 0"
      using i unfolding i' mod_shift by auto
    with Suc.IH [of ?h] obtain d where d: "?before ?h d" "?at n ?h d" by auto
    have "?before h (Suc d)"
    proof (intro allI impI)
      fix j assume "j < Suc d"
      then show "tok_keys T ! ((h + j) mod 2 ^ k) \<noteq> 0 \<and> slot_match T s x ((h + j) mod 2 ^ k) = None"
        using d(1) False Suc.prems(1) unfolding mod_shift by (cases j) auto
    qed
    moreover have "probe T s x (Suc n) h = probe T s x n ?h"
      unfolding step using False by (auto split: option.splits)
    then have "?at (Suc n) h (Suc d)" using d(2) unfolding mod_shift by (simp only:)
    ultimately show ?thesis by blast
  qed
qed simp

lemma list_all2_setD1: "list_all2 P xs ys \<Longrightarrow> x \<in> set xs \<Longrightarrow> \<exists>y \<in> set ys. P x y"
  by (induction rule: list_all2_induct) auto

lemma list_all2_setD2: "list_all2 P xs ys \<Longrightarrow> y \<in> set ys \<Longrightarrow> \<exists>x \<in> set xs. P x y"
  by (induction rule: list_all2_induct) auto

lemma layout_slot:
  assumes "layout_ok k es vs T" and "q < 2 ^ k" and "tok_keys T ! q \<noteq> 0" and "s \<noteq> []"
  shows "\<exists>t kd. (t, kd) \<in> set vs \<and>
           slot_match T s (token_key s) q = (if t = s then Some (decode_kind kd) else None)"
proof -
  let ?S = "(tok_keys T, tok_meta T, tok_off T)"
  from assms obtain e where e: "e \<in> set es" "slot_holds ?S q e"
    by (auto simp: layout_ok_def table_inv_def)
  then obtain t kd where v: "(t, kd) \<in> set vs" "entry_ok (tok_blob T) (t, kd) e"
    using assms(1) by (auto simp: layout_ok_def dest: list_all2_setD2)
  then have "t \<noteq> []" "length t < 256" using assms(1) by (auto simp: layout_ok_def)
  with slot_match_entry [OF e(2) v(2)] v(1) assms(4) show ?thesis by blast
qed

lemma layout_placed:
  assumes "layout_ok k es vs T" and "(s, kd) \<in> set vs"
  shows "\<exists>d. let q = (home k (tok_mul T) (token_key s) + d) mod 2 ^ k in
             tok_keys T ! q \<noteq> 0 \<and> slot_match T s (token_key s) q \<noteq> None \<and>
             (\<forall>j < d. tok_keys T ! ((home k (tok_mul T) (token_key s) + j) mod 2 ^ k) \<noteq> 0)"
proof -
  let ?S = "(tok_keys T, tok_meta T, tok_off T)"
  from assms obtain e where e: "e \<in> set es" "entry_ok (tok_blob T) (s, kd) e"
    unfolding layout_ok_def by (meson list_all2_setD1)
  then have x: "fst e = token_key s" by (auto simp: entry_ok_def split: prod.splits)
  from e(1) assms(1) have "placed k (tok_mul T) ?S e" by (auto simp: layout_ok_def table_inv_def)
  then obtain d where d: "fst e \<noteq> 0" "slot_holds ?S ((home k (tok_mul T) (token_key s) + d) mod 2 ^ k) e"
    "\<forall>j < d. tok_keys T ! ((home k (tok_mul T) (token_key s) + j) mod 2 ^ k) \<noteq> 0"
    unfolding placed_def x fst_conv by blast
  have "s \<noteq> []" "length s < 256" using assms by (auto simp: layout_ok_def)
  from slot_match_entry [OF d(2) e(2) this this(1)] d x show ?thesis
    by (intro exI [of _ d]) (auto simp: Let_def slot_holds_def split: prod.splits)
qed

lemma lookup_bytes_spec:
  assumes lay: "layout_ok k es vs T"
  shows "lookup_bytes T s = Some (map_option decode_kind (map_of vs s))"
proof (cases "s = [] \<or> length s > max_token_len T")
  case True
  then have "s \<notin> fst ` set vs" using lay by (fastforce simp: layout_ok_def)
  then have "map_of vs s = None" by (simp add: map_of_eq_None_iff)
  with True show ?thesis by (auto simp: lookup_bytes_def)
next
  case False
  let ?h = "home k (tok_mul T) (token_key s)"
  have T: "tok_mask T = 2 ^ k - 1" "tok_shift T = 32 - k" "k \<le> 32" "distinct (map fst vs)"
    "length (tok_keys T) = 2 ^ k"
    using lay by (auto simp: layout_ok_def table_inv_def)
  have h: "?h < 2 ^ k" using T(3) by (rule home_less)
  have eq: "lookup_bytes T s = probe T s (token_key s) (2 ^ k) ?h"
    using False by (auto simp: lookup_bytes_def home_def Let_def T)
  obtain p where p: "p < 2 ^ k" "tok_keys T ! p = 0"
    using empty_slot [of "tok_keys T"] lay T(5) by (auto simp: layout_ok_def table_inv_def)
  have "(?h + (p + 2 ^ k - ?h) mod 2 ^ k) mod 2 ^ k = p"
    using h p(1) by (simp add: mod_add_right_eq)
  then have "\<exists>i < 2 ^ k. tok_keys T ! ((?h + i) mod 2 ^ k) = 0"
    using p(2) by (intro exI [of _ "(p + 2 ^ k - ?h) mod 2 ^ k"]) simp
  from probe_stops [OF T(1) h this, of s "token_key s"] obtain d where
    before: "\<And>j. j < d \<Longrightarrow> slot_match T s (token_key s) ((?h + j) mod 2 ^ k) = None" and
    at: "let q = (?h + d) mod 2 ^ k in
         if tok_keys T ! q = 0 then lookup_bytes T s = Some None
         else slot_match T s (token_key s) q \<noteq> None \<and>
              lookup_bytes T s = Some (slot_match T s (token_key s) q)"
    unfolding eq by blast
  show ?thesis
  proof (cases "tok_keys T ! ((?h + d) mod 2 ^ k) = 0")
    case True
    have "map_of vs s = None"
    proof (rule ccontr)
      assume "map_of vs s \<noteq> None"
      then obtain kd where "(s, kd) \<in> set vs" by (auto dest: map_of_SomeD)
      from layout_placed [OF lay this] obtain d' where
        "tok_keys T ! ((?h + d') mod 2 ^ k) \<noteq> 0"
        "slot_match T s (token_key s) ((?h + d') mod 2 ^ k) \<noteq> None"
        "\<And>j. j < d' \<Longrightarrow> tok_keys T ! ((?h + j) mod 2 ^ k) \<noteq> 0"
        by (auto simp: Let_def)
      with before True show False by (metis linorder_neqE_nat)
    qed
    with True at show ?thesis by (simp add: Let_def)
  next
    case occupied: False
    obtain t kd where "(t, kd) \<in> set vs"
      "slot_match T s (token_key s) ((?h + d) mod 2 ^ k) = (if t = s then Some (decode_kind kd) else None)"
      using layout_slot [OF lay _ occupied, of s] False by fastforce
    with at occupied T(4) show ?thesis by (auto simp: Let_def split: if_splits)
  qed
qed

section \<open>What the build script collects\<close>

fun dict_pairs :: "(nat \<Rightarrow> u16 option) \<Rightarrow> nat \<Rightarrow> str list \<Rightarrow> (str \<times> u16) set" where
  "dict_pairs mk i [] = {}"
| "dict_pairs mk i (t # ts) =
     (if t = [] then {} else {(t, kd) | kd. mk i = Some kd}) \<union> dict_pairs mk (Suc i) ts"

lemma dict_pairs_iff:
  "(t, kd) \<in> dict_pairs mk i ts \<longleftrightarrow> t \<noteq> [] \<and> (\<exists>j < length ts. ts ! j = t \<and> mk (i + j) = Some kd)"
  by (induction mk i ts rule: dict_pairs.induct) (auto simp: Ex_less_Suc2)

lemma gather_spec:
  assumes "gather mk i ts vs = Some vs'" and "distinct (map fst vs)" and "[] \<notin> fst ` set vs"
  shows "set vs' = set vs \<union> dict_pairs mk i ts \<and> distinct (map fst vs') \<and> [] \<notin> fst ` set vs'"
  using assms
proof (induction mk i ts vs rule: gather.induct)
  case (2 mk i t ts vs)
  show ?case
  proof (cases "t = []")
    case True
    then have "gather mk (Suc i) ts vs = Some vs'" using "2.prems"(1) by simp
    from "2.IH"(1) [OF True this "2.prems"(2,3)]
    show ?thesis unfolding dict_pairs.simps if_P [OF True] Un_empty_left .
  next
    case False
    with "2.prems"(1) obtain kd where kd: "mk i = Some kd" "t \<notin> fst ` set vs"
      "gather mk (Suc i) ts (vs @ [(t, kd)]) = Some vs'"
      by (auto split: option.splits if_splits)
    have "distinct (map fst (vs @ [(t, kd)]))" "[] \<notin> fst ` set (vs @ [(t, kd)])"
      using "2.prems"(2,3) kd(2) False by auto
    from "2.IH"(2) [OF False kd this] False kd(1) show ?thesis by auto
  qed
qed simp

lemma gather_dicts_spec:
  assumes "gather_dicts d ds vs = Some vs'" and "distinct (map fst vs)" and "[] \<notin> fst ` set vs"
  shows "set vs' = set vs \<union> (\<Union>j < length ds. dict_pairs (double_kind (d + j)) 0 (ds ! j)) \<and>
         distinct (map fst vs') \<and> [] \<notin> fst ` set vs'"
  using assms
proof (induction d ds vs rule: gather_dicts.induct)
  case (2 d dict ds vs)
  from "2.prems"(1) obtain vs1 where 1: "gather (double_kind d) 0 dict vs = Some vs1"
    "gather_dicts (Suc d) ds vs1 = Some vs'" by (auto split: option.splits)
  note g = gather_spec [OF 1(1) "2.prems"(2,3)]
  have *: "(\<Union>j < length (dict # ds). dict_pairs (double_kind (d + j)) 0 ((dict # ds) ! j)) =
      dict_pairs (double_kind d) 0 dict \<union>
      (\<Union>j < length ds. dict_pairs (double_kind (Suc d + j)) 0 (ds ! j))"
    by (simp add: lessThan_Suc_eq_insert_0 del: dict_pairs.simps)
  from "2.IH" [OF 1] g show ?case unfolding * by blast
qed simp

lemma ucast_unat_eq: "unat w = n \<Longrightarrow> ucast w = of_nat n"
  by (metis of_nat_unat)

lemma decode_single: "single_kind j = Some kd \<Longrightarrow> decode_kind kd = Single (of_nat j) \<and> j < 256"
proof -
  assume "single_kind j = Some kd"
  then have j: "j < 256" and kd: "kd = of_nat j" by (auto simp: single_kind_def split: if_splits)
  have "unat kd = j" using j by (simp add: kd unat_of_nat)
  then have "kd < 256" using j by (simp add: word_less_nat_alt)
  moreover have "ucast kd = (of_nat j :: u8)" using \<open>unat kd = j\<close> by (rule ucast_unat_eq)
  ultimately show ?thesis using j by (simp add: decode_kind_def)
qed

lemma decode_double:
  "double_kind d i = Some kd \<Longrightarrow> decode_kind kd = Double (of_nat d) (of_nat i) \<and> d < 255 \<and> i < 256"
proof -
  assume "double_kind d i = Some kd"
  then have i: "i < 256" "d < 255" and kd: "kd = of_nat ((d + 1) * 256 + i)"
    by (auto simp: double_kind_def split: if_splits)
  have "(d + 1) * 256 + i < 2 ^ 16" using i by simp
  then have u: "unat kd = (d + 1) * 256 + i" unfolding kd unat_of_nat by simp
  then have big: "\<not> kd < 256" by (simp add: word_less_nat_alt)
  have "unat (drop_bit 8 kd) = d + 1"
    unfolding unat_drop_bit_eq u unfolding drop_bit_eq_div using i(1) by simp
  then have hi: "ucast (drop_bit 8 kd) = (of_nat (d + 1) :: u8)"
    by (rule ucast_unat_eq)
  have "(of_nat ((d + 1) * 256 + i) :: u8) = of_nat i"
    unfolding word_of_nat_eq_iff take_bit_eq_mod using mod_mult_self3 [of "d + 1" 256 i] by simp
  with ucast_unat_eq [OF u] have lo: "ucast kd = (of_nat i :: u8)" by (rule trans)
  show ?thesis unfolding decode_kind_def hi lo using big i by simp
qed

text \<open>A list the script accepts has a kind for every entry that is not empty.\<close>

lemma gather_kinds:
  "gather mk i ts vs = Some vs' \<Longrightarrow> j < length ts \<Longrightarrow> ts ! j \<noteq> [] \<Longrightarrow> \<exists>kd. mk (i + j) = Some kd"
proof (induction mk i ts vs arbitrary: j rule: gather.induct)
  case (2 mk i t ts vs)
  then show ?case by (cases j) (auto split: option.splits if_splits)
qed simp

lemma gather_dicts_kinds:
  "gather_dicts d ds vs = Some vs' \<Longrightarrow> j < length ds \<Longrightarrow> i < length (ds ! j) \<Longrightarrow> ds ! j ! i \<noteq> [] \<Longrightarrow>
   \<exists>kd. double_kind (d + j) i = Some kd"
proof (induction d ds vs arbitrary: j rule: gather_dicts.induct)
  case (2 d dict ds vs)
  then show ?case by (cases j) (auto split: option.splits dest: gather_kinds)
qed simp

lemma token_values_spec:
  assumes "token_values tj = Some vs"
  shows "set vs = dict_pairs single_kind 0 (single_byte tj) \<union>
           (\<Union>d < length (double_byte tj). dict_pairs (double_kind d) 0 (double_byte tj ! d))"
    and "distinct (map fst vs)" and "[] \<notin> fst ` set vs"
proof -
  from assms obtain vs1 where 1: "gather single_kind 0 (single_byte tj) [] = Some vs1"
    "gather_dicts 0 (double_byte tj) vs1 = Some vs"
    by (auto simp: token_values_def split: option.splits)
  from gather_spec [OF 1(1)] have *: "set vs1 = dict_pairs single_kind 0 (single_byte tj)"
    "distinct (map fst vs1)" "[] \<notin> fst ` set vs1" by auto
  from gather_dicts_spec [OF 1(2) *(2,3)] *(1)
  show "set vs = dict_pairs single_kind 0 (single_byte tj) \<union>
           (\<Union>d < length (double_byte tj). dict_pairs (double_kind d) 0 (double_byte tj ! d))"
    and "distinct (map fst vs)" and "[] \<notin> fst ` set vs" by auto
qed

lemma token_values_single:
  assumes "token_values tj = Some vs" and "s \<noteq> []"
  shows "(\<exists>kd. (s, kd) \<in> set vs \<and> decode_kind kd = Single i) \<longleftrightarrow>
         unat i < length (single_byte tj) \<and> single_byte tj ! unat i = s"
proof
  assume "\<exists>kd. (s, kd) \<in> set vs \<and> decode_kind kd = Single i"
  then obtain j where "j < length (single_byte tj)" "single_byte tj ! j = s" "j < 256" "i = of_nat j"
    unfolding token_values_spec(1) [OF assms(1)]
    by (auto simp: dict_pairs_iff dest!: decode_single decode_double)
  then show "unat i < length (single_byte tj) \<and> single_byte tj ! unat i = s" by (simp add: unat_of_nat)
next
  assume i: "unat i < length (single_byte tj) \<and> single_byte tj ! unat i = s"
  have "single_kind (unat i) = Some (of_nat (unat i))"
    using unat_u8_less [of i] by (simp add: single_kind_def)
  moreover from this have "decode_kind (of_nat (unat i)) = Single i"
    using decode_single [of "unat i"] by simp
  ultimately show "\<exists>kd. (s, kd) \<in> set vs \<and> decode_kind kd = Single i"
    unfolding token_values_spec(1) [OF assms(1)] using i assms(2)
    by (intro exI [of _ "of_nat (unat i)"]) (auto simp: dict_pairs_iff)
qed

lemma token_values_double:
  assumes "token_values tj = Some vs" and "s \<noteq> []"
  shows "(\<exists>kd. (s, kd) \<in> set vs \<and> decode_kind kd = Double d i) \<longleftrightarrow>
         unat d < length (double_byte tj) \<and> unat i < length (double_byte tj ! unat d) \<and>
         double_byte tj ! unat d ! unat i = s"
proof
  assume "\<exists>kd. (s, kd) \<in> set vs \<and> decode_kind kd = Double d i"
  then obtain c j where "c < length (double_byte tj)" "j < length (double_byte tj ! c)"
    "double_byte tj ! c ! j = s" "c < 255" "j < 256" "d = of_nat c" "i = of_nat j"
    unfolding token_values_spec(1) [OF assms(1)]
    by (auto simp: dict_pairs_iff dest!: decode_single decode_double)
  then show "unat d < length (double_byte tj) \<and> unat i < length (double_byte tj ! unat d) \<and>
      double_byte tj ! unat d ! unat i = s" by (simp add: unat_of_nat)
next
  assume i: "unat d < length (double_byte tj) \<and> unat i < length (double_byte tj ! unat d) \<and>
      double_byte tj ! unat d ! unat i = s"
  obtain kd where kd: "double_kind (unat d) (unat i) = Some kd"
    using assms i gather_dicts_kinds [of 0 "double_byte tj" _ vs "unat d" "unat i"]
    by (auto simp: token_values_def split: option.splits)
  moreover from this have "decode_kind kd = Double d i" using decode_double by fastforce
  ultimately show "\<exists>kd. (s, kd) \<in> set vs \<and> decode_kind kd = Double d i"
    unfolding token_values_spec(1) [OF assms(1)] using i assms(2)
    by (intro exI [of _ kd]) (auto simp: dict_pairs_iff)
qed

section \<open>The dictionary the build produces\<close>

lemma length_le_foldr_max: "v \<in> set vs \<Longrightarrow> length (fst v) \<le> foldr max (map (length \<circ> fst) vs) 0"
  by (induction vs) auto

lemma build_tokens_layout:
  assumes "build_tokens fuel tj = Some T"
  shows "\<exists>k es vs. token_values tj = Some vs \<and> layout_ok k es vs T \<and>
           single_byte_tokens T = single_byte tj \<and> double_byte_tokens T = double_byte tj"
proof -
  from assms obtain vs es blob k mul keys meta off where
    vs: "token_values tj = Some vs" and es: "make_entries vs [] [] = Some (es, blob)" and
    tab: "build_table fuel (bit_len (length es * 4 div 3)) es = Some (k, mul, (keys, meta, off))" and
    len: "foldr max (map (length \<circ> fst) vs) 0 < 256" and
    T: "T = \<lparr>max_token_len = foldr max (map (length \<circ> fst) vs) 0, tok_mul = mul, tok_shift = 32 - k,
             tok_mask = 2 ^ k - 1, tok_keys = keys, tok_meta = meta, tok_off = off, tok_blob = blob,
             single_byte_tokens = single_byte tj, double_byte_tokens = double_byte tj\<rparr>"
    by (auto simp: build_tokens_def Let_def not_le split: option.splits if_splits prod.splits)
  have ok: "list_all2 (entry_ok blob) vs es" using make_entries_ok [OF es, of "[]"] by simp
  then have "\<forall>e \<in> set es. fst e \<noteq> 0"
    by (fastforce simp: entry_ok_def dest: list_all2_setD2)
  from build_table_inv [OF tab this] have inv: "bit_len (length es * 4 div 3) \<le> k" "k \<le> 32"
    "table_inv k mul es (keys, meta, off)" by auto
  have "length es \<le> length es * 4 div 3" by simp
  also have "\<dots> < 2 ^ bit_len (length es * 4 div 3)" by (rule bit_len_exceeds)
  also have "\<dots> \<le> 2 ^ k" using inv(1) by simp
  finally have sz: "length es < 2 ^ k" .
  have "\<forall>v \<in> set vs. fst v \<noteq> [] \<and> length (fst v) \<le> foldr max (map (length \<circ> fst) vs) 0"
    using token_values_spec(3) [OF vs] length_le_foldr_max by (metis image_eqI)
  then have "layout_ok k es vs T"
    using sz inv ok len token_values_spec(2) [OF vs] by (simp add: layout_ok_def T)
  with vs show ?thesis by (auto simp: T)
qed

lemma build_tokens_index:
  assumes "build_tokens fuel tj = Some T"
  shows "\<exists>vs. token_values tj = Some vs \<and> lookup_bytes T s = Some (map_option decode_kind (map_of vs s))"
  using build_tokens_layout [OF assms] lookup_bytes_spec by blast

lemma index_of_token_iff:
  assumes "build_tokens fuel tj = Some T"
  shows "\<exists>vs. token_values tj = Some vs \<and>
           (\<forall>s kind. index_of_token T s = Some kind \<longleftrightarrow> (\<exists>kd. (s, kd) \<in> set vs \<and> decode_kind kd = kind))"
proof -
  from build_tokens_layout [OF assms] obtain k es vs where
    vs: "token_values tj = Some vs" and lay: "layout_ok k es vs T" by blast
  then have "distinct (map fst vs)" by (simp add: layout_ok_def)
  then show ?thesis using vs
    by (auto simp: index_of_token_def lookup_bytes_spec [OF lay])
qed

text \<open>
  The tables of the wire format: the output of the build script on a list within the tag space of
  the format, whose single-byte indices stop below \<open>DICTIONARY_0\<close>, leave index 0 (\<open>LIST_EMPTY\<close>)
  empty, and whose dictionaries fit the four dictionary tags. The list in the repository does.
\<close>

definition wire_tables :: "token_tables \<Rightarrow> bool" where
  "wire_tables T \<longleftrightarrow>
     (\<exists>fuel tj. build_tokens fuel tj = Some T) \<and> length (single_byte_tokens T) \<le> 236 \<and>
     (single_byte_tokens T \<noteq> [] \<longrightarrow> hd (single_byte_tokens T) = []) \<and>
     length (double_byte_tokens T) \<le> 4"

lemma wire_index_single:
  assumes "wire_tables T"
  shows "index_of_token T s = Some (Single i) \<longleftrightarrow> s \<noteq> [] \<and> get_single_token T i = Some s"
proof -
  from assms obtain fuel tj where b: "build_tokens fuel tj = Some T" by (auto simp: wire_tables_def)
  from index_of_token_iff [OF b] obtain vs where vs: "token_values tj = Some vs"
    "\<And>kind. index_of_token T s = Some kind \<longleftrightarrow> (\<exists>kd. (s, kd) \<in> set vs \<and> decode_kind kd = kind)"
    by blast
  have eq: "single_byte_tokens T = single_byte tj" using build_tokens_layout [OF b] by blast
  show ?thesis
  proof (cases "s = []")
    case True
    then show ?thesis using vs(2) token_values_spec(3) [OF vs(1)] by force
  next
    case False
    then show ?thesis
      by (auto simp: vs(2) token_values_single [OF vs(1) False] get_single_token_def eq)
  qed
qed

lemma wire_index_double:
  assumes "wire_tables T"
  shows "index_of_token T s = Some (Double d i) \<longleftrightarrow> s \<noteq> [] \<and> get_double_token T d i = Some s"
proof -
  from assms obtain fuel tj where b: "build_tokens fuel tj = Some T" by (auto simp: wire_tables_def)
  from index_of_token_iff [OF b] obtain vs where vs: "token_values tj = Some vs"
    "\<And>kind. index_of_token T s = Some kind \<longleftrightarrow> (\<exists>kd. (s, kd) \<in> set vs \<and> decode_kind kd = kind)"
    by blast
  have eq: "double_byte_tokens T = double_byte tj" using build_tokens_layout [OF b] by blast
  show ?thesis
  proof (cases "s = []")
    case True
    then show ?thesis using vs(2) token_values_spec(3) [OF vs(1)] by force
  next
    case False
    then show ?thesis
      by (auto simp: vs(2) token_values_double [OF vs(1) False] get_double_token_def eq)
  qed
qed

lemma wire_single_range:
  assumes "wire_tables T" and "get_single_token T i = Some s" and "s \<noteq> []"
  shows "0 < i \<and> i < DICTIONARY_0"
proof -
  have "unat i < length (single_byte_tokens T)" "single_byte_tokens T ! unat i \<noteq> []"
    using assms(2,3) by (auto simp: get_single_token_def split: if_splits)
  moreover from this have "unat i \<noteq> 0"
    using assms(1) by (intro notI) (auto simp: wire_tables_def hd_conv_nth)
  ultimately show ?thesis
    using assms(1) by (auto simp: wire_tables_def word_less_nat_alt DICTIONARY_0_def)
qed

lemma wire_double_range: "wire_tables T \<Longrightarrow> get_double_token T d i = Some s \<Longrightarrow> d < 4"
  by (auto simp: wire_tables_def get_double_token_def word_less_nat_alt split: if_splits)

section \<open>The dictionary interface\<close>

text \<open>
  What the codec relies on: the index of a string is the code under which the readers find it, no
  code of a token collides with the list tag \<open>LIST_EMPTY\<close> or the dictionary tags, and there are at
  most four dictionaries.
\<close>

locale token_dict =
  fixes inv :: "'t \<Rightarrow> bool"
    and index :: "'t \<Rightarrow> str \<Rightarrow> token_kind option"
    and single :: "'t \<Rightarrow> u8 \<Rightarrow> str option"
    and double :: "'t \<Rightarrow> u8 \<Rightarrow> u8 \<Rightarrow> str option"
  assumes index_single: "inv T \<Longrightarrow> index T s = Some (Single i) \<longleftrightarrow> s \<noteq> [] \<and> single T i = Some s"
    and index_double: "inv T \<Longrightarrow> index T s = Some (Double d i) \<longleftrightarrow> s \<noteq> [] \<and> double T d i = Some s"
    and single_range: "inv T \<Longrightarrow> single T i = Some s \<Longrightarrow> s \<noteq> [] \<Longrightarrow> 0 < i \<and> i < DICTIONARY_0"
    and double_range: "inv T \<Longrightarrow> double T d i = Some s \<Longrightarrow> d < 4"
begin

lemma index_inject:
  assumes "inv T" and "index T s = Some kind" and "index T t = Some kind"
  shows "s = t"
  using assms by (cases kind) (auto simp: index_single index_double)

lemma index_Nil: "inv T \<Longrightarrow> index T [] = None"
  using index_single [of T "[]"] index_double [of T "[]"]
  by (cases "index T []") (auto, metis token_kind.exhaust)

lemma single_code_unique:
  assumes "inv T" and "single T i = Some s" and "single T j = Some s" and "s \<noteq> []"
  shows "i = j"
  using index_single [OF assms(1), of s i] index_single [OF assms(1), of s j] assms by simp

lemma double_code_unique:
  assumes "inv T" and "double T d i = Some s" and "double T e j = Some s" and "s \<noteq> []"
  shows "d = e \<and> i = j"
  using index_double [OF assms(1), of s d i] index_double [OF assms(1), of s e j] assms by simp

lemma single_not_double:
  assumes "inv T" and "single T i = Some s" and "s \<noteq> []"
  shows "double T d j \<noteq> Some s"
  using index_single [OF assms(1), of s i] index_double [OF assms(1), of s d j] assms by auto

end

interpretation dict: token_dict wire_tables index_of_token get_single_token get_double_token
proof (unfold_locales, goal_cases)
  case (1 T s i)
  then show ?case by (rule wire_index_single)
next
  case (2 T s d i)
  then show ?case by (rule wire_index_double)
next
  case (3 T i s)
  then show ?case by (rule wire_single_range)
next
  case (4 T d i s)
  then show ?case by (rule wire_double_range)
qed

section \<open>A small dictionary\<close>

text \<open>A list in the shape of \<open>tokens.json\<close>, on which the build script and the lookup are run.\<close>

definition sample_tokens :: tokens_json where
  "sample_tokens = \<lparr>single_byte = [[], lit ''xml'', lit ''type''],
     double_byte = [[lit ''read-self'']]\<rparr>"

definition sample_tables :: token_tables where
  "sample_tables =
     \<lparr>max_token_len = 9, tok_mul = 2654435761, tok_shift = 29, tok_mask = 7,
      tok_keys = [7105912, 3803492713, 0, 0, 0, 0, 0, 1701869940],
      tok_meta = [4097, 63744, 0, 0, 0, 0, 0, 6146], tok_off = [0, 0, 0, 0, 0, 0, 0, 0],
      tok_blob = [9, 114, 101, 97, 100, 45, 115, 101, 108, 102],
      single_byte_tokens = [[], lit ''xml'', lit ''type''],
      double_byte_tokens = [[lit ''read-self'']]\<rparr>"

lemma sample_values:
  "token_values sample_tokens = Some [(lit ''xml'', 1), (lit ''type'', 2), (lit ''read-self'', 256)]"
  by (simp add: token_values_def sample_tokens_def single_kind_def double_kind_def)

lemma sample_key: "token_key [114, 101, 97, 100, 45, 115, 101, 108, 102] = 3803492713"
  by code_simp

lemma insert_slot_empty: "keys ! h = 0 \<Longrightarrow> insert_slot keys sz h d = Some h"
  by (simp add: insert_slot.simps)

lemma insert_slot_next:
  "keys ! h \<noteq> 0 \<Longrightarrow> d < 8 \<Longrightarrow> insert_slot keys sz h d = insert_slot keys sz ((h + 1) AND (sz - 1)) (d + 1)"
  by (subst insert_slot.simps) simp

lemma replicate_8: "replicate 8 x = [x, x, x, x, x, x, x, x]"
  by (simp add: numeral_eq_Suc)

lemma sample_entries:
  "make_entries [(lit ''xml'', 1), (lit ''type'', 2), (lit ''read-self'', 256)] [] [] =
     Some ([(7105912, 4097, 0), (1701869940, 6146, 0), (3803492713, 63744, 0)],
       [9, 114, 101, 97, 100, 45, 115, 101, 108, 102])"
  by (simp add: sample_key) (simp add: token_key_def)

lemma sample_build: "build_tokens 1 sample_tokens = Some sample_tables"
proof -
  have len: "bit_len (length [(7105912, 4097, 0), (1701869940, 6146, 0), (3803492713, 63744, 0) :: entry] * 4 div 3) = 3"
    by (simp add: bit_len.simps)
  have ins: "insert_all 3 2654435761 [(7105912, 4097, 0), (1701869940, 6146, 0), (3803492713, 63744, 0)]
      (replicate (2 ^ 3) 0, replicate (2 ^ 3) 0, replicate (2 ^ 3) 0) =
      Some (tok_keys sample_tables, tok_meta sample_tables, tok_off sample_tables)"
    by (simp add: insert_slot_empty insert_slot_next replicate_8 sample_tables_def)
  have n: "256 = Suc 255" by simp
  have "try_muls 256 3 2654435761 [(7105912, 4097, 0), (1701869940, 6146, 0), (3803492713, 63744, 0)] =
      Some (2654435761, tok_keys sample_tables, tok_meta sample_tables, tok_off sample_tables)"
    unfolding n try_muls.simps(2) ins by (simp only: option.case)
  then have tab: "build_table (Suc 0) 3 [(7105912, 4097, 0), (1701869940, 6146, 0), (3803492713, 63744, 0)] =
      Some (3, 2654435761, tok_keys sample_tables, tok_meta sample_tables, tok_off sample_tables)"
    unfolding build_table.simps(2) by (simp only:) simp
  show ?thesis
    unfolding build_tokens_def sample_values sample_entries Let_def option.case prod.case len
    using tab by (simp add: sample_tables_def sample_tokens_def del: build_table.simps)
qed

lemma sample_wire_tables: "wire_tables sample_tables"
  unfolding wire_tables_def using sample_build by (auto simp: sample_tables_def)

section \<open>Properties\<close>

text \<open>
  C16 (functional correctness of the token lookup). Whatever list the build script accepts, the table
  it lays out answers every query, the probe loop always stops, and the answer is exactly the
  kind recorded for that token, with \<open>None\<close> for every string that is not a token.
\<close>

theorem token_lookup_exact:
  assumes "build_tokens fuel tj = Some T"
  shows "\<exists>vs. token_values tj = Some vs \<and> distinct (map fst vs) \<and>
           lookup_bytes T s = Some (map_option decode_kind (map_of vs s))"
  using build_tokens_layout [OF assms] lookup_bytes_spec token_values_spec(2) by blast

theorem token_lookup_exact_witness:
  "build_tokens 1 sample_tokens = Some sample_tables \<and>
   lookup_bytes sample_tables (lit ''type'') = Some (Some (Single 2)) \<and>
   lookup_bytes sample_tables (lit ''typo'') = Some None"
  using token_lookup_exact [OF sample_build, of "lit ''type''"]
    token_lookup_exact [OF sample_build, of "lit ''typo''"] sample_build
  by (simp add: sample_values decode_kind_def)

text \<open>
  Round trip of token codes. The code the encoder finds for a string is the code under
  which the decoder finds that string again, for single-byte and dictionary tokens alike; an
  empty table entry is never found.
\<close>

theorem token_codes_roundtrip:
  assumes "wire_tables T"
  shows "(index_of_token T s = Some (Single i) \<longleftrightarrow> s \<noteq> [] \<and> get_single_token T i = Some s) \<and>
         (index_of_token T s = Some (Double d i) \<longleftrightarrow> s \<noteq> [] \<and> get_double_token T d i = Some s)"
  using dict.index_single [OF assms] dict.index_double [OF assms] by blast

theorem token_codes_roundtrip_witness:
  "index_of_token sample_tables (lit ''xml'') = Some (Single 1) \<and>
   index_of_token sample_tables (lit ''read-self'') = Some (Double 0 0)"
  using token_codes_roundtrip [OF sample_wire_tables, of "lit ''xml''" 1 0]
    token_codes_roundtrip [OF sample_wire_tables, of "lit ''read-self''" 0 0]
  by (simp add: sample_tables_def get_single_token_def get_double_token_def)

end
