(* ===== verification/Node.thy ===== *)
theory Node
  imports Jid Tokens
begin

text \<open>
  The node tree of the binary protocol (\<open>wacore/binary/src/node.rs\<close>) and its errors
  (\<open>wacore/binary/src/error.rs\<close>). An owned \<open>Node\<close> and the \<open>NodeRef\<close> borrowed from a decoded
  buffer differ in who owns the bytes, which a value of HOL does not show: both are the type
  \<open>node\<close>, and \<open>NodeStr\<close>, \<open>CompactString\<close> and \<open>Cow\<close> are all \<open>str\<close>.
\<close>

section \<open>Errors\<close>

text \<open>
  The constructors of \<open>BinaryError\<close> the codec raises, without the payloads that only describe the
  failure in words. \<open>Panicked\<close> stands for a failed \<open>expect\<close>, \<open>assert!\<close> or \<open>panic!\<close>, and
  \<open>StackExhausted\<close> for a recursion cut off by the fuel of the model; the source has neither, and
  both are proved not to occur.
\<close>

datatype binary_error =
    InvalidToken u8
  | InvalidNode
  | NonStringKey
  | AttrParse str
  | InvalidUtf8
  | Zlib
  | UnexpectedEof
  | EmptyData
  | LeftoverData nat
  | MaxDepthExceeded
  | PlanMismatch
  | UnexpectedFormatByte u8
  | Panicked
  | StackExhausted

section \<open>Trees\<close>

datatype node_value = String str | JidVal jid

datatype node = Node (tag: str) (attrs: "(str \<times> node_value) list") (content: "node_content option")
  and node_content = Bytes bytes | Text str | Nodes "node list"

text \<open>
  What the codec is linked with: the generated token tables, and the external validator
  \<open>smoothutf8::from_utf8\<close>, of which only acceptance matters.
\<close>

record wire_env =
  tables :: token_tables
  smoothutf8 :: "bytes \<Rightarrow> bool"

text \<open>The validator accepts exactly the well-formed UTF-8 strings, as its documentation says.\<close>

definition wire_env_ok :: "wire_env \<Rightarrow> bool" where
  "wire_env_ok E \<longleftrightarrow> wire_tables (tables E) \<and> (\<forall>bs. smoothutf8 E bs \<longleftrightarrow> utf8_valid bs)"

lemma wire_env_tables: "wire_env_ok E \<Longrightarrow> wire_tables (tables E)"
  by (simp add: wire_env_ok_def)

lemma wire_env_utf8: "wire_env_ok E \<Longrightarrow> smoothutf8 E bs \<longleftrightarrow> utf8_valid bs"
  by (simp add: wire_env_ok_def)

section \<open>Depth\<close>

fun node_depth :: "node \<Rightarrow> nat" and content_depth :: "node_content option \<Rightarrow> nat"
  and nodes_depth :: "node list \<Rightarrow> nat" where
  "node_depth (Node tg ats c) = Suc (content_depth c)"
| "content_depth None = 0"
| "content_depth (Some (Bytes b)) = 0"
| "content_depth (Some (Text s)) = 0"
| "content_depth (Some (Nodes ns)) = nodes_depth ns"
| "nodes_depth [] = 0"
| "nodes_depth (n # ns) = max (node_depth n) (nodes_depth ns)"

lemma nodes_depth_le: "nodes_depth ns \<le> k \<longleftrightarrow> (\<forall>n \<in> set ns. node_depth n \<le> k)"
  by (induction ns) auto

text \<open>An environment over the small dictionary, with the standard library's own validator.\<close>

definition sample_env :: wire_env where
  "sample_env = \<lparr>tables = sample_tables, smoothutf8 = utf8_valid\<rparr>"

lemma sample_env_ok: "wire_env_ok sample_env"
  by (simp add: wire_env_ok_def sample_env_def sample_wire_tables)

end
