(* ===== verification/Encoder.thy ===== *)
theory Encoder
  imports Node
begin

text \<open>
  The encoder of the binary protocol (\<open>wacore/binary/src/encoder.rs\<close>): the classification of strings,
  the size plan with its tape of string hints, and the writers that emit a node, replaying the tape
  when they are given one. A writer is a function on the encoder state (the output written so far,
  and the tape with its cursor); a panic is the error \<open>Panicked\<close>.
\<close>

section \<open>Classification of strings\<close>

definition PACK_INVALID :: u8 where "PACK_INVALID = 0xFF"

definition HEX_ENC :: "u8 \<Rightarrow> u8" where
  "HEX_ENC c =
     (if 48 \<le> c \<and> c \<le> 57 then c - 48
      else if 65 \<le> c \<and> c \<le> 70 then 10 + (c - 65)
      else if c = 0 then 15 else PACK_INVALID)"

definition NIBBLE_ENC :: "u8 \<Rightarrow> u8" where
  "NIBBLE_ENC c =
     (if 48 \<le> c \<and> c \<le> 57 then c - 48
      else if c = 45 then 10 else if c = 46 then 11
      else if c = 0 then 15 else PACK_INVALID)"

record parsed_jid_meta =
  user_end :: u8
  server_start :: u8
  meta_device :: "u8 option"
  meta_server :: "server option"

datatype string_hint =
    Empty
  | SingleToken u8
  | DoubleToken u8 u8
  | PackedNibble
  | PackedHex
  | JidHint parsed_jid_meta
  | RawBytes

definition server_to_domain_type :: "server \<Rightarrow> u8" where
  "server_to_domain_type s =
     (case s of Pn \<Rightarrow> 0 | Lid \<Rightarrow> 1 | Hosted \<Rightarrow> 128 | HostedLid \<Rightarrow> 129 | _ \<Rightarrow> 0)"

definition domain_type :: "parsed_jid_meta \<Rightarrow> u8" where
  "domain_type m = (case meta_server m of None \<Rightarrow> 0 | Some s \<Rightarrow> server_to_domain_type s)"

definition needs_interop_jid :: "server \<Rightarrow> u16 \<Rightarrow> bool" where
  "needs_interop_jid s integ \<longleftrightarrow> s = Interop \<and> integ \<noteq> 0"

definition server_supports_ad_jid :: "server \<Rightarrow> bool" where
  "server_supports_ad_jid s \<longleftrightarrow> s = Pn \<or> s = Lid \<or> s = Hosted \<or> s = HostedLid"

definition parse_u8 :: "str \<Rightarrow> u8 option" where
  "parse_u8 s = map_option of_nat (parse_uint 255 s)"

text \<open>The steps of \<open>parse_jid_meta\<close>: a numeric device, a numeric agent after an underscore, and, on the
  servers that do not render one, a numeric agent after the last dot.\<close>

definition meta_split_device :: "str \<Rightarrow> str \<times> u8 option" where
  "meta_split_device user_combined =
     (case find_byte 58 user_combined of
        None \<Rightarrow> (user_combined, None)
      | Some colon_idx \<Rightarrow>
          (case parse_u8 (drop (colon_idx + 1) user_combined) of
             Some parsed \<Rightarrow> (take colon_idx user_combined, Some parsed)
           | None \<Rightarrow> (user_combined, None)))"

definition meta_user_end :: "str \<Rightarrow> nat" where
  "meta_user_end user_agent =
     (case find_byte 95 user_agent of
        None \<Rightarrow> length user_agent
      | Some underscore_idx \<Rightarrow>
          if parse_u8 (drop (underscore_idx + 1) user_agent) \<noteq> None then underscore_idx
          else length user_agent)"

definition meta_drop_agent :: "server option \<Rightarrow> str \<Rightarrow> nat \<Rightarrow> nat" where
  "meta_drop_agent server_kind user_agent u_end =
     (if server_kind \<in> {Some Pn, Some Hosted, Some HostedLid} then
        (case rfind_byte 46 (take u_end user_agent) of
           None \<Rightarrow> u_end
         | Some dot_idx \<Rightarrow>
             if parse_u8 (drop (dot_idx + 1) (take u_end user_agent)) \<noteq> None
             then dot_idx else u_end)
      else u_end)"

definition parse_jid_meta :: "str \<Rightarrow> parsed_jid_meta option" where
  "parse_jid_meta input =
     (case find_byte 64 input of
        None \<Rightarrow> None
      | Some sep_idx \<Rightarrow>
          (let sv_start = sep_idx + 1;
               server_kind = parse_known (drop sv_start input);
               (user_agent, dev) = meta_split_device (take sep_idx input);
               u_end = meta_drop_agent server_kind user_agent (meta_user_end user_agent);
               dev =
                 (case server_kind of
                    Some s \<Rightarrow> if server_supports_ad_jid s then dev else None
                  | None \<Rightarrow> None)
           in if u_end < 256 \<and> sv_start < 256
              then Some \<lparr>user_end = of_nat u_end, server_start = of_nat sv_start,
                         meta_device = dev, meta_server = server_kind\<rparr>
              else None))"

definition split_jid_from_meta :: "str \<Rightarrow> parsed_jid_meta \<Rightarrow> str \<times> str" where
  "split_jid_from_meta input m =
     (take (unat (user_end m)) input, drop (unat (server_start m)) input)"

definition validate_nibble :: "str \<Rightarrow> bool" where
  "validate_nibble v \<longleftrightarrow>
     length v \<le> PACKED_MAX \<and> list_all (\<lambda>b. is_ascii_digit b \<or> b = 45 \<or> b = 46) v"

definition validate_hex :: "str \<Rightarrow> bool" where
  "validate_hex v \<longleftrightarrow>
     length v \<le> PACKED_MAX \<and> list_all (\<lambda>b. is_ascii_digit b \<or> 65 \<le> b \<and> b \<le> 70) v"

definition classify_string_hint :: "token_tables \<Rightarrow> str \<Rightarrow> string_hint" where
  "classify_string_hint T s =
     (if s = [] then Empty
      else case index_of_token T s of
             Some (Single token) \<Rightarrow> SingleToken token
           | Some (Double d token) \<Rightarrow> DoubleToken d token
           | None \<Rightarrow>
               (if validate_nibble s then PackedNibble
                else if validate_hex s then PackedHex
                else if length s \<le> 48 then
                  (case parse_jid_meta s of None \<Rightarrow> RawBytes | Some m \<Rightarrow> JidHint m)
                else RawBytes))"

section \<open>The size plan\<close>

text \<open>The tape while it is being recorded is the list of hints so far.\<close>

type_synonym hint_tape = "string_hint list"

text \<open>The decision \<open>record\<close> and \<open>write_string\<close> share: strings too long for any short form are raw.\<close>

definition string_hint_of :: "token_tables \<Rightarrow> str \<Rightarrow> string_hint" where
  "string_hint_of T s = (if length s > PACKED_MAX then RawBytes else classify_string_hint T s)"

definition record_hint :: "token_tables \<Rightarrow> str \<Rightarrow> hint_tape \<Rightarrow> string_hint \<times> hint_tape" where
  "record_hint T s hints = (let hint = string_hint_of T s in (hint, hints @ [hint]))"

definition list_start_encoded_size :: "nat \<Rightarrow> nat" where
  "list_start_encoded_size len = (if len = 0 then 1 else if len < 256 then 2 else 3)"

definition binary_len_prefix_size :: "nat \<Rightarrow> nat" where
  "binary_len_prefix_size len = (if len < 256 then 2 else if len < 2 ^ 20 then 4 else 5)"

definition bytes_with_len_encoded_size :: "nat \<Rightarrow> nat" where
  "bytes_with_len_encoded_size len = binary_len_prefix_size len + len"

definition packed_encoded_size :: "nat \<Rightarrow> nat" where
  "packed_encoded_size value_len = 2 + (value_len + 1) div 2"

text \<open>Sizing a parsed JID, over the sizing of the strings in it.\<close>

definition parsed_jid_encoded_size_with_cache ::
  "(str \<Rightarrow> hint_tape \<Rightarrow> nat \<times> hint_tape) \<Rightarrow> str \<Rightarrow> parsed_jid_meta \<Rightarrow> hint_tape \<Rightarrow> nat \<times> hint_tape" where
  "parsed_jid_encoded_size_with_cache size_string jid m hints =
     (let (u, raw_server) = split_jid_from_meta jid m;
          sv = (case meta_server m of None \<Rightarrow> raw_server | Some s \<Rightarrow> server_as_str s)
      in if meta_device m \<noteq> None then
           (let (n, hints) = size_string u hints in (3 + n, hints))
         else
           (let (user_size, hints) = (if u = [] then (1, hints) else size_string u hints);
                (n, hints) = size_string sv hints
            in (1 + user_size + n, hints)))"

definition string_encoded_size_from_hint_with_cache ::
  "(str \<Rightarrow> hint_tape \<Rightarrow> nat \<times> hint_tape) \<Rightarrow> str \<Rightarrow> string_hint \<Rightarrow> hint_tape \<Rightarrow> nat \<times> hint_tape" where
  "string_encoded_size_from_hint_with_cache size_string s hint hints =
     (case hint of
        Empty \<Rightarrow> (2, hints)
      | SingleToken _ \<Rightarrow> (1, hints)
      | DoubleToken _ _ \<Rightarrow> (2, hints)
      | PackedNibble \<Rightarrow> (packed_encoded_size (length s), hints)
      | PackedHex \<Rightarrow> (packed_encoded_size (length s), hints)
      | RawBytes \<Rightarrow> (bytes_with_len_encoded_size (length s), hints)
      | JidHint m \<Rightarrow> parsed_jid_encoded_size_with_cache size_string s m hints)"

text \<open>
  A JID string sizes its user and its server, which may again look like a JID; every level
  removes an at sign. The recursion takes fuel, one more than the length of the string at the top.
\<close>

fun string_size_fuel :: "nat \<Rightarrow> token_tables \<Rightarrow> str \<Rightarrow> hint_tape \<Rightarrow> nat \<times> hint_tape" where
  "string_size_fuel 0 T s hints = (0, hints)"
| "string_size_fuel (Suc n) T s hints =
     (let (hint, hints) = record_hint T s hints
      in string_encoded_size_from_hint_with_cache (string_size_fuel n T) s hint hints)"

definition string_encoded_size_with_cache ::
  "token_tables \<Rightarrow> str \<Rightarrow> hint_tape \<Rightarrow> nat \<times> hint_tape" where
  "string_encoded_size_with_cache T s = string_size_fuel (Suc (length s)) T s"

definition jid_encoded_size_with_cache ::
  "token_tables \<Rightarrow> str \<Rightarrow> server \<Rightarrow> u16 \<Rightarrow> u16 \<Rightarrow> hint_tape \<Rightarrow> nat \<times> hint_tape" where
  "jid_encoded_size_with_cache T u sv dev integ hints =
     (if needs_interop_jid sv integ then
        (let (n, hints) = string_encoded_size_with_cache T u hints in (1 + n + 2 + 2, hints))
      else if dev > 0 \<and> server_supports_ad_jid sv then
        (let (n, hints) = string_encoded_size_with_cache T u hints in (3 + n, hints))
      else
        (let (user_size, hints) =
               (if u = [] then (1, hints) else string_encoded_size_with_cache T u hints);
             (n, hints) = string_encoded_size_with_cache T (server_as_str sv) hints
         in (1 + user_size + n, hints)))"

definition owned_jid_encoded_size_with_cache ::
  "token_tables \<Rightarrow> jid \<Rightarrow> hint_tape \<Rightarrow> nat \<times> hint_tape" where
  "owned_jid_encoded_size_with_cache T j =
     jid_encoded_size_with_cache T (user j) (server j) (device j) (integrator j)"

fun value_encoded_size :: "token_tables \<Rightarrow> node_value \<Rightarrow> hint_tape \<Rightarrow> nat \<times> hint_tape" where
  "value_encoded_size T (String s) hints = string_encoded_size_with_cache T s hints"
| "value_encoded_size T (JidVal j) hints = owned_jid_encoded_size_with_cache T j hints"

fun attrs_encoded_size ::
  "token_tables \<Rightarrow> (str \<times> node_value) list \<Rightarrow> hint_tape \<Rightarrow> nat \<times> hint_tape" where
  "attrs_encoded_size T [] hints = (0, hints)"
| "attrs_encoded_size T ((k, v) # ats) hints =
     (let (a, hints) = string_encoded_size_with_cache T k hints;
          (b, hints) = value_encoded_size T v hints;
          (c, hints) = attrs_encoded_size T ats hints
      in (a + b + c, hints))"

definition node_list_len :: "(str \<times> node_value) list \<Rightarrow> node_content option \<Rightarrow> nat" where
  "node_list_len ats c = 1 + length ats * 2 + (if c = None then 0 else 1)"

fun node_encoded_size_with_cache :: "token_tables \<Rightarrow> node \<Rightarrow> hint_tape \<Rightarrow> nat \<times> hint_tape"
  and content_encoded_size :: "token_tables \<Rightarrow> node_content option \<Rightarrow> hint_tape \<Rightarrow> nat \<times> hint_tape"
  and nodes_encoded_size :: "token_tables \<Rightarrow> node list \<Rightarrow> hint_tape \<Rightarrow> nat \<times> hint_tape" where
  "node_encoded_size_with_cache T (Node tg ats c) hints =
     (let (a, hints) = string_encoded_size_with_cache T tg hints;
          (b, hints) = attrs_encoded_size T ats hints;
          (d, hints) = content_encoded_size T c hints
      in (list_start_encoded_size (node_list_len ats c) + a + b + d, hints))"
| "content_encoded_size T None hints = (0, hints)"
| "content_encoded_size T (Some (Text s)) hints = string_encoded_size_with_cache T s hints"
| "content_encoded_size T (Some (Bytes b)) hints = (bytes_with_len_encoded_size (length b), hints)"
| "content_encoded_size T (Some (Nodes ns)) hints =
     (let (a, hints) = nodes_encoded_size T ns hints
      in (list_start_encoded_size (length ns) + a, hints))"
| "nodes_encoded_size T [] hints = (0, hints)"
| "nodes_encoded_size T (n # ns) hints =
     (let (a, hints) = node_encoded_size_with_cache T n hints;
          (b, hints) = nodes_encoded_size T ns hints
      in (a + b, hints))"

record size_plan =
  plan_size :: nat
  plan_hints :: hint_tape

definition build_marshaled_node_plan :: "token_tables \<Rightarrow> node \<Rightarrow> size_plan" where
  "build_marshaled_node_plan T n =
     (let (sz, hints) = node_encoded_size_with_cache T n []
      in \<lparr>plan_size = 1 + sz, plan_hints = hints\<rparr>)"

section \<open>Writers\<close>

text \<open>The output so far, and the tape being replayed with its cursor.\<close>

record encoder =
  buffer :: bytes
  string_hints :: "(hint_tape \<times> nat) option"

type_synonym writer = "encoder \<Rightarrow> (binary_error, encoder) result"

text \<open>\<open>w1?; w2?; ...\<close>\<close>

fun wseq :: "writer list \<Rightarrow> writer" where
  "wseq [] e = Inr e"
| "wseq (w # ws) e = bind_res (w e) (wseq ws)"

definition write_raw_bytes :: "bytes \<Rightarrow> writer" where
  "write_raw_bytes bs e = Inr (e\<lparr>buffer := buffer e @ bs\<rparr>)"

definition write_u8 :: "u8 \<Rightarrow> writer" where
  "write_u8 v = write_raw_bytes [v]"

definition write_u16_be :: "u16 \<Rightarrow> writer" where
  "write_u16_be v = write_raw_bytes [ucast (drop_bit 8 v), ucast v]"

definition write_u32_be :: "u32 \<Rightarrow> writer" where
  "write_u32_be v =
     write_raw_bytes [ucast (drop_bit 24 v), ucast (drop_bit 16 v), ucast (drop_bit 8 v), ucast v]"

definition write_u20_be :: "u32 \<Rightarrow> writer" where
  "write_u20_be v =
     write_raw_bytes [ucast (drop_bit 16 v AND 0x0F), ucast (drop_bit 8 v AND 0xFF), ucast (v AND 0xFF)]"

definition write_bytes_with_len :: "bytes \<Rightarrow> writer" where
  "write_bytes_with_len bs =
     (let len = length bs in
      wseq
        [if len < 256 then wseq [write_u8 BINARY_8, write_u8 (of_nat len)]
         else if len < 2 ^ 20 then wseq [write_u8 BINARY_20, write_u20_be (of_nat len)]
         else wseq [write_u8 BINARY_32, write_u32_be (of_nat len)],
         write_raw_bytes bs])"

text \<open>The packing loop: whole pairs, then the odd byte; \<open>seen\<close> accumulates every nibble.\<close>

fun pack_pairs :: "(u8 \<Rightarrow> u8) \<Rightarrow> bytes \<Rightarrow> u8 \<Rightarrow> bytes \<times> u8" where
  "pack_pairs table [] seen = ([], seen)"
| "pack_pairs table [x] seen =
     (let hi = table x; lo = table 0 in ([push_bit 4 hi OR lo], seen OR hi OR lo))"
| "pack_pairs table (x # y # xs) seen =
     (let hi = table x; lo = table y;
          (out, seen) = pack_pairs table xs (seen OR hi OR lo)
      in ((push_bit 4 hi OR lo) # out, seen))"

definition write_packed_bytes :: "str \<Rightarrow> u8 \<Rightarrow> writer" where
  "write_packed_bytes v data_type e =
     (if length v > PACKED_MAX then Inl Panicked
      else
        let rounded_len = of_nat ((length v + 1) div 2);
            rounded_len = (if odd (length v) then rounded_len OR 0x80 else rounded_len);
            (packed, seen) =
              pack_pairs (if data_type = NIBBLE_8 then NIBBLE_ENC else HEX_ENC) v 0
        in bind_res (wseq [write_u8 data_type, write_u8 rounded_len] e) (\<lambda>e.
             if seen AND 0xF0 \<noteq> 0 then Inl Panicked else write_raw_bytes packed e))"

definition next_hint :: "encoder \<Rightarrow> string_hint option \<times> encoder" where
  "next_hint e =
     (case string_hints e of
        None \<Rightarrow> (None, e)
      | Some (hints, i) \<Rightarrow>
          (if i < length hints
           then (Some (hints ! i), e\<lparr>string_hints := Some (hints, i + 1)\<rparr>) else (None, e)))"

definition fully_consumed :: "hint_tape \<times> nat \<Rightarrow> bool" where
  "fully_consumed t \<longleftrightarrow> snd t = length (fst t)"

text \<open>Writing a parsed JID and a string under its hint, over the writer of the strings in it.\<close>

definition write_jid_from_meta :: "(str \<Rightarrow> writer) \<Rightarrow> str \<Rightarrow> parsed_jid_meta \<Rightarrow> writer" where
  "write_jid_from_meta write_string jid m =
     (let (u, raw_server) = split_jid_from_meta jid m;
          sv = (case meta_server m of None \<Rightarrow> raw_server | Some s \<Rightarrow> server_as_str s)
      in case meta_device m of
           Some dev \<Rightarrow>
             wseq [write_u8 AD_JID, write_u8 (domain_type m), write_u8 dev, write_string u]
         | None \<Rightarrow>
             wseq [write_u8 JID_PAIR,
                   if u = [] then write_u8 LIST_EMPTY else write_string u,
                   write_string sv])"

definition write_string_with_hint :: "(str \<Rightarrow> writer) \<Rightarrow> str \<Rightarrow> string_hint \<Rightarrow> writer" where
  "write_string_with_hint write_string s hint =
     (case hint of
        Empty \<Rightarrow> wseq [write_u8 BINARY_8, write_u8 0]
      | SingleToken token \<Rightarrow> write_u8 token
      | DoubleToken d token \<Rightarrow> wseq [write_u8 (DICTIONARY_0 + d), write_u8 token]
      | PackedNibble \<Rightarrow> write_packed_bytes s NIBBLE_8
      | PackedHex \<Rightarrow> write_packed_bytes s HEX_8
      | JidHint m \<Rightarrow> write_jid_from_meta write_string s m
      | RawBytes \<Rightarrow> write_bytes_with_len s)"

definition write_string_uncached :: "token_tables \<Rightarrow> (str \<Rightarrow> writer) \<Rightarrow> str \<Rightarrow> writer" where
  "write_string_uncached T write_string s =
     (if length s > PACKED_MAX then write_bytes_with_len s
      else write_string_with_hint write_string s (classify_string_hint T s))"

fun write_string_fuel :: "nat \<Rightarrow> token_tables \<Rightarrow> str \<Rightarrow> writer" where
  "write_string_fuel 0 T s e = Inl StackExhausted"
| "write_string_fuel (Suc n) T s e =
     (case next_hint e of
        (Some hint, e) \<Rightarrow> write_string_with_hint (write_string_fuel n T) s hint e
      | (None, e) \<Rightarrow> write_string_uncached T (write_string_fuel n T) s e)"

definition write_string :: "token_tables \<Rightarrow> str \<Rightarrow> writer" where
  "write_string T s = write_string_fuel (Suc (length s)) T s"

definition write_interop_jid :: "token_tables \<Rightarrow> str \<Rightarrow> u16 \<Rightarrow> u16 \<Rightarrow> writer" where
  "write_interop_jid T u dev integ =
     wseq [write_u8 INTEROP_JID, write_string T u, write_u16_be dev, write_u16_be integ]"

definition write_jid_owned :: "token_tables \<Rightarrow> jid \<Rightarrow> writer" where
  "write_jid_owned T j =
     (if needs_interop_jid (server j) (integrator j) then
        write_interop_jid T (user j) (device j) (integrator j)
      else if device j > 0 \<and> server_supports_ad_jid (server j) then
        (if device j > 255
         then (\<lambda>e. Inl (AttrParse (lit ''AD_JID device id out of range: '' @ itoa (unat (device j)))))
         else wseq [write_u8 AD_JID, write_u8 (server_to_domain_type (server j)),
                    write_u8 (ucast (device j)), write_string T (user j)])
      else
        wseq [write_u8 JID_PAIR,
              if user j = [] then write_u8 LIST_EMPTY else write_string T (user j),
              write_string T (server_as_str (server j))])"

definition write_list_start :: "nat \<Rightarrow> writer" where
  "write_list_start len =
     (if len = 0 then write_u8 LIST_EMPTY
      else if len < 256 then wseq [write_u8 248, write_u8 (of_nat len)]
      else if len \<le> 65535 then wseq [write_u8 249, write_u16_be (of_nat len)]
      else (\<lambda>e. Inl InvalidNode))"

fun encode_value :: "token_tables \<Rightarrow> node_value \<Rightarrow> writer" where
  "encode_value T (String s) = write_string T s"
| "encode_value T (JidVal j) = write_jid_owned T j"

fun encode_attrs :: "token_tables \<Rightarrow> (str \<times> node_value) list \<Rightarrow> writer" where
  "encode_attrs T [] = wseq []"
| "encode_attrs T ((k, v) # ats) =
     wseq [write_string T k, encode_value T v, encode_attrs T ats]"

fun write_node :: "token_tables \<Rightarrow> node \<Rightarrow> writer"
  and encode_content :: "token_tables \<Rightarrow> node_content option \<Rightarrow> writer"
  and write_nodes :: "token_tables \<Rightarrow> node list \<Rightarrow> writer" where
  "write_node T (Node tg ats c) =
     wseq [write_list_start (node_list_len ats c), write_string T tg, encode_attrs T ats,
           encode_content T c]"
| "encode_content T None = wseq []"
| "encode_content T (Some (Text s)) = write_string T s"
| "encode_content T (Some (Bytes b)) = write_bytes_with_len b"
| "encode_content T (Some (Nodes ns)) = wseq [write_list_start (length ns), write_nodes T ns]"
| "write_nodes T [] = wseq []"
| "write_nodes T (n # ns) = wseq [write_node T n, write_nodes T ns]"

definition FORMAT_PLAIN :: u8 where "FORMAT_PLAIN = 0"

text \<open>\<open>Encoder::new_vec_with_hints\<close>: the buffer is cleared and the format byte written.\<close>

definition new_vec_with_hints :: "hint_tape option \<Rightarrow> (binary_error, encoder) result" where
  "new_vec_with_hints hints =
     write_u8 FORMAT_PLAIN \<lparr>buffer = [], string_hints = map_option (\<lambda>h. (h, 0)) hints\<rparr>"

section \<open>The shape of a parsed JID\<close>

lemma find_byte_less: "find_byte c s = Some i \<Longrightarrow> i < length s"
  using find_byte_Some by blast

lemma rfind_byte_less: "rfind_byte c s = Some i \<Longrightarrow> i < length s"
  using rfind_byte_Some by blast

lemma meta_split_device_length: "meta_split_device u = (a, d) \<Longrightarrow> length a \<le> length u"
  by (auto simp: meta_split_device_def split: option.splits)

lemma meta_user_end_le: "meta_user_end a \<le> length a"
  by (auto simp: meta_user_end_def dest: find_byte_less split: option.splits)

lemma meta_drop_agent_le: "meta_drop_agent k a e \<le> e"
  by (auto simp: meta_drop_agent_def dest: rfind_byte_less split: option.splits)

lemma parse_jid_meta_shape:
  assumes "parse_jid_meta s = Some m"
  obtains sep where "find_byte 64 s = Some sep" "unat (server_start m) = sep + 1"
    "unat (user_end m) \<le> sep" "meta_server m = parse_known (drop (sep + 1) s)"
    "meta_device m \<noteq> None \<longrightarrow> (\<exists>sv. meta_server m = Some sv \<and> server_supports_ad_jid sv)"
proof -
  from assms obtain sep where sep: "find_byte 64 s = Some sep"
    by (auto simp: parse_jid_meta_def split: option.splits)
  obtain a d where ad: "meta_split_device (take sep s) = (a, d)" by fastforce
  let ?k = "parse_known (drop (sep + 1) s)"
  let ?e = "meta_drop_agent ?k a (meta_user_end a)"
  have "?e \<le> meta_user_end a" by (rule meta_drop_agent_le)
  also have "\<dots> \<le> length a" by (rule meta_user_end_le)
  also have "\<dots> \<le> sep" using meta_split_device_length [OF ad] by simp
  finally have e: "?e \<le> sep" .
  from assms sep ad have b: "?e < 256" "sep + 1 < 256" and
    m: "m = \<lparr>user_end = of_nat ?e, server_start = of_nat (sep + 1),
         meta_device = (case ?k of Some s \<Rightarrow> if server_supports_ad_jid s then d else None | None \<Rightarrow> None),
         meta_server = ?k\<rparr>"
    by (auto simp: parse_jid_meta_def Let_def split: if_splits)
  show thesis
  proof (rule that [OF sep])
    show "unat (server_start m) = sep + 1" using b(2) unfolding m parsed_jid_meta.simps unat_of_nat by simp
    show "unat (user_end m) \<le> sep" using b(1) e unfolding m by (simp add: unat_of_nat)
    show "meta_server m = ?k" unfolding m by simp
    show "meta_device m \<noteq> None \<longrightarrow> (\<exists>sv. meta_server m = Some sv \<and> server_supports_ad_jid sv)"
      unfolding m by (auto split: option.splits)
  qed
qed

text \<open>The strings nested in a string that looks like a JID have fewer at signs.\<close>

definition at_count :: "str \<Rightarrow> nat" where
  "at_count s = length (filter (\<lambda>b. b = 64) s)"

definition meta_user :: "str \<Rightarrow> parsed_jid_meta \<Rightarrow> str" where
  "meta_user s m = take (unat (user_end m)) s"

definition meta_server_str :: "str \<Rightarrow> parsed_jid_meta \<Rightarrow> str" where
  "meta_server_str s m =
     (case meta_server m of None \<Rightarrow> drop (unat (server_start m)) s | Some sv \<Rightarrow> server_as_str sv)"

lemma at_count_le: "at_count s \<le> length s"
  by (simp add: at_count_def)

lemma at_count_none: "64 \<notin> set s \<Longrightarrow> at_count s = 0"
  by (auto simp: at_count_def filter_empty_conv)

lemma classify_jid:
  assumes "string_hint_of T s = JidHint m"
  shows "parse_jid_meta s = Some m" and "length s \<le> 48"
  using assms
  by (auto simp: string_hint_of_def classify_string_hint_def
      split: if_splits option.splits token_kind.splits)

lemma meta_user_no_at:
  assumes "string_hint_of T s = JidHint m"
  shows "64 \<notin> set (meta_user s m)"
proof -
  from parse_jid_meta_shape [OF classify_jid(1) [OF assms]] obtain sep where
    "find_byte 64 s = Some sep" "unat (user_end m) \<le> sep" by metis
  then have "64 \<notin> set (take sep s)" "set (meta_user s m) \<subseteq> set (take sep s)"
    by (auto simp: find_byte_Some meta_user_def intro: set_take_subset_set_take [THEN subsetD])
  then show ?thesis by blast
qed

lemma meta_at_counts:
  assumes "string_hint_of T s = JidHint m"
  shows "at_count (meta_user s m) < at_count s" and "at_count (meta_server_str s m) < at_count s"
proof -
  from parse_jid_meta_shape [OF classify_jid(1) [OF assms]] obtain sep where
    sep: "find_byte 64 s = Some sep" "unat (server_start m) = sep + 1" by metis
  have s: "s = take sep s @ 64 # drop (Suc sep) s" using sep(1) by (rule find_byte_split)
  have c: "at_count s = at_count (take sep s) + Suc (at_count (drop (Suc sep) s))"
    by (subst s) (simp add: at_count_def)
  show "at_count (meta_user s m) < at_count s"
    using meta_user_no_at [OF assms] c by (simp add: at_count_none)
  show "at_count (meta_server_str s m) < at_count s"
    using c sep(2) server_no_at
    by (auto simp: meta_server_str_def at_count_none split: option.splits)
qed

section \<open>Reference encoding\<close>

text \<open>
  The bytes a value stands for on the wire, as plain functions of the value: what the writers are
  to emit, with or without a tape, and what the plan is to measure.
\<close>

definition enc_bytes :: "bytes \<Rightarrow> bytes" where
  "enc_bytes bs =
     (let len = length bs; n = of_nat len :: u32 in
      (if len < 256 then [BINARY_8, of_nat len]
       else if len < 2 ^ 20 then
         [BINARY_20, ucast (drop_bit 16 n AND 0x0F), ucast (drop_bit 8 n AND 0xFF), ucast (n AND 0xFF)]
       else [BINARY_32, ucast (drop_bit 24 n), ucast (drop_bit 16 n), ucast (drop_bit 8 n), ucast n]) @ bs)"

definition enc_packed :: "u8 \<Rightarrow> str \<Rightarrow> bytes" where
  "enc_packed data_type v =
     data_type
     # (if odd (length v) then of_nat ((length v + 1) div 2) OR 0x80 else of_nat ((length v + 1) div 2))
     # fst (pack_pairs (if data_type = NIBBLE_8 then NIBBLE_ENC else HEX_ENC) v 0)"

fun enc_plain :: "str \<Rightarrow> string_hint \<Rightarrow> bytes" where
  "enc_plain s Empty = [BINARY_8, 0]"
| "enc_plain s (SingleToken t) = [t]"
| "enc_plain s (DoubleToken d t) = [DICTIONARY_0 + d, t]"
| "enc_plain s PackedNibble = enc_packed NIBBLE_8 s"
| "enc_plain s PackedHex = enc_packed HEX_8 s"
| "enc_plain s RawBytes = enc_bytes s"
| "enc_plain s (JidHint m) = []"

function enc_str :: "token_tables \<Rightarrow> str \<Rightarrow> bytes" where
  "enc_str T s =
     (case string_hint_of T s of
        JidHint m \<Rightarrow>
          (case meta_device m of
             Some dev \<Rightarrow> [AD_JID, domain_type m, dev] @ enc_str T (meta_user s m)
           | None \<Rightarrow>
               JID_PAIR # (if meta_user s m = [] then [LIST_EMPTY] else enc_str T (meta_user s m))
               @ enc_str T (meta_server_str s m))
      | h \<Rightarrow> enc_plain s h)"
  by pat_completeness auto
termination
  by (relation "measure (\<lambda>(T, s). at_count s)") (auto simp: meta_at_counts)

function hints_str :: "token_tables \<Rightarrow> str \<Rightarrow> hint_tape" where
  "hints_str T s =
     string_hint_of T s #
     (case string_hint_of T s of
        JidHint m \<Rightarrow>
          (case meta_device m of
             Some dev \<Rightarrow> hints_str T (meta_user s m)
           | None \<Rightarrow>
               (if meta_user s m = [] then [] else hints_str T (meta_user s m))
               @ hints_str T (meta_server_str s m))
      | h \<Rightarrow> [])"
  by pat_completeness auto
termination
  by (relation "measure (\<lambda>(T, s). at_count s)") (auto simp: meta_at_counts)

declare enc_str.simps [simp del] hints_str.simps [simp del]

lemma enc_str_jid:
  assumes "string_hint_of T s = JidHint m"
  shows "enc_str T s =
      (case meta_device m of
         Some dev \<Rightarrow> [AD_JID, domain_type m, dev] @ enc_str T (meta_user s m)
       | None \<Rightarrow>
           JID_PAIR # (if meta_user s m = [] then [LIST_EMPTY] else enc_str T (meta_user s m))
           @ enc_str T (meta_server_str s m))"
    and "hints_str T s =
      JidHint m #
      (case meta_device m of
         Some dev \<Rightarrow> hints_str T (meta_user s m)
       | None \<Rightarrow>
           (if meta_user s m = [] then [] else hints_str T (meta_user s m))
           @ hints_str T (meta_server_str s m))"
  by (subst enc_str.simps hints_str.simps; simp add: assms)+

lemma enc_str_plain:
  assumes "\<And>m. string_hint_of T s \<noteq> JidHint m"
  shows "enc_str T s = enc_plain s (string_hint_of T s)" and "hints_str T s = [string_hint_of T s]"
  using assms by (subst enc_str.simps hints_str.simps; cases "string_hint_of T s"; simp)+

section \<open>Writers emit the reference encoding, and consume the tape the plan recorded\<close>

text \<open>
  \<open>runs w r hs\<close>: on an encoder with no tape, or with a tape on which the hints \<open>hs\<close> come next, the
  writer fails with \<open>r\<close>'s error, or appends \<open>r\<close>'s bytes and moves the cursor past exactly \<open>hs\<close>.
\<close>

definition tape_ready :: "encoder \<Rightarrow> hint_tape \<Rightarrow> bool" where
  "tape_ready e hs \<longleftrightarrow>
     (case string_hints e of
        None \<Rightarrow> True
      | Some (hints, i) \<Rightarrow> i + length hs \<le> length hints \<and> take (length hs) (drop i hints) = hs)"

definition advance :: "encoder \<Rightarrow> bytes \<Rightarrow> hint_tape \<Rightarrow> encoder" where
  "advance e bs hs =
     \<lparr>buffer = buffer e @ bs,
      string_hints = map_option (\<lambda>(hints, i). (hints, i + length hs)) (string_hints e)\<rparr>"

definition runs :: "writer \<Rightarrow> (binary_error, bytes) result \<Rightarrow> hint_tape \<Rightarrow> bool" where
  "runs w r hs \<longleftrightarrow> (\<forall>e. tape_ready e hs \<longrightarrow> w e = map_res (\<lambda>bs. advance e bs hs) r)"

definition seq_res ::
  "(binary_error, bytes) result \<Rightarrow> (binary_error, bytes) result \<Rightarrow> (binary_error, bytes) result" where
  "seq_res r q = bind_res r (\<lambda>xs. map_res (\<lambda>ys. xs @ ys) q)"

lemma seq_res_simps [simp]:
  "seq_res (Inl x) q = Inl x" "seq_res (Inr xs) q = map_res (\<lambda>ys. xs @ ys) q"
  by (simp_all add: seq_res_def)

lemma tape_ready_append:
  "tape_ready e (hs @ hs') \<Longrightarrow> tape_ready e hs"
  "tape_ready e (hs @ hs') \<Longrightarrow> tape_ready (advance e bs hs) hs'"
proof -
  assume t: "tape_ready e (hs @ hs')"
  have split: "take (length hs) xs = hs \<and> take (length hs') (drop (length hs) xs) = hs'"
    if "take (length hs + length hs') xs = hs @ hs'" for xs :: hint_tape
    using that by (metis append_eq_conv_conj take_add take_take min.absorb1 le_add1 drop_take
        diff_add_inverse length_append)
  show "tape_ready e hs" "tape_ready (advance e bs hs) hs'"
    using t by (auto simp: tape_ready_def advance_def ac_simps dest: split split: option.splits prod.splits)
qed

lemma advance_append: "advance (advance e bs hs) bs' hs' = advance e (bs @ bs') (hs @ hs')"
  by (cases "string_hints e") (auto simp: advance_def)

lemma advance_bytes: "advance e bs [] = e\<lparr>buffer := buffer e @ bs\<rparr>"
  by (cases e, cases "string_hints e") (auto simp: advance_def)

lemma runs_Nil: "runs (wseq []) (Inr []) []"
  by (simp add: runs_def advance_bytes)

lemma runs_Cons:
  assumes "runs w r hs" and "runs (wseq ws) q hs'"
  shows "runs (wseq (w # ws)) (seq_res r q) (hs @ hs')"
  unfolding runs_def
proof (intro allI impI)
  fix e assume e: "tape_ready e (hs @ hs')"
  note t = tape_ready_append [OF e]
  show "wseq (w # ws) e = map_res (\<lambda>bs. advance e bs (hs @ hs')) (seq_res r q)"
  proof (cases r)
    case (Inr bs)
    then have "wseq (w # ws) e = map_res (\<lambda>bs'. advance (advance e bs hs) bs' hs') q"
      using assms t(1) t(2) [of bs] by (simp add: runs_def)
    then show ?thesis using Inr by (cases q) (simp_all add: advance_append)
  qed (use assms t in \<open>simp add: runs_def\<close>)
qed

lemma runs_raw: "runs (write_raw_bytes bs) (Inr bs) []"
  by (simp add: runs_def write_raw_bytes_def advance_bytes)

lemma runs_fail: "runs (\<lambda>e. Inl x) (Inl x) hs"
  by (simp add: runs_def)

lemma runs_single: "runs w r hs \<Longrightarrow> runs (wseq [w]) r hs"
  using runs_Cons [OF _ runs_Nil, of w r hs] by (cases r) simp_all

text \<open>Sequences of writers that cannot fail.\<close>

lemma runs_seq2: "runs a (Inr x) h \<Longrightarrow> runs b (Inr y) k \<Longrightarrow> runs (wseq [a, b]) (Inr (x @ y)) (h @ k)"
  using runs_Cons [OF _ runs_single, of a "Inr x" h b "Inr y" k] by simp

lemma runs_seq3:
  "runs a (Inr x) h \<Longrightarrow> runs b (Inr y) k \<Longrightarrow> runs c (Inr z) l \<Longrightarrow>
   runs (wseq [a, b, c]) (Inr (x @ y @ z)) (h @ k @ l)"
  using runs_Cons [OF _ runs_seq2, of a "Inr x" h b y k c z l] by simp

lemma runs_seq4:
  "runs a (Inr x) h \<Longrightarrow> runs b (Inr y) k \<Longrightarrow> runs c (Inr z) l \<Longrightarrow> runs d (Inr w) m \<Longrightarrow>
   runs (wseq [a, b, c, d]) (Inr (x @ y @ z @ w)) (h @ k @ l @ m)"
  using runs_Cons [OF _ runs_seq3, of a "Inr x" h b y k c z l d w m] by simp

lemma runs_u8: "runs (write_u8 v) (Inr [v]) []"
  unfolding write_u8_def by (rule runs_raw)

lemma runs_bytes_with_len: "runs (write_bytes_with_len bs) (Inr (enc_bytes bs)) []"
proof -
  have h: "runs (if length bs < 256 then wseq [write_u8 BINARY_8, write_u8 (of_nat (length bs))]
      else if length bs < 2 ^ 20 then wseq [write_u8 BINARY_20, write_u20_be (of_nat (length bs))]
      else wseq [write_u8 BINARY_32, write_u32_be (of_nat (length bs))])
    (Inr (take (length (enc_bytes bs) - length bs) (enc_bytes bs))) []"
    using runs_seq2 [OF runs_u8 runs_u8, of BINARY_8 "of_nat (length bs)"]
      runs_seq2 [OF runs_u8 runs_raw] 
    by (auto simp: enc_bytes_def Let_def write_u20_be_def write_u32_be_def)
  have "take (length (enc_bytes bs) - length bs) (enc_bytes bs) @ bs = enc_bytes bs"
    by (auto simp: enc_bytes_def Let_def)
  with runs_seq2 [OF h runs_raw, of bs] show ?thesis
    by (simp add: write_bytes_with_len_def Let_def del: power_numeral)
qed

subsection \<open>Packed strings\<close>

lemma digit_enum:
  "is_ascii_digit b \<Longrightarrow> b \<in> {48, 49, 50, 51, 52, 53, 54, 55, 56, 57}"
proof -
  assume "is_ascii_digit b"
  then have "48 \<le> unat b" "unat b \<le> 57" by (auto simp: is_ascii_digit_def word_le_nat_alt)
  then have "unat b = 48 \<or> unat b = 49 \<or> unat b = 50 \<or> unat b = 51 \<or> unat b = 52 \<or> unat b = 53 \<or>
      unat b = 54 \<or> unat b = 55 \<or> unat b = 56 \<or> unat b = 57" by presburger
  then show ?thesis by (simp add: word_unat_eq_iff)
qed

lemma hex_letter_enum: "65 \<le> b \<Longrightarrow> b \<le> 70 \<Longrightarrow> (b :: u8) \<in> {65, 66, 67, 68, 69, 70}"
proof -
  assume "65 \<le> b" and "b \<le> 70"
  then have "65 \<le> unat b" "unat b \<le> 70" by (auto simp: word_le_nat_alt)
  then have "unat b = 65 \<or> unat b = 66 \<or> unat b = 67 \<or> unat b = 68 \<or> unat b = 69 \<or> unat b = 70"
    by presburger
  then show ?thesis by (simp add: word_unat_eq_iff)
qed

definition nibble_char :: "u8 \<Rightarrow> bool" where
  "nibble_char b \<longleftrightarrow> b \<in> {48, 49, 50, 51, 52, 53, 54, 55, 56, 57, 45, 46}"

definition hex_char :: "u8 \<Rightarrow> bool" where
  "hex_char b \<longleftrightarrow> b \<in> {48, 49, 50, 51, 52, 53, 54, 55, 56, 57, 65, 66, 67, 68, 69, 70}"

lemma packed_char:
  "is_ascii_digit b \<or> b = 45 \<or> b = 46 \<Longrightarrow> nibble_char b"
  "is_ascii_digit b \<or> 65 \<le> b \<and> b \<le> 70 \<Longrightarrow> hex_char b"
  using digit_enum [of b] hex_letter_enum [of b] unfolding nibble_char_def hex_char_def by blast+

lemma validate_chars:
  "validate_nibble v \<Longrightarrow> length v \<le> 127 \<and> list_all nibble_char v"
  "validate_hex v \<Longrightarrow> length v \<le> 127 \<and> list_all hex_char v"
  using packed_char
  by (auto simp: validate_nibble_def validate_hex_def PACKED_MAX_def intro: list.pred_mono_strong)

lemma enc_nibble: "nibble_char b \<Longrightarrow> NIBBLE_ENC b AND 0xF0 = 0" "hex_char b \<Longrightarrow> HEX_ENC b AND 0xF0 = 0"
  "NIBBLE_ENC 0 = 15" "HEX_ENC 0 = 15"
  by (auto simp: nibble_char_def hex_char_def NIBBLE_ENC_def HEX_ENC_def word_le_nat_alt)

lemma pack_pairs_seen:
  assumes "\<forall>b \<in> set v. table b AND 0xF0 = 0" and "table 0 AND 0xF0 = 0" and "seen AND 0xF0 = 0"
  shows "snd (pack_pairs table v seen) AND 0xF0 = (0 :: u8)"
  using assms
  by (induction table v seen rule: pack_pairs.induct)
    (auto simp: Let_def bit.conj_disj_distrib2 split: prod.splits)

lemma pack_pairs_acc: "fst (pack_pairs table v seen) = fst (pack_pairs table v seen')"
proof (induction v arbitrary: seen seen' rule: induct_list012)
  case (3 x y xs)
  show ?case by (simp add: Let_def case_prod_beta) (rule 3)
qed (simp_all add: Let_def)

lemma length_pack_pairs: "length (fst (pack_pairs table v seen)) = (length v + 1) div 2"
  by (induction table v seen rule: pack_pairs.induct) (auto simp: Let_def split: prod.splits)

lemma runs_packed:
  assumes "tg = NIBBLE_8 \<and> validate_nibble v \<or> tg = HEX_8 \<and> validate_hex v"
  shows "runs (write_packed_bytes v tg) (Inr (enc_packed tg v)) []"
proof -
  let ?table = "if tg = NIBBLE_8 then NIBBLE_ENC else HEX_ENC"
  have len: "length v \<le> PACKED_MAX" using assms validate_chars by (auto simp: PACKED_MAX_def)
  have "\<forall>b \<in> set v. ?table b AND 0xF0 = 0" "?table 0 AND 0xF0 = 0"
    using assms validate_chars [of v] enc_nibble by (auto simp: list_all_iff tag_defs)
  then have "snd (pack_pairs ?table v 0) AND 0xF0 = 0" by (intro pack_pairs_seen) simp_all
  then show ?thesis
    using len
    by (auto simp: runs_def write_packed_bytes_def Let_def write_u8_def write_raw_bytes_def
        advance_bytes enc_packed_def case_prod_beta)
qed

subsection \<open>Strings\<close>

lemma hint_validates:
  "string_hint_of T s = PackedNibble \<Longrightarrow> validate_nibble s"
  "string_hint_of T s = PackedHex \<Longrightarrow> validate_hex s"
  by (auto simp: string_hint_of_def classify_string_hint_def
      split: if_splits option.splits token_kind.splits)

lemma runs_plain:
  assumes "\<And>m. string_hint_of T s \<noteq> JidHint m"
  shows "runs (write_string_with_hint w s (string_hint_of T s)) (Inr (enc_plain s (string_hint_of T s))) []"
proof (cases "string_hint_of T s")
  case Empty
  then show ?thesis using runs_seq2 [OF runs_u8 runs_u8] by (simp add: write_string_with_hint_def)
next
  case (SingleToken t)
  then show ?thesis using runs_u8 by (simp add: write_string_with_hint_def)
next
  case (DoubleToken d t)
  then show ?thesis using runs_seq2 [OF runs_u8 runs_u8] by (simp add: write_string_with_hint_def)
next
  case PackedNibble
  then show ?thesis
    using runs_packed [of NIBBLE_8 s] hint_validates by (simp add: write_string_with_hint_def)
next
  case PackedHex
  then show ?thesis
    using runs_packed [of HEX_8 s] hint_validates by (simp add: write_string_with_hint_def)
next
  case RawBytes
  then show ?thesis using runs_bytes_with_len by (simp add: write_string_with_hint_def)
qed (use assms in simp)

lemma split_jid_from_meta_eq:
  "split_jid_from_meta s m = (meta_user s m, drop (unat (server_start m)) s)"
  by (simp add: split_jid_from_meta_def meta_user_def)

lemma write_jid_from_meta_eq:
  "write_jid_from_meta w s m =
     (case meta_device m of
        Some dev \<Rightarrow> wseq [write_u8 AD_JID, write_u8 (domain_type m), write_u8 dev, w (meta_user s m)]
      | None \<Rightarrow> wseq [write_u8 JID_PAIR,
          if meta_user s m = [] then write_u8 LIST_EMPTY else w (meta_user s m), w (meta_server_str s m)])"
  by (cases "meta_device m")
    (simp_all add: write_jid_from_meta_def split_jid_from_meta_eq meta_server_str_def Let_def)

lemma runs_if: "(b \<Longrightarrow> runs p r h) \<Longrightarrow> (\<not> b \<Longrightarrow> runs q s k) \<Longrightarrow>
    runs (if b then p else q) (if b then r else s) (if b then h else k)"
  by simp

text \<open>
  A string is written the same whether its hint comes off the tape or is worked out on the spot:
  the tape the plan recorded holds that very hint.
\<close>

lemma runs_string_step:
  assumes "runs (write_string_with_hint (write_string_fuel n T) s (string_hint_of T s)) r hs"
  shows "runs (write_string_fuel (Suc n) T s) r (string_hint_of T s # hs)"
  unfolding runs_def
proof (intro allI impI)
  fix e assume t: "tape_ready e (string_hint_of T s # hs)"
  have unc: "write_string_uncached T (write_string_fuel n T) s =
      write_string_with_hint (write_string_fuel n T) s (string_hint_of T s)"
    by (simp add: write_string_uncached_def string_hint_of_def write_string_with_hint_def)
  show "write_string_fuel (Suc n) T s e = map_res (\<lambda>bs. advance e bs (string_hint_of T s # hs)) r"
  proof (cases "string_hints e")
    case None
    then have "next_hint e = (None, e)" "tape_ready e hs" "advance e bs hs = advance e bs (h # hs)" for bs h
      by (simp_all add: next_hint_def tape_ready_def advance_def)
    with assms unc show ?thesis by (simp add: runs_def)
  next
    case (Some p)
    obtain hints i where p: "p = (hints, i)" by (cases p)
    let ?e = "e\<lparr>string_hints := Some (hints, Suc i)\<rparr>"
    from t have i: "i < length hints" "take (length (string_hint_of T s # hs)) (drop i hints) = string_hint_of T s # hs"
      "Suc i + length hs \<le> length hints"
      by (auto simp: tape_ready_def Some p)
    then have d: "drop i hints = hints ! i # drop (Suc i) hints" by (simp add: Cons_nth_drop_Suc)
    with i have h: "hints ! i = string_hint_of T s" "take (length hs) (drop (Suc i) hints) = hs" by auto
    have "next_hint e = (Some (string_hint_of T s), ?e)"
      using i(1) h(1) by (simp add: next_hint_def Some p)
    moreover have "tape_ready ?e hs" using i(3) h(2) by (simp add: tape_ready_def)
    moreover have "advance ?e bs hs = advance e bs (string_hint_of T s # hs)" for bs
      by (simp add: advance_def Some p)
    ultimately show ?thesis using assms by (simp add: runs_def)
  qed
qed

lemma runs_string_fuel:
  "at_count s < n \<Longrightarrow> runs (write_string_fuel n T s) (Inr (enc_str T s)) (hints_str T s)"
proof (induction n arbitrary: s)
  case (Suc n)
  show ?case
  proof (cases "string_hint_of T s")
    case (JidHint m)
    note c = meta_at_counts [OF JidHint]
    have u: "runs (write_string_fuel n T (meta_user s m)) (Inr (enc_str T (meta_user s m))) (hints_str T (meta_user s m))"
      and v: "runs (write_string_fuel n T (meta_server_str s m)) (Inr (enc_str T (meta_server_str s m)))
        (hints_str T (meta_server_str s m))"
      using Suc c by simp_all
    let ?hs = "tl (hints_str T s)"
    have "runs (write_jid_from_meta (write_string_fuel n T) s m) (Inr (enc_str T s)) ?hs"
    proof (cases "meta_device m")
      case (Some dev)
      then show ?thesis
        using runs_seq4 [OF runs_u8 runs_u8 runs_u8 u, of AD_JID "domain_type m" dev]
        by (simp add: write_jid_from_meta_eq enc_str_jid [OF JidHint])
    next
      case None
      have "runs (if meta_user s m = [] then write_u8 LIST_EMPTY else write_string_fuel n T (meta_user s m))
          (Inr (if meta_user s m = [] then [LIST_EMPTY] else enc_str T (meta_user s m)))
          (if meta_user s m = [] then [] else hints_str T (meta_user s m))"
        using runs_u8 u by simp
      from runs_seq3 [OF runs_u8 this v, of JID_PAIR] None show ?thesis
        by (simp add: write_jid_from_meta_eq enc_str_jid [OF JidHint])
    qed
    then have "runs (write_string_with_hint (write_string_fuel n T) s (string_hint_of T s)) (Inr (enc_str T s)) ?hs"
      by (simp add: JidHint write_string_with_hint_def)
    moreover have "string_hint_of T s # ?hs = hints_str T s"
      by (simp add: JidHint enc_str_jid(2) [OF JidHint])
    ultimately show ?thesis using runs_string_step by metis
  qed (use runs_string_step [OF runs_plain, of T s n] enc_str_plain [of T s] in \<open>auto simp del: write_string_fuel.simps\<close>)
qed simp

lemma runs_string: "runs (write_string T s) (Inr (enc_str T s)) (hints_str T s)"
  unfolding write_string_def by (rule runs_string_fuel) (simp add: at_count_le less_Suc_eq_le)

lemma length_enc_bytes: "length (enc_bytes bs) = bytes_with_len_encoded_size (length bs)"
  by (simp add: enc_bytes_def bytes_with_len_encoded_size_def binary_len_prefix_size_def Let_def)

lemma length_enc_packed: "length (enc_packed tg s) = packed_encoded_size (length s)"
  by (simp add: enc_packed_def packed_encoded_size_def length_pack_pairs)

lemma plain_size:
  assumes "\<forall>m. h \<noteq> JidHint m"
  shows "string_encoded_size_from_hint_with_cache f s h hints = (length (enc_plain s h), hints)"
  using assms
  by (cases h) (simp_all add: string_encoded_size_from_hint_with_cache_def length_enc_bytes length_enc_packed)

lemma string_size_fuel_eq:
  "at_count s < n \<Longrightarrow> string_size_fuel n T s hints = (length (enc_str T s), hints @ hints_str T s)"
proof (induction n arbitrary: s hints)
  case (Suc n)
  show ?case
  proof (cases "string_hint_of T s")
    case (JidHint m)
    note c = meta_at_counts [OF JidHint]
    have IH: "string_size_fuel n T (meta_user s m) hs = (length (enc_str T (meta_user s m)), hs @ hints_str T (meta_user s m))"
      "string_size_fuel n T (meta_server_str s m) hs =
        (length (enc_str T (meta_server_str s m)), hs @ hints_str T (meta_server_str s m))" for hs
      using Suc c by simp_all
    have "parsed_jid_encoded_size_with_cache (string_size_fuel n T) s m hs =
        (length (enc_str T s), hs @ tl (hints_str T s))" for hs
      using IH
      by (cases "meta_device m")
        (simp_all add: parsed_jid_encoded_size_with_cache_def split_jid_from_meta_eq Let_def
          meta_server_str_def [symmetric] enc_str_jid [OF JidHint])
    moreover have hs: "hints_str T s = JidHint m # tl (hints_str T s)"
      by (simp add: enc_str_jid(2) [OF JidHint])
    ultimately show ?thesis
      by (subst hs) (simp add: record_hint_def Let_def JidHint string_encoded_size_from_hint_with_cache_def)
  qed (use enc_str_plain [of T s] plain_size [of "string_hint_of T s"] in \<open>auto simp: record_hint_def Let_def\<close>)
qed simp

lemma string_size: "string_encoded_size_with_cache T s hints = (length (enc_str T s), hints @ hints_str T s)"
  unfolding string_encoded_size_with_cache_def
  by (rule string_size_fuel_eq) (simp add: at_count_le less_Suc_eq_le)

subsection \<open>JIDs, attributes and nodes\<close>

definition enc_jid :: "token_tables \<Rightarrow> jid \<Rightarrow> (binary_error, bytes) result" where
  "enc_jid T j =
     (if needs_interop_jid (server j) (integrator j) then
        Inr ([INTEROP_JID] @ enc_str T (user j)
             @ [ucast (drop_bit 8 (device j)), ucast (device j)]
             @ [ucast (drop_bit 8 (integrator j)), ucast (integrator j)])
      else if device j > 0 \<and> server_supports_ad_jid (server j) then
        (if device j > 255
         then Inl (AttrParse (lit ''AD_JID device id out of range: '' @ itoa (unat (device j))))
         else Inr ([AD_JID] @ [server_to_domain_type (server j)] @ [ucast (device j)] @ enc_str T (user j)))
      else
        Inr ([JID_PAIR] @ (if user j = [] then [LIST_EMPTY] else enc_str T (user j))
             @ enc_str T (server_as_str (server j))))"

definition hints_jid :: "token_tables \<Rightarrow> jid \<Rightarrow> hint_tape" where
  "hints_jid T j =
     (if needs_interop_jid (server j) (integrator j) \<or> device j > 0 \<and> server_supports_ad_jid (server j)
      then hints_str T (user j)
      else (if user j = [] then [] else hints_str T (user j)) @ hints_str T (server_as_str (server j)))"

lemma runs_jid: "runs (write_jid_owned T j) (enc_jid T j) (hints_jid T j)"
proof -
  have interop: "runs (write_interop_jid T u d i)
      (Inr ([INTEROP_JID] @ enc_str T u @ [ucast (drop_bit 8 d), ucast d] @ [ucast (drop_bit 8 i), ucast i]))
      (hints_str T u)" for u d i
    using runs_seq4 [OF runs_u8 runs_string runs_raw runs_raw, of INTEROP_JID T u
        "[ucast (drop_bit 8 d), ucast d]" "[ucast (drop_bit 8 i), ucast i]"]
    by (simp add: write_interop_jid_def write_u16_be_def)
  have pair: "runs (wseq [write_u8 JID_PAIR, if user j = [] then write_u8 LIST_EMPTY else write_string T (user j),
        write_string T (server_as_str (server j))])
      (Inr ([JID_PAIR] @ (if user j = [] then [LIST_EMPTY] else enc_str T (user j))
        @ enc_str T (server_as_str (server j))))
      ([] @ (if user j = [] then [] else hints_str T (user j)) @ hints_str T (server_as_str (server j)))"
    using runs_u8 runs_string by (intro runs_seq3) auto
  have ad: "runs (wseq [write_u8 AD_JID, write_u8 (server_to_domain_type (server j)),
        write_u8 (ucast (device j)), write_string T (user j)])
      (Inr ([AD_JID] @ [server_to_domain_type (server j)] @ [ucast (device j)] @ enc_str T (user j)))
      ([] @ [] @ [] @ hints_str T (user j))"
    by (intro runs_seq4 runs_u8 runs_string)
  show ?thesis
    unfolding write_jid_owned_def enc_jid_def hints_jid_def
    using interop pair ad runs_fail by auto
qed

lemma jid_size:
  assumes "enc_jid T j = Inr bs"
  shows "owned_jid_encoded_size_with_cache T j hints = (length bs, hints @ hints_jid T j)"
  using assms
  by (auto simp: owned_jid_encoded_size_with_cache_def jid_encoded_size_with_cache_def enc_jid_def
      hints_jid_def string_size Let_def split: if_splits)

lemma jid_size_hints: "snd (owned_jid_encoded_size_with_cache T j hints) = hints @ hints_jid T j"
  by (auto simp: owned_jid_encoded_size_with_cache_def jid_encoded_size_with_cache_def
      hints_jid_def string_size Let_def)

fun enc_value :: "token_tables \<Rightarrow> node_value \<Rightarrow> (binary_error, bytes) result" where
  "enc_value T (String s) = Inr (enc_str T s)"
| "enc_value T (JidVal j) = enc_jid T j"

fun hints_value :: "token_tables \<Rightarrow> node_value \<Rightarrow> hint_tape" where
  "hints_value T (String s) = hints_str T s"
| "hints_value T (JidVal j) = hints_jid T j"

fun enc_attrs :: "token_tables \<Rightarrow> (str \<times> node_value) list \<Rightarrow> (binary_error, bytes) result" where
  "enc_attrs T [] = Inr []"
| "enc_attrs T ((k, v) # ats) =
     seq_res (Inr (enc_str T k)) (seq_res (enc_value T v) (enc_attrs T ats))"

fun hints_attrs :: "token_tables \<Rightarrow> (str \<times> node_value) list \<Rightarrow> hint_tape" where
  "hints_attrs T [] = []"
| "hints_attrs T ((k, v) # ats) = hints_str T k @ hints_value T v @ hints_attrs T ats"

definition enc_list_start :: "nat \<Rightarrow> (binary_error, bytes) result" where
  "enc_list_start len =
     (if len = 0 then Inr [LIST_EMPTY]
      else if len < 256 then Inr [248, of_nat len]
      else if len \<le> 65535 then Inr [249, ucast (drop_bit 8 (of_nat len :: u16)), ucast (of_nat len :: u16)]
      else Inl InvalidNode)"

fun enc_node :: "token_tables \<Rightarrow> node \<Rightarrow> (binary_error, bytes) result"
  and enc_content :: "token_tables \<Rightarrow> node_content option \<Rightarrow> (binary_error, bytes) result"
  and enc_nodes :: "token_tables \<Rightarrow> node list \<Rightarrow> (binary_error, bytes) result" where
  "enc_node T (Node tg ats c) =
     seq_res (enc_list_start (node_list_len ats c))
       (seq_res (Inr (enc_str T tg)) (seq_res (enc_attrs T ats) (enc_content T c)))"
| "enc_content T None = Inr []"
| "enc_content T (Some (Text s)) = Inr (enc_str T s)"
| "enc_content T (Some (Bytes b)) = Inr (enc_bytes b)"
| "enc_content T (Some (Nodes ns)) = seq_res (enc_list_start (length ns)) (enc_nodes T ns)"
| "enc_nodes T [] = Inr []"
| "enc_nodes T (n # ns) = seq_res (enc_node T n) (enc_nodes T ns)"

fun hints_node :: "token_tables \<Rightarrow> node \<Rightarrow> hint_tape"
  and hints_content :: "token_tables \<Rightarrow> node_content option \<Rightarrow> hint_tape"
  and hints_nodes :: "token_tables \<Rightarrow> node list \<Rightarrow> hint_tape" where
  "hints_node T (Node tg ats c) = hints_str T tg @ hints_attrs T ats @ hints_content T c"
| "hints_content T None = []"
| "hints_content T (Some (Text s)) = hints_str T s"
| "hints_content T (Some (Bytes b)) = []"
| "hints_content T (Some (Nodes ns)) = hints_nodes T ns"
| "hints_nodes T [] = []"
| "hints_nodes T (n # ns) = hints_node T n @ hints_nodes T ns"

lemma runs_seq2': "runs a r h \<Longrightarrow> runs b q k \<Longrightarrow> runs (wseq [a, b]) (seq_res r q) (h @ k)"
  using runs_Cons [OF _ runs_single] by blast

lemma runs_seq3':
  "runs a r h \<Longrightarrow> runs b q k \<Longrightarrow> runs c p l \<Longrightarrow> runs (wseq [a, b, c]) (seq_res r (seq_res q p)) (h @ k @ l)"
  using runs_Cons [OF _ runs_seq2'] by blast

lemma runs_seq4':
  "runs a r h \<Longrightarrow> runs b q k \<Longrightarrow> runs c p l \<Longrightarrow> runs d z m \<Longrightarrow>
   runs (wseq [a, b, c, d]) (seq_res r (seq_res q (seq_res p z))) (h @ k @ l @ m)"
  using runs_Cons [OF _ runs_seq3'] by blast

lemma runs_value: "runs (encode_value T v) (enc_value T v) (hints_value T v)"
  by (cases v) (simp_all add: runs_string runs_jid)

lemma runs_attrs: "runs (encode_attrs T ats) (enc_attrs T ats) (hints_attrs T ats)"
proof (induction ats)
  case (Cons kv ats)
  obtain k v where "kv = (k, v)" by (cases kv)
  with runs_seq3' [OF runs_string runs_value Cons] show ?case by (simp del: wseq.simps)
qed (simp add: runs_Nil del: wseq.simps)

lemma runs_list_start: "runs (write_list_start n) (enc_list_start n) []"
  unfolding write_list_start_def enc_list_start_def write_u16_be_def
  using runs_u8 runs_seq2 [OF runs_u8 runs_u8] runs_seq2 [OF runs_u8 runs_raw] runs_fail by auto

lemma runs_node:
  "runs (write_node T n) (enc_node T n) (hints_node T n)"
  "runs (encode_content T c) (enc_content T c) (hints_content T c)"
  "runs (write_nodes T ns) (enc_nodes T ns) (hints_nodes T ns)"
proof (induction T n and T c and T ns rule: write_node_encode_content_write_nodes.induct)
  case (1 T tg ats c)
  from runs_seq4' [OF runs_list_start runs_string runs_attrs 1] show ?case
    by (simp del: wseq.simps seq_res_simps)
next
  case (5 T ns)
  from runs_seq2' [OF runs_list_start 5] show ?case by (simp del: wseq.simps seq_res_simps)
next
  case (7 T n ns)
  from runs_seq2' [OF 7] show ?case by (simp del: wseq.simps seq_res_simps)
qed (simp_all add: runs_Nil runs_string runs_bytes_with_len del: wseq.simps)

subsection \<open>The plan\<close>

lemma list_start_size: "enc_list_start n = Inr bs \<Longrightarrow> list_start_encoded_size n = length bs"
  by (auto simp: enc_list_start_def list_start_encoded_size_def split: if_splits)

lemma value_size_hints: "snd (value_encoded_size T v hints) = hints @ hints_value T v"
  by (cases v) (simp_all add: string_size jid_size_hints)

lemma value_size: "enc_value T v = Inr bs \<Longrightarrow> fst (value_encoded_size T v hints) = length bs"
  by (cases v) (auto simp: string_size jid_size)

lemma attrs_size_hints: "snd (attrs_encoded_size T ats hints) = hints @ hints_attrs T ats"
proof (induction ats arbitrary: hints)
  case (Cons kv ats)
  then show ?case by (cases kv) (simp add: string_size case_prod_beta value_size_hints)
qed simp

lemma seq_res_Inr: "seq_res r q = Inr bs \<longleftrightarrow> (\<exists>xs ys. r = Inr xs \<and> q = Inr ys \<and> bs = xs @ ys)"
  by (cases r; cases q) auto

lemma attrs_size: "enc_attrs T ats = Inr bs \<Longrightarrow> fst (attrs_encoded_size T ats hints) = length bs"
proof (induction ats arbitrary: hints bs)
  case (Cons kv ats)
  obtain k v where kv: "kv = (k, v)" by (cases kv)
  with Cons.prems obtain xs ys where "enc_value T v = Inr xs" "enc_attrs T ats = Inr ys"
      "bs = enc_str T k @ xs @ ys"
    by (auto simp: seq_res_Inr map_res_Inr_iff)
  with Cons.IH value_size kv show ?case
    by (auto simp: string_size case_prod_beta value_size_hints)
qed simp

lemma node_size_hints:
  "snd (node_encoded_size_with_cache T n hints) = hints @ hints_node T n"
  "snd (content_encoded_size T c hints) = hints @ hints_content T c"
  "snd (nodes_encoded_size T ns hints) = hints @ hints_nodes T ns"
  by (induction T n and T c and T ns arbitrary: hints and hints and hints
      rule: write_node_encode_content_write_nodes.induct)
    (simp_all add: string_size case_prod_beta attrs_size_hints)

lemma node_size:
  "enc_node T n = Inr bs \<Longrightarrow> fst (node_encoded_size_with_cache T n hints) = length bs"
  "enc_content T c = Inr bs \<Longrightarrow> fst (content_encoded_size T c hints) = length bs"
  "enc_nodes T ns = Inr bs \<Longrightarrow> fst (nodes_encoded_size T ns hints) = length bs"
proof (induction T n and T c and T ns arbitrary: bs hints and bs hints and bs hints
      rule: write_node_encode_content_write_nodes.induct)
  case (1 T tg ats c)
  then obtain xs ys zs where e: "enc_list_start (node_list_len ats c) = Inr xs" "enc_attrs T ats = Inr ys"
      "enc_content T c = Inr zs" "bs = xs @ enc_str T tg @ ys @ zs"
    by (auto simp: seq_res_Inr map_res_Inr_iff)
  with 1 show ?case
    by (simp add: string_size case_prod_beta attrs_size attrs_size_hints list_start_size)
next
  case (5 T ns)
  then show ?case by (auto simp: seq_res_Inr case_prod_beta dest: list_start_size)
next
  case (7 T n ns)
  then show ?case by (auto simp: seq_res_Inr case_prod_beta)
qed (simp_all add: string_size length_enc_bytes)

section \<open>The borrowed flavour\<close>

text \<open>
  \<open>NodeRef\<close> has its own copies of the planning and writing code. They are translated from their own
  lines, and agree with the owned ones.
\<close>

definition jid_ref_encoded_size_with_cache :: "token_tables \<Rightarrow> jid \<Rightarrow> hint_tape \<Rightarrow> nat \<times> hint_tape" where
  "jid_ref_encoded_size_with_cache T j =
     jid_encoded_size_with_cache T (user j) (server j) (device j) (integrator j)"

fun value_ref_encoded_size :: "token_tables \<Rightarrow> node_value \<Rightarrow> hint_tape \<Rightarrow> nat \<times> hint_tape" where
  "value_ref_encoded_size T (String s) hints = string_encoded_size_with_cache T s hints"
| "value_ref_encoded_size T (JidVal j) hints = jid_ref_encoded_size_with_cache T j hints"

fun attrs_ref_encoded_size ::
  "token_tables \<Rightarrow> (str \<times> node_value) list \<Rightarrow> hint_tape \<Rightarrow> nat \<times> hint_tape" where
  "attrs_ref_encoded_size T [] hints = (0, hints)"
| "attrs_ref_encoded_size T ((k, v) # ats) hints =
     (let (a, hints) = string_encoded_size_with_cache T k hints;
          (b, hints) = value_ref_encoded_size T v hints;
          (c, hints) = attrs_ref_encoded_size T ats hints
      in (a + b + c, hints))"

fun node_ref_encoded_size_with_cache :: "token_tables \<Rightarrow> node \<Rightarrow> hint_tape \<Rightarrow> nat \<times> hint_tape"
  and content_ref_encoded_size :: "token_tables \<Rightarrow> node_content option \<Rightarrow> hint_tape \<Rightarrow> nat \<times> hint_tape"
  and nodes_ref_encoded_size :: "token_tables \<Rightarrow> node list \<Rightarrow> hint_tape \<Rightarrow> nat \<times> hint_tape" where
  "node_ref_encoded_size_with_cache T (Node tg ats c) hints =
     (let (a, hints) = string_encoded_size_with_cache T tg hints;
          (b, hints) = attrs_ref_encoded_size T ats hints;
          (d, hints) = content_ref_encoded_size T c hints
      in (list_start_encoded_size (node_list_len ats c) + a + b + d, hints))"
| "content_ref_encoded_size T None hints = (0, hints)"
| "content_ref_encoded_size T (Some (Text s)) hints = string_encoded_size_with_cache T s hints"
| "content_ref_encoded_size T (Some (Bytes b)) hints = (bytes_with_len_encoded_size (length b), hints)"
| "content_ref_encoded_size T (Some (Nodes ns)) hints =
     (let (a, hints) = nodes_ref_encoded_size T ns hints
      in (list_start_encoded_size (length ns) + a, hints))"
| "nodes_ref_encoded_size T [] hints = (0, hints)"
| "nodes_ref_encoded_size T (n # ns) hints =
     (let (a, hints) = node_ref_encoded_size_with_cache T n hints;
          (b, hints) = nodes_ref_encoded_size T ns hints
      in (a + b, hints))"

definition build_marshaled_node_ref_plan :: "token_tables \<Rightarrow> node \<Rightarrow> size_plan" where
  "build_marshaled_node_ref_plan T n =
     (let (sz, hints) = node_ref_encoded_size_with_cache T n []
      in \<lparr>plan_size = 1 + sz, plan_hints = hints\<rparr>)"

definition write_jid_ref :: "token_tables \<Rightarrow> jid \<Rightarrow> writer" where
  "write_jid_ref T j =
     (if needs_interop_jid (server j) (integrator j) then
        write_interop_jid T (user j) (device j) (integrator j)
      else if device j > 0 \<and> server_supports_ad_jid (server j) then
        (if device j > 255
         then (\<lambda>e. Inl (AttrParse (lit ''AD_JID device id out of range: '' @ itoa (unat (device j)))))
         else wseq [write_u8 AD_JID, write_u8 (server_to_domain_type (server j)),
                    write_u8 (ucast (device j)), write_string T (user j)])
      else
        wseq [write_u8 JID_PAIR,
              if user j = [] then write_u8 LIST_EMPTY else write_string T (user j),
              write_string T (server_as_str (server j))])"

fun encode_value_ref :: "token_tables \<Rightarrow> node_value \<Rightarrow> writer" where
  "encode_value_ref T (String s) = write_string T s"
| "encode_value_ref T (JidVal j) = write_jid_ref T j"

fun encode_attrs_ref :: "token_tables \<Rightarrow> (str \<times> node_value) list \<Rightarrow> writer" where
  "encode_attrs_ref T [] = wseq []"
| "encode_attrs_ref T ((k, v) # ats) =
     wseq [write_string T k, encode_value_ref T v, encode_attrs_ref T ats]"

fun write_node_ref :: "token_tables \<Rightarrow> node \<Rightarrow> writer"
  and encode_content_ref :: "token_tables \<Rightarrow> node_content option \<Rightarrow> writer"
  and write_node_refs :: "token_tables \<Rightarrow> node list \<Rightarrow> writer" where
  "write_node_ref T (Node tg ats c) =
     wseq [write_list_start (node_list_len ats c), write_string T tg, encode_attrs_ref T ats,
           encode_content_ref T c]"
| "encode_content_ref T None = wseq []"
| "encode_content_ref T (Some (Text s)) = write_string T s"
| "encode_content_ref T (Some (Bytes b)) = write_bytes_with_len b"
| "encode_content_ref T (Some (Nodes ns)) = wseq [write_list_start (length ns), write_node_refs T ns]"
| "write_node_refs T [] = wseq []"
| "write_node_refs T (n # ns) = wseq [write_node_ref T n, write_node_refs T ns]"

lemma value_ref_eq:
  "value_ref_encoded_size T v = value_encoded_size T v" "encode_value_ref T v = encode_value T v"
  by (cases v; auto simp: jid_ref_encoded_size_with_cache_def owned_jid_encoded_size_with_cache_def
      write_jid_ref_def write_jid_owned_def)+

lemma attrs_ref_eq:
  "attrs_ref_encoded_size T ats hints = attrs_encoded_size T ats hints"
  "encode_attrs_ref T ats = encode_attrs T ats"
proof -
  show "attrs_ref_encoded_size T ats hints = attrs_encoded_size T ats hints"
    by (induction ats arbitrary: hints) (auto simp: value_ref_eq)
  show "encode_attrs_ref T ats = encode_attrs T ats"
    by (induction ats) (auto simp: value_ref_eq simp del: wseq.simps)
qed

lemma node_ref_size_eq:
  "node_ref_encoded_size_with_cache T n hints = node_encoded_size_with_cache T n hints"
  "content_ref_encoded_size T c hints = content_encoded_size T c hints"
  "nodes_ref_encoded_size T ns hints = nodes_encoded_size T ns hints"
  by (induction T n and T c and T ns arbitrary: hints and hints and hints
      rule: write_node_encode_content_write_nodes.induct)
    (simp_all add: attrs_ref_eq)

lemma write_node_ref_eq:
  "write_node_ref T n = write_node T n"
  "encode_content_ref T c = encode_content T c"
  "write_node_refs T ns = write_nodes T ns"
  by (induction T n and T c and T ns rule: write_node_encode_content_write_nodes.induct)
    (simp_all add: attrs_ref_eq del: wseq.simps)

lemma node_ref_plan_eq: "build_marshaled_node_ref_plan T n = build_marshaled_node_plan T n"
  by (simp add: build_marshaled_node_ref_plan_def build_marshaled_node_plan_def node_ref_size_eq)

end
