(* ===== verification/Decoder.thy ===== *)
theory Decoder
  imports Node
begin

text \<open>
  The decoder of the binary protocol (\<open>wacore/binary/src/decoder.rs\<close>). A \<open>Decoder\<close> is a buffer and
  a position that only moves forward, so a decoding function is a reader over the unread bytes.
  The string values that name a JID are read recursively with no bound in the source; the model
  gives that recursion as much fuel as there are bytes left, which is proved to be enough.
\<close>

section \<open>Primitive reads\<close>

fun read_u8 :: "(binary_error, u8) reader" where
  "read_u8 [] = Inl UnexpectedEof"
| "read_u8 (b # bs) = Inr (b, bs)"

fun read_u16_be :: "(binary_error, u16) reader" where
  "read_u16_be (a # b # bs) = Inr (push_bit 8 (ucast a) OR ucast b, bs)"
| "read_u16_be _ = Inl UnexpectedEof"

fun read_u20_be :: "(binary_error, u32) reader" where
  "read_u20_be (a # b # c # bs) =
     Inr (push_bit 16 (ucast a AND 0x0F) OR push_bit 8 (ucast b) OR ucast c, bs)"
| "read_u20_be _ = Inl UnexpectedEof"

fun read_u32_be :: "(binary_error, u32) reader" where
  "read_u32_be (a # b # c # d # bs) =
     Inr (push_bit 24 (ucast a) OR push_bit 16 (ucast b) OR push_bit 8 (ucast c) OR ucast d, bs)"
| "read_u32_be _ = Inl UnexpectedEof"

definition read_bytes :: "nat \<Rightarrow> (binary_error, bytes) reader" where
  "read_bytes len bs =
     (if len \<le> length bs then Inr (take len bs, drop len bs) else Inl UnexpectedEof)"

definition read_string :: "wire_env \<Rightarrow> nat \<Rightarrow> (binary_error, str) reader" where
  "read_string E len =
     rbind (read_bytes len) (\<lambda>bs.
       if smoothutf8 E bs then ret bs
       else if utf8_valid bs then ret bs else fail InvalidUtf8)"

definition read_list_size :: "u8 \<Rightarrow> (binary_error, nat) reader" where
  "read_list_size tg =
     (if tg = LIST_EMPTY then ret 0
      else if tg = LIST_8 then rmap unat read_u8
      else if tg = LIST_16 then rmap unat read_u16_be
      else fail (InvalidToken tg))"

section \<open>JIDs\<close>

text \<open>The four JID forms, over the reader of a string value.\<close>

definition read_jid_pair ::
  "(binary_error, str option) reader \<Rightarrow> (binary_error, jid) reader" where
  "read_jid_pair read_value_as_string =
     rbind (rmap (unwrap_or []) read_value_as_string) (\<lambda>u.
     rbind (rmap (unwrap_or []) read_value_as_string) (\<lambda>server_str.
       case parse_known server_str of
         None \<Rightarrow> fail (AttrParse (lit ''JID_PAIR unknown server: '' @ server_str))
       | Some sv \<Rightarrow>
           ret \<lparr>user = u, server = sv, agent = 0, device = 0, integrator = 0\<rparr>))"

definition domain_server :: "u8 \<Rightarrow> (binary_error, server) reader" where
  "domain_server ag =
     (if ag = 0 then ret Pn
      else if ag = 1 then ret Lid
      else if ag = 128 then ret Hosted
      else if ag = 129 then ret HostedLid
      else if ag AND 128 \<noteq> 0 \<and> ag AND 1 = 0 then ret Hosted
      else fail (AttrParse (lit ''read_ad_jid - Invalid domain type encoding '' @ itoa (unat ag))))"

definition read_ad_jid ::
  "(binary_error, str option) reader \<Rightarrow> (binary_error, jid) reader" where
  "read_ad_jid read_value_as_string =
     rbind read_u8 (\<lambda>ag.
     rbind (rmap ucast read_u8) (\<lambda>dev.
     rbind read_value_as_string (\<lambda>u.
       case u of
         None \<Rightarrow> fail InvalidNode
       | Some u \<Rightarrow>
           rmap (\<lambda>sv. \<lparr>user = u, server = sv, agent = 0, device = dev, integrator = 0\<rparr>)
             (domain_server ag))))"

definition read_interop_jid ::
  "(binary_error, str option) reader \<Rightarrow> (binary_error, jid) reader" where
  "read_interop_jid read_value_as_string =
     rbind read_value_as_string (\<lambda>u.
       case u of
         None \<Rightarrow> fail InvalidNode
       | Some u \<Rightarrow>
           rbind read_u16_be (\<lambda>dev.
           rbind read_u16_be (\<lambda>integ.
           rbind (rmap (unwrap_or []) read_value_as_string) (\<lambda>server_str.
             if server_str \<noteq> server_as_str Interop then fail InvalidNode
             else ret \<lparr>user = u, server = Interop, agent = 0, device = dev,
                      integrator = integ\<rparr>))))"

definition read_fb_jid ::
  "(binary_error, str option) reader \<Rightarrow> (binary_error, jid) reader" where
  "read_fb_jid read_value_as_string =
     rbind read_value_as_string (\<lambda>u.
       case u of
         None \<Rightarrow> fail InvalidNode
       | Some u \<Rightarrow>
           rbind read_u16_be (\<lambda>dev.
           rbind (rmap (unwrap_or []) read_value_as_string) (\<lambda>server_str.
             if server_str \<noteq> server_as_str Messenger then fail InvalidNode
             else ret \<lparr>user = u, server = Messenger, agent = 0, device = dev,
                      integrator = 0\<rparr>)))"

section \<open>Packed strings\<close>

definition NIBBLE_INVALID :: u8 where "NIBBLE_INVALID = 0xFF"

definition hex_glyph :: "u8 \<Rightarrow> u8" where
  "hex_glyph n = lit ''0123456789ABCDEF'' ! unat n"

definition HEX_PAIRS :: "u8 \<Rightarrow> u8 list" where
  "HEX_PAIRS b = [hex_glyph (drop_bit 4 b), hex_glyph (b AND 0x0F)]"

definition glyph :: "u8 \<Rightarrow> u8" where
  "glyph n =
     (if n \<le> 9 then 48 + n else if n = 10 then 45 else if n = 11 then 46
      else if n = 15 then 0 else NIBBLE_INVALID)"

definition NIBBLE_PAIRS :: "u8 \<Rightarrow> u8 list" where
  "NIBBLE_PAIRS b = [glyph (drop_bit 4 b), glyph (b AND 0x0F)]"

definition bad_pair :: "u8 \<Rightarrow> bool" where
  "bad_pair b \<longleftrightarrow> NIBBLE_INVALID \<in> set (NIBBLE_PAIRS b)"

definition unpack_nibble :: "u8 \<Rightarrow> (binary_error, u8) result" where
  "unpack_nibble v =
     (if v \<le> 9 then Inr (48 + v) else if v = 10 then Inr 45 else if v = 11 then Inr 46
      else if v = 15 then Inr 0 else Inl (InvalidToken v))"

definition decode_packed_hex :: "bytes \<Rightarrow> bytes" where
  "decode_packed_hex packed = concat (map HEX_PAIRS packed)"

definition check_nibble_pair :: "u8 \<Rightarrow> (binary_error, unit) result" where
  "check_nibble_pair b =
     bind_res (unpack_nibble (drop_bit 4 (b AND 0xF0))) (\<lambda>_.
     map_res (\<lambda>_. ()) (unpack_nibble (b AND 0x0F)))"

fun decode_packed_nibble :: "bytes \<Rightarrow> (binary_error, bytes) result" where
  "decode_packed_nibble [] = Inr []"
| "decode_packed_nibble (b # bs) =
     bind_res
       (if bad_pair b then check_nibble_pair b else Inr ())
       (\<lambda>_. map_res (\<lambda>out. NIBBLE_PAIRS b @ out) (decode_packed_nibble bs))"

definition read_packed :: "wire_env \<Rightarrow> u8 \<Rightarrow> (binary_error, str) reader" where
  "read_packed E tg =
     rbind read_u8 (\<lambda>packed_len_byte.
       let is_half_byte = packed_len_byte AND 0x80 \<noteq> 0; len = unat (packed_len_byte AND 0x7F) in
       if len = 0 then ret []
       else
         rbind (read_bytes len) (\<lambda>packed.
         rbind
           (if tg = HEX_8 then ret (decode_packed_hex packed)
            else if tg = NIBBLE_8 then lift_res (decode_packed_nibble packed)
            else fail (InvalidToken tg))
           (\<lambda>buf.
              let s = (if is_half_byte \<and> length buf > 0 then butlast buf else buf)
              in if smoothutf8 E s then ret s else fail Panicked)))"

section \<open>Values\<close>

definition read_value_as_string_from_tag ::
  "wire_env \<Rightarrow> (binary_error, str option) reader \<Rightarrow> u8 \<Rightarrow> (binary_error, str option) reader" where
  "read_value_as_string_from_tag E read_value_as_string tg =
     (if tg = LIST_EMPTY then ret None
      else if tg = BINARY_8 then rbind (rmap unat read_u8) (\<lambda>n. rmap Some (read_string E n))
      else if tg = BINARY_20 then rbind (rmap unat read_u20_be) (\<lambda>n. rmap Some (read_string E n))
      else if tg = BINARY_32 then rbind (rmap unat read_u32_be) (\<lambda>n. rmap Some (read_string E n))
      else if tg = JID_PAIR then
        rmap (Some \<circ> jid_ref_to_compact) (read_jid_pair read_value_as_string)
      else if tg = AD_JID then
        rmap (Some \<circ> jid_ref_to_compact) (read_ad_jid read_value_as_string)
      else if tg = INTEROP_JID then
        rmap (Some \<circ> jid_ref_to_compact) (read_interop_jid read_value_as_string)
      else if tg = FB_JID then
        rmap (Some \<circ> jid_ref_to_compact) (read_fb_jid read_value_as_string)
      else if tg = NIBBLE_8 \<or> tg = HEX_8 then rmap Some (read_packed E tg)
      else if DICTIONARY_0 \<le> tg \<and> tg \<le> DICTIONARY_3 then
        rbind read_u8 (\<lambda>index.
          case get_double_token (tables E) (tg - DICTIONARY_0) index of
            Some s \<Rightarrow> ret (Some s)
          | None \<Rightarrow> fail (InvalidToken tg))
      else
        (case get_single_token (tables E) tg of
           Some s \<Rightarrow> ret (Some s)
         | None \<Rightarrow> fail (InvalidToken tg)))"

fun read_value_as_string_fuel :: "nat \<Rightarrow> wire_env \<Rightarrow> (binary_error, str option) reader" where
  "read_value_as_string_fuel 0 E = fail StackExhausted"
| "read_value_as_string_fuel (Suc n) E =
     rbind read_u8 (read_value_as_string_from_tag E (read_value_as_string_fuel n E))"

definition read_value_as_string :: "wire_env \<Rightarrow> (binary_error, str option) reader" where
  "read_value_as_string E bs = read_value_as_string_fuel (Suc (length bs)) E bs"

definition read_value :: "wire_env \<Rightarrow> (binary_error, node_value option) reader" where
  "read_value E =
     rbind read_u8 (\<lambda>tg.
       if tg = LIST_EMPTY then ret None
       else if tg = BINARY_8 then
         rbind (rmap unat read_u8) (\<lambda>n. rmap (Some \<circ> String) (read_string E n))
       else if tg = BINARY_20 then
         rbind (rmap unat read_u20_be) (\<lambda>n. rmap (Some \<circ> String) (read_string E n))
       else if tg = BINARY_32 then
         rbind (rmap unat read_u32_be) (\<lambda>n. rmap (Some \<circ> String) (read_string E n))
       else if tg = JID_PAIR then rmap (Some \<circ> JidVal) (read_jid_pair (read_value_as_string E))
       else if tg = AD_JID then rmap (Some \<circ> JidVal) (read_ad_jid (read_value_as_string E))
       else if tg = INTEROP_JID then rmap (Some \<circ> JidVal) (read_interop_jid (read_value_as_string E))
       else if tg = FB_JID then rmap (Some \<circ> JidVal) (read_fb_jid (read_value_as_string E))
       else if tg = NIBBLE_8 \<or> tg = HEX_8 then rmap (Some \<circ> String) (read_packed E tg)
       else if DICTIONARY_0 \<le> tg \<and> tg \<le> DICTIONARY_3 then
         rbind read_u8 (\<lambda>index.
           case get_double_token (tables E) (tg - DICTIONARY_0) index of
             Some s \<Rightarrow> ret (Some (String s))
           | None \<Rightarrow> fail (InvalidToken tg))
       else
         (case get_single_token (tables E) tg of
            Some s \<Rightarrow> ret (Some (String s))
          | None \<Rightarrow> fail (InvalidToken tg)))"

section \<open>Nodes\<close>

definition MAX_NODE_DEPTH :: nat where "MAX_NODE_DEPTH = 128"

definition read_attribute :: "wire_env \<Rightarrow> (binary_error, str \<times> node_value) reader" where
  "read_attribute E =
     rbind (read_value_as_string E) (\<lambda>key.
       case key of
         None \<Rightarrow> fail NonStringKey
       | Some key \<Rightarrow> rmap (\<lambda>v. (key, unwrap_or (String []) v)) (read_value E))"

definition read_attributes :: "wire_env \<Rightarrow> nat \<Rightarrow> (binary_error, (str \<times> node_value) list) reader" where
  "read_attributes E sz = rtimes sz (read_attribute E)"

datatype open_content = NoContent | Children nat | Scalar node_content

text \<open>The scalar or list content behind its tag, over the reader of a child node.\<close>

definition read_content_from_tag ::
  "wire_env \<Rightarrow> (binary_error, node) reader \<Rightarrow> u8 \<Rightarrow> (binary_error, node_content option) reader" where
  "read_content_from_tag E read_child tg =
     (if tg = LIST_EMPTY then ret None
      else if tg = LIST_8 \<or> tg = LIST_16 then
        rbind (read_list_size tg) (\<lambda>sz. rmap (Some \<circ> Nodes) (rtimes sz read_child))
      else if tg = BINARY_8 then rbind (rmap unat read_u8) (\<lambda>n. rmap (Some \<circ> Bytes) (read_bytes n))
      else if tg = BINARY_20 then rbind (rmap unat read_u20_be) (\<lambda>n. rmap (Some \<circ> Bytes) (read_bytes n))
      else if tg = BINARY_32 then rbind (rmap unat read_u32_be) (\<lambda>n. rmap (Some \<circ> Bytes) (read_bytes n))
      else
        rmap (map_option Text) (read_value_as_string_from_tag E (read_value_as_string E) tg))"

text \<open>
  The head of a node. The list tags are taken before \<open>read_content_from_tag\<close> is called, so the
  reader of a child it is given never runs.
\<close>

definition read_node_open ::
  "wire_env \<Rightarrow> (binary_error, str \<times> (str \<times> node_value) list \<times> open_content) reader" where
  "read_node_open E =
     rbind (rbind read_u8 read_list_size) (\<lambda>list_size.
       if list_size = 0 then fail InvalidNode
       else
         rbind (read_value_as_string E) (\<lambda>tg.
           case tg of
             None \<Rightarrow> fail InvalidNode
           | Some tg \<Rightarrow>
               rbind (read_attributes E ((list_size - 1) div 2)) (\<lambda>ats.
               rmap (\<lambda>c. (tg, ats, c))
                 (if even list_size then
                    rbind read_u8 (\<lambda>content_tag.
                      if content_tag = LIST_EMPTY then ret NoContent
                      else if content_tag = LIST_8 \<or> content_tag = LIST_16 then
                        rmap Children (read_list_size content_tag)
                      else
                        rmap (\<lambda>c. case c of Some s \<Rightarrow> Scalar s | None \<Rightarrow> NoContent)
                          (read_content_from_tag E (fail Panicked) content_tag))
                  else ret NoContent))))"

function read_node_ref_at :: "wire_env \<Rightarrow> nat \<Rightarrow> (binary_error, node) reader" where
  "read_node_ref_at E depth =
     (if depth \<ge> MAX_NODE_DEPTH then fail MaxDepthExceeded
      else
        rbind (read_node_open E) (\<lambda>(tg, ats, c).
          case c of
            NoContent \<Rightarrow> ret (Node tg ats None)
          | Scalar s \<Rightarrow> ret (Node tg ats (Some s))
          | Children count \<Rightarrow>
              rmap (\<lambda>nodes. Node tg ats (Some (Nodes nodes)))
                (rtimes count (read_node_ref_at E (Suc depth)))))"
  by pat_completeness auto
termination
  by (relation "measure (\<lambda>(E, depth). MAX_NODE_DEPTH - depth)") auto

declare read_node_ref_at.simps [simp del]

definition read_node_ref :: "wire_env \<Rightarrow> (binary_error, node) reader" where
  "read_node_ref E = read_node_ref_at E 0"

section \<open>The measuring pass\<close>

definition skip_value_from_tag :: "wire_env \<Rightarrow> u8 \<Rightarrow> (binary_error, unit) reader" where
  "skip_value_from_tag E tg =
     (if tg = LIST_EMPTY then ret ()
      else if tg = BINARY_8 then rbind (rmap unat read_u8) (\<lambda>n. rmap (\<lambda>_. ()) (read_string E n))
      else if tg = BINARY_20 then rbind (rmap unat read_u20_be) (\<lambda>n. rmap (\<lambda>_. ()) (read_string E n))
      else if tg = BINARY_32 then rbind (rmap unat read_u32_be) (\<lambda>n. rmap (\<lambda>_. ()) (read_string E n))
      else if tg = JID_PAIR then rmap (\<lambda>_. ()) (read_jid_pair (read_value_as_string E))
      else if tg = AD_JID then rmap (\<lambda>_. ()) (read_ad_jid (read_value_as_string E))
      else if tg = INTEROP_JID then rmap (\<lambda>_. ()) (read_interop_jid (read_value_as_string E))
      else if tg = FB_JID then rmap (\<lambda>_. ()) (read_fb_jid (read_value_as_string E))
      else if tg = NIBBLE_8 \<or> tg = HEX_8 then
        rbind (rmap (\<lambda>b. unat (b AND 0x7F)) read_u8) (\<lambda>len.
        rbind (read_bytes len) (\<lambda>packed.
          if tg = NIBBLE_8 then
            (case find bad_pair packed of
               Some b \<Rightarrow> lift_res (check_nibble_pair b)
             | None \<Rightarrow> ret ())
          else ret ()))
      else if DICTIONARY_0 \<le> tg \<and> tg \<le> DICTIONARY_3 then
        rbind read_u8 (\<lambda>index.
          case get_double_token (tables E) (tg - DICTIONARY_0) index of
            Some s \<Rightarrow> ret ()
          | None \<Rightarrow> fail (InvalidToken tg))
      else
        (case get_single_token (tables E) tg of
           Some s \<Rightarrow> ret ()
         | None \<Rightarrow> fail (InvalidToken tg)))"

definition skip_value :: "wire_env \<Rightarrow> (binary_error, unit) reader" where
  "skip_value E = rbind read_u8 (skip_value_from_tag E)"

definition skip_scalar_content :: "wire_env \<Rightarrow> u8 \<Rightarrow> (binary_error, unit) reader" where
  "skip_scalar_content E tg =
     (if tg = BINARY_8 then rbind (rmap unat read_u8) (\<lambda>n. rmap (\<lambda>_. ()) (read_bytes n))
      else if tg = BINARY_20 then rbind (rmap unat read_u20_be) (\<lambda>n. rmap (\<lambda>_. ()) (read_bytes n))
      else if tg = BINARY_32 then rbind (rmap unat read_u32_be) (\<lambda>n. rmap (\<lambda>_. ()) (read_bytes n))
      else skip_value_from_tag E tg)"

definition skip_attribute :: "wire_env \<Rightarrow> (binary_error, unit) reader" where
  "skip_attribute E =
     rbind read_u8 (\<lambda>key_token.
       if key_token = LIST_EMPTY then fail NonStringKey
       else rbind (skip_value_from_tag E key_token) (\<lambda>_. skip_value E))"

definition skip_node_open :: "wire_env \<Rightarrow> (binary_error, nat) reader" where
  "skip_node_open E =
     rbind (rbind read_u8 read_list_size) (\<lambda>list_size.
       if list_size = 0 then fail InvalidNode
       else
         rbind read_u8 (\<lambda>tag_token.
           if tag_token = LIST_EMPTY then fail InvalidNode
           else
             rbind (skip_value_from_tag E tag_token) (\<lambda>_.
             rbind (rtimes ((list_size - 1) div 2) (skip_attribute E)) (\<lambda>_.
               if odd list_size then ret 0
               else
                 rbind read_u8 (\<lambda>content_tag.
                   if content_tag = LIST_EMPTY then ret 0
                   else if content_tag = LIST_8 \<or> content_tag = LIST_16 then
                     read_list_size content_tag
                   else rmap (\<lambda>_. 0) (skip_scalar_content E content_tag))))))"

function skip_node_at :: "wire_env \<Rightarrow> nat \<Rightarrow> (binary_error, unit) reader" where
  "skip_node_at E depth =
     (if depth \<ge> MAX_NODE_DEPTH then fail MaxDepthExceeded
      else
        rbind (skip_node_open E) (\<lambda>children.
          rmap (\<lambda>_. ()) (rtimes children (skip_node_at E (Suc depth)))))"
  by pat_completeness auto
termination
  by (relation "measure (\<lambda>(E, depth). MAX_NODE_DEPTH - depth)") auto

declare skip_node_at.simps [simp del]

section \<open>Every reader consumes, and is stable under more input\<close>

lemma ex_prefix:
  "\<exists>u. a # b # bs = u @ bs" "\<exists>u. a # b # c # bs = u @ bs" "\<exists>u. a # b # c # d # bs = u @ bs" "\<exists>u. bs = u @ drop n bs"
  by (metis append_Cons append_Nil append_take_drop_id)+

lemma consumes_read_u8 [consumes_intro]: "consumes 1 read_u8"
  by (auto simp: consumes_def elim!: read_u8.elims intro!: exI [of _ "[a]" for a])

lemma consumes_read_u16 [consumes_intro]: "consumes 0 read_u16_be"
  by (auto simp: consumes_def ex_prefix elim!: read_u16_be.elims)

lemma consumes_read_u20 [consumes_intro]: "consumes 0 read_u20_be"
  by (auto simp: consumes_def ex_prefix elim!: read_u20_be.elims)

lemma consumes_read_u32 [consumes_intro]: "consumes 0 read_u32_be"
  by (auto simp: consumes_def ex_prefix elim!: read_u32_be.elims)

lemma consumes_read_bytes [consumes_intro]: "consumes 0 (read_bytes n)"
  by (auto simp: consumes_def read_bytes_def ex_prefix split: if_splits)

lemma stable_read_u8 [stable_intro]: "stable UnexpectedEof read_u8"
  by (auto simp: stable_def elim!: read_u8.elims)

lemma stable_read_u16 [stable_intro]: "stable UnexpectedEof read_u16_be"
  by (auto simp: stable_def elim!: read_u16_be.elims)

lemma stable_read_u20 [stable_intro]: "stable UnexpectedEof read_u20_be"
  by (auto simp: stable_def elim!: read_u20_be.elims)

lemma stable_read_u32 [stable_intro]: "stable UnexpectedEof read_u32_be"
  by (auto simp: stable_def elim!: read_u32_be.elims)

lemma stable_read_bytes [stable_intro]: "stable UnexpectedEof (read_bytes n)"
  by (auto simp: stable_def read_bytes_def split: if_splits)

text \<open>\<open>consumes 0\<close> for composite readers: the weakest form is closed under everything.\<close>

lemma consumes0_rbind [consumes_intro]:
  "consumes 0 p \<Longrightarrow> (\<And>a. consumes 0 (f a)) \<Longrightarrow> consumes 0 (rbind p f)"
  using consumes_rbind [of 0 p 0 f] by simp

lemma consumes0_read_u8 [consumes_intro]: "consumes 0 read_u8"
  using consumes_weaken [OF consumes_read_u8] by simp

lemma consumes0_lift_res [consumes_intro]: "consumes 0 (lift_res r)"
  by (auto simp: consumes_def lift_res_def map_res_Inr_iff)

lemma consumes0_rtimes [consumes_intro]: "consumes 0 p \<Longrightarrow> consumes 0 (rtimes n p)"
  using consumes_rtimes [of 0 p n] by simp

lemma consumes0_if [consumes_intro]:
  "(b \<Longrightarrow> consumes n p) \<Longrightarrow> (\<not> b \<Longrightarrow> consumes n q) \<Longrightarrow> consumes n (if b then p else q)"
  by simp

lemma consumes0_option [consumes_intro]:
  "consumes n p \<Longrightarrow> (\<And>a. consumes n (f a)) \<Longrightarrow> consumes n (case x of None \<Rightarrow> p | Some a \<Rightarrow> f a)"
  by (cases x) simp_all

lemmas scalar_reader_defs = read_string_def read_list_size_def read_packed_def Let_def

lemmas jid_reader_defs =
  read_jid_pair_def read_ad_jid_def read_interop_jid_def read_fb_jid_def domain_server_def

lemma consumes_scalar [consumes_intro]:
  "consumes 0 (read_string E n)" "consumes 0 (read_list_size tg)" "consumes 0 (read_packed E tg)"
  unfolding scalar_reader_defs by (intro consumes_intro)+

lemma stable_scalar [stable_intro]:
  "stable UnexpectedEof (read_string E n)" "stable UnexpectedEof (read_list_size tg)"
  "stable UnexpectedEof (read_packed E tg)"
  unfolding scalar_reader_defs by (intro stable_intro)+

lemma consumes_jid [consumes_intro]:
  assumes "consumes 0 p"
  shows "consumes 0 (read_jid_pair p)" "consumes 0 (read_ad_jid p)"
    "consumes 0 (read_interop_jid p)" "consumes 0 (read_fb_jid p)"
  unfolding jid_reader_defs by (intro consumes_intro assms)+

lemma stable_jid [stable_intro]:
  assumes "stable UnexpectedEof p"
  shows "stable UnexpectedEof (read_jid_pair p)" "stable UnexpectedEof (read_ad_jid p)"
    "stable UnexpectedEof (read_interop_jid p)" "stable UnexpectedEof (read_fb_jid p)"
  unfolding jid_reader_defs by (intro stable_intro assms)+

lemma consumes_from_tag [consumes_intro]:
  "consumes 0 p \<Longrightarrow> consumes 0 (read_value_as_string_from_tag E p tg)"
  unfolding read_value_as_string_from_tag_def by (intro consumes_intro)

lemma stable_from_tag [stable_intro]:
  "stable UnexpectedEof p \<Longrightarrow> stable UnexpectedEof (read_value_as_string_from_tag E p tg)"
  unfolding read_value_as_string_from_tag_def by (intro stable_intro)

lemma consumes_fuel [consumes_intro]: "consumes 0 (read_value_as_string_fuel n E)"
  by (induction n) (auto intro!: consumes_intro)

lemma stable_fuel: "stable UnexpectedEof (read_value_as_string_fuel n E)"
  by (induction n) (auto intro!: stable_intro)

section \<open>The fuel of the string reader is enough\<close>

text \<open>Two readers agree up to \<open>k\<close> when they do the same on every input of at most \<open>k\<close> bytes.\<close>

definition agree :: "nat \<Rightarrow> ('e, 'a) reader \<Rightarrow> ('e, 'a) reader \<Rightarrow> bool" where
  "agree k p q \<longleftrightarrow> (\<forall>bs. length bs \<le> k \<longrightarrow> p bs = q bs)"

named_theorems agree_intro

lemma agree_refl [agree_intro]: "agree k p p"
  by (simp add: agree_def)

lemma agree_rbind [agree_intro]:
  assumes "agree k p q" and "consumes 0 q" and "\<And>a. agree k (f a) (g a)"
  shows "agree k (rbind p f) (rbind q g)"
  unfolding agree_def
proof (intro allI impI)
  fix bs :: bytes
  assume bs: "length bs \<le> k"
  then have p: "p bs = q bs" using assms(1) by (simp add: agree_def)
  show "rbind p f bs = rbind q g bs"
  proof (cases "q bs")
    case (Inr r)
    obtain a bs' where r: "r = (a, bs')" by (cases r)
    have "length bs' \<le> k" using consumesD [OF assms(2), of bs a bs'] Inr r bs by simp
    then have "f a bs' = g a bs'" using assms(3) by (simp add: agree_def)
    then show ?thesis using Inr r p by (simp add: rbind_def)
  qed (simp add: rbind_def p)
qed

lemma agree_rmap [agree_intro]: "agree k p q \<Longrightarrow> agree k (rmap h p) (rmap h q)"
  by (simp add: agree_def rmap_def)

lemma agree_if [agree_intro]:
  "(b \<Longrightarrow> agree k p q) \<Longrightarrow> (\<not> b \<Longrightarrow> agree k p' q') \<Longrightarrow> agree k (if b then p else p') (if b then q else q')"
  by simp

lemma agree_option [agree_intro]:
  "agree k p q \<Longrightarrow> (\<And>a. agree k (f a) (g a)) \<Longrightarrow>
   agree k (case x of None \<Rightarrow> p | Some a \<Rightarrow> f a) (case x of None \<Rightarrow> q | Some a \<Rightarrow> g a)"
  by (cases x) simp_all

lemma agree_jid [agree_intro]:
  assumes "agree k p q" and "consumes 0 q"
  shows "agree k (read_jid_pair p) (read_jid_pair q)" "agree k (read_ad_jid p) (read_ad_jid q)"
    "agree k (read_interop_jid p) (read_interop_jid q)" "agree k (read_fb_jid p) (read_fb_jid q)"
  unfolding read_jid_pair_def read_ad_jid_def read_interop_jid_def read_fb_jid_def
  by (intro agree_intro consumes_intro assms)+

lemma agree_from_tag [agree_intro]:
  "agree k p q \<Longrightarrow> consumes 0 q \<Longrightarrow>
   agree k (read_value_as_string_from_tag E p tg) (read_value_as_string_from_tag E q tg)"
  unfolding read_value_as_string_from_tag_def by (intro agree_intro)

lemma agree_read_u8:
  assumes "\<And>a. agree k (f a) (g a)"
  shows "agree (Suc k) (rbind read_u8 f) (rbind read_u8 g)"
  unfolding agree_def
proof (intro allI impI)
  fix bs :: bytes
  assume "length bs \<le> Suc k"
  then show "rbind read_u8 f bs = rbind read_u8 g bs"
    using assms by (cases bs) (auto simp: rbind_def agree_def)
qed

lemma agree_fuel: "k < n \<Longrightarrow> k < m \<Longrightarrow> agree k (read_value_as_string_fuel n E) (read_value_as_string_fuel m E)"
proof (induction k arbitrary: n m)
  case 0
  then show ?case by (cases n; cases m) (auto simp: agree_def rbind_def)
next
  case (Suc k)
  then obtain n' m' where "n = Suc n'" "m = Suc m'" by (cases n; cases m) auto
  with Suc show ?case
    by (auto intro!: agree_read_u8 agree_intro consumes_intro)
qed

lemma read_value_as_string_fuel:
  "length bs < n \<Longrightarrow> read_value_as_string_fuel n E bs = read_value_as_string E bs"
  using agree_fuel [of "length bs" n "Suc (length bs)" E]
  by (simp add: agree_def read_value_as_string_def del: read_value_as_string_fuel.simps)

text \<open>The recursion of the source, with no fuel in it.\<close>

lemma read_value_as_string_rec:
  "read_value_as_string E = rbind read_u8 (read_value_as_string_from_tag E (read_value_as_string E))"
proof (rule ext)
  fix bs :: bytes
  have "agree (length bs) (read_value_as_string_fuel (Suc (length bs)) E) (read_value_as_string E)"
    by (auto simp: agree_def read_value_as_string_fuel simp del: read_value_as_string_fuel.simps)
  moreover have "consumes 0 (read_value_as_string E)"
    using consumes_fuel unfolding consumes_def read_value_as_string_def by blast
  ultimately have "agree (Suc (length bs)) (read_value_as_string_fuel (Suc (Suc (length bs))) E)
      (rbind read_u8 (read_value_as_string_from_tag E (read_value_as_string E)))"
    unfolding read_value_as_string_fuel.simps(2) [of "Suc (length bs)"]
    by (intro agree_read_u8 agree_intro) 
  then show "read_value_as_string E bs =
      rbind read_u8 (read_value_as_string_from_tag E (read_value_as_string E)) bs"
    by (simp add: agree_def read_value_as_string_fuel del: read_value_as_string_fuel.simps)
qed

lemma consumes_value_string [consumes_intro]: "consumes 0 (read_value_as_string E)"
  using consumes_fuel unfolding consumes_def read_value_as_string_def by blast

lemma stable_value_string [stable_intro]: "stable UnexpectedEof (read_value_as_string E)"
  unfolding stable_def
proof (intro conjI allI impI)
  fix bs a r xs
  assume "read_value_as_string E bs = Inr (a, r)"
  then have "read_value_as_string_fuel (Suc (length (bs @ xs))) E bs = Inr (a, r)"
    by (simp add: read_value_as_string_fuel del: read_value_as_string_fuel.simps)
  then show "read_value_as_string E (bs @ xs) = Inr (a, r @ xs)"
    unfolding read_value_as_string_def by (rule stable_Inr [OF stable_fuel])
next
  fix bs e xs
  assume "read_value_as_string E bs = Inl e" and e: "e \<noteq> UnexpectedEof"
  then have "read_value_as_string_fuel (Suc (length (bs @ xs))) E bs = Inl e"
    by (simp add: read_value_as_string_fuel del: read_value_as_string_fuel.simps)
  then show "read_value_as_string E (bs @ xs) = Inl e"
    unfolding read_value_as_string_def using e by (rule stable_Inl [OF stable_fuel])
qed

lemma stable_read_value [stable_intro]: "stable UnexpectedEof (read_value E)"
  unfolding read_value_def by (intro stable_intro)

lemma stable_read_content [stable_intro]:
  "stable UnexpectedEof p \<Longrightarrow> stable UnexpectedEof (read_content_from_tag E p tg)"
  unfolding read_content_from_tag_def by (intro stable_intro)

lemma stable_read_attributes [stable_intro]: "stable UnexpectedEof (read_attributes E n)"
  unfolding read_attributes_def read_attribute_def by (intro stable_intro)

lemma stable_read_node_open [stable_intro]: "stable UnexpectedEof (read_node_open E)"
  unfolding read_node_open_def by (intro stable_intro)

lemma stable_open_content [stable_intro]:
  "stable eof p \<Longrightarrow> (\<And>n. stable eof (f n)) \<Longrightarrow> (\<And>s. stable eof (g s)) \<Longrightarrow>
   stable eof (case c of NoContent \<Rightarrow> p | Children n \<Rightarrow> f n | Scalar s \<Rightarrow> g s)"
  by (cases c) simp_all

lemma stable_prod [stable_intro]:
  "(\<And>x y. stable eof (f x y)) \<Longrightarrow> stable eof (case a of (x, y) \<Rightarrow> f x y)"
  by (cases a) simp

lemma stable_read_node_ref_at [stable_intro]: "stable UnexpectedEof (read_node_ref_at E depth)"
proof (induction E depth rule: read_node_ref_at.induct)
  case (1 E depth)
  show ?case
    by (subst read_node_ref_at.simps) (intro stable_intro 1)
qed

lemma consumes_read_value [consumes_intro]: "consumes 0 (read_value E)"
  unfolding read_value_def by (intro consumes_intro)

lemma consumes_read_content [consumes_intro]:
  "consumes 0 p \<Longrightarrow> consumes 0 (read_content_from_tag E p tg)"
  unfolding read_content_from_tag_def by (intro consumes_intro)

section \<open>Packed values decode to ASCII\<close>

lemma nibbles_less: "drop_bit 4 b < (16 :: u8)" "b AND 0x0F < (16 :: u8)"
proof -
  have "unat (drop_bit 4 b) = unat b div 16"
    unfolding unat_drop_bit_eq unfolding drop_bit_eq_div by simp
  then show "drop_bit 4 b < (16 :: u8)" by (simp add: word_less_nat_alt less_mult_imp_div_less)
  have "b AND 0x0F \<le> 0x0F" by (rule word_and_le1)
  then show "b AND 0x0F < (16 :: u8)" by (rule le_less_trans) simp
qed

lemma high_nibble: "drop_bit 4 (b AND 0xF0) = drop_bit 4 (b :: u8)"
proof (rule bit_word_eqI)
  fix n assume "n < LENGTH(8)"
  then have "n \<in> {0, 1, 2, 3, 4, 5, 6, 7}" by auto
  then show "bit (drop_bit 4 (b AND 0xF0)) n = bit (drop_bit 4 b) n"
    by (auto simp: bit_simps)
qed

lemma glyph_cases:
  assumes "n < 16"
  shows "(glyph n = NIBBLE_INVALID \<and> unpack_nibble n = Inl (InvalidToken n)) \<or>
         (is_ascii (glyph n) \<and> glyph n \<noteq> NIBBLE_INVALID \<and> unpack_nibble n = Inr (glyph n))"
proof -
  have "unat n < 16" using assms by (simp add: word_less_nat_alt)
  then have "unat n = 0 \<or> unat n = 1 \<or> unat n = 2 \<or> unat n = 3 \<or> unat n = 4 \<or> unat n = 5 \<or>
      unat n = 6 \<or> unat n = 7 \<or> unat n = 8 \<or> unat n = 9 \<or> unat n = 10 \<or> unat n = 11 \<or>
      unat n = 12 \<or> unat n = 13 \<or> unat n = 14 \<or> unat n = 15" by presburger
  then have "n \<in> {0, 1, 2, 3, 4, 5, 6, 7, 8, 9, 10, 11, 12, 13, 14, 15}"
    by (simp add: word_unat_eq_iff)
  then show ?thesis by (auto simp: glyph_def unpack_nibble_def NIBBLE_INVALID_def is_ascii_def)
qed

lemma bad_pair_check: "bad_pair b \<longleftrightarrow> (\<exists>e. check_nibble_pair b = Inl e)"
  unfolding check_nibble_pair_def high_nibble bad_pair_def NIBBLE_PAIRS_def
  using glyph_cases [OF nibbles_less(1), of b] glyph_cases [OF nibbles_less(2), of b] by auto

lemma good_pair_ascii: "\<not> bad_pair b \<Longrightarrow> list_all is_ascii (NIBBLE_PAIRS b)"
  using glyph_cases [OF nibbles_less(1), of b] glyph_cases [OF nibbles_less(2), of b]
  by (auto simp: bad_pair_def NIBBLE_PAIRS_def)

lemma decode_packed_nibble_eq:
  "decode_packed_nibble bs =
     (case find bad_pair bs of
        Some b \<Rightarrow> bind_res (check_nibble_pair b) (\<lambda>_. Inr [])
      | None \<Rightarrow> Inr (concat (map NIBBLE_PAIRS bs)))"
proof (induction bs)
  case (Cons b bs)
  show ?case
  proof (cases "bad_pair b")
    case True
    then obtain e where "check_nibble_pair b = Inl e" using bad_pair_check by blast
    then show ?thesis using True by simp
  next
    case False
    show ?thesis
    proof (cases "find bad_pair bs")
      case None
      then show ?thesis using False Cons.IH by simp
    next
      case (Some c)
      then obtain e where "check_nibble_pair c = Inl e"
        using bad_pair_check by (auto simp: find_Some_iff)
      then show ?thesis using False Cons.IH Some by simp
    qed
  qed
qed simp

lemma decode_packed_nibble_ascii:
  "decode_packed_nibble bs = Inr out \<Longrightarrow> list_all is_ascii out"
proof (induction bs arbitrary: out)
  case (Cons b bs)
  then obtain out' where out: "\<not> bad_pair b" "decode_packed_nibble bs = Inr out'"
      "out = NIBBLE_PAIRS b @ out'"
    using bad_pair_check [of b] by (auto simp: bind_res_Inr_iff map_res_Inr_iff split: if_splits)
  with Cons.IH [OF out(2)] good_pair_ascii [OF out(1)] show ?case by simp
qed simp

lemma hex_glyph_ascii: "n < 16 \<Longrightarrow> is_ascii (hex_glyph n)"
proof -
  assume "n < 16"
  then have "unat n < length (lit ''0123456789ABCDEF'')" by (simp add: word_less_nat_alt)
  moreover have "list_all is_ascii (lit ''0123456789ABCDEF'')" by (simp add: is_ascii_def)
  ultimately show ?thesis by (auto simp: hex_glyph_def list_all_length simp del: lit_Cons)
qed

lemma decode_packed_hex_ascii: "list_all is_ascii (decode_packed_hex bs)"
  using nibbles_less by (induction bs) (auto simp: decode_packed_hex_def HEX_PAIRS_def hex_glyph_ascii)

lemma list_all_butlast: "list_all P xs \<Longrightarrow> list_all P (butlast xs)"
  by (auto simp: list_all_iff dest: in_set_butlastD)

text \<open>With a correct validator the check on an unpacked string never fails.\<close>

lemma read_packed_eq:
  assumes "wire_env_ok E" and "tg = NIBBLE_8 \<or> tg = HEX_8"
  shows "read_packed E tg =
     rbind read_u8 (\<lambda>lb.
       let half = lb AND 0x80 \<noteq> 0; len = unat (lb AND 0x7F) in
       if len = 0 then ret []
       else
         rbind (read_bytes len) (\<lambda>packed.
         rmap (\<lambda>buf. if half \<and> length buf > 0 then butlast buf else buf)
           (if tg = HEX_8 then ret (decode_packed_hex packed)
            else lift_res (decode_packed_nibble packed))))"
proof -
  have ascii: "rbind (if tg = HEX_8 then ret (decode_packed_hex packed)
        else if tg = NIBBLE_8 then lift_res (decode_packed_nibble packed) else fail (InvalidToken tg))
      (\<lambda>buf. let s = if half \<and> 0 < length buf then butlast buf else buf
             in if smoothutf8 E s then ret s else fail Panicked) =
      rmap (\<lambda>buf. if half \<and> length buf > 0 then butlast buf else buf)
        (if tg = HEX_8 then ret (decode_packed_hex packed) else lift_res (decode_packed_nibble packed))"
    for packed half
  proof -
    have ok: "smoothutf8 E (if half \<and> 0 < length buf then butlast buf else buf)"
      if "list_all is_ascii buf" for buf
      using that assms(1) list_all_butlast [of is_ascii buf]
      by (simp add: wire_env_utf8 utf8_valid_ascii)
    show ?thesis
    proof (cases "tg = HEX_8")
      case True
      with ok [OF decode_packed_hex_ascii] show ?thesis by (simp add: Let_def)
    next
      case False
      then have tg: "tg = NIBBLE_8" using assms(2) by simp
      show ?thesis
        using ok [OF decode_packed_nibble_ascii] False tg
        by (cases "decode_packed_nibble packed")
          (auto simp: fun_eq_iff lift_res_def rbind_def rmap_def ret_def Let_def)
    qed
  qed
  show ?thesis unfolding read_packed_def ascii ..
qed

section \<open>The measuring pass is the decoder without its results\<close>

lemma rmap_id: "rmap (\<lambda>a. a) p = p"
proof (rule ext)
  fix bs
  show "rmap (\<lambda>a. a) p bs = p bs" by (cases "p bs") (auto simp: rmap_def)
qed

lemma rmap_unit_rmap: "rmap (\<lambda>_. ()) (rmap h p) = rmap (\<lambda>_. ()) p"
  by (simp add: rmap_rmap)

lemma rmap_token:
  "rmap h (case x of None \<Rightarrow> fail e | Some a \<Rightarrow> ret (f a)) = (case x of None \<Rightarrow> fail e | Some a \<Rightarrow> ret (h (f a)))"
  by (cases x) simp_all

lemma skip_packed:
  assumes "wire_env_ok E" and "tg = NIBBLE_8 \<or> tg = HEX_8"
  shows "rmap (\<lambda>_. ()) (read_packed E tg) =
     rbind (rmap (\<lambda>b. unat (b AND 0x7F)) read_u8) (\<lambda>len.
     rbind (read_bytes len) (\<lambda>packed.
       if tg = NIBBLE_8 then
         (case find bad_pair packed of Some b \<Rightarrow> lift_res (check_nibble_pair b) | None \<Rightarrow> ret ())
       else ret ()))"
proof -
  have nib: "rmap (\<lambda>_. ()) (lift_res (decode_packed_nibble packed)) =
      (case find bad_pair packed of Some b \<Rightarrow> lift_res (check_nibble_pair b) | None \<Rightarrow> ret ())" for packed
  proof (cases "find bad_pair packed")
    case (Some b)
    then obtain e where "check_nibble_pair b = Inl e" using bad_pair_check by (auto simp: find_Some_iff)
    then show ?thesis
      using Some by (auto simp: decode_packed_nibble_eq fun_eq_iff lift_res_def rmap_def)
  qed (auto simp: decode_packed_nibble_eq fun_eq_iff lift_res_def rmap_def ret_def)
  have zero: "rbind (read_bytes 0) f = f []" for f :: "bytes \<Rightarrow> (binary_error, unit) reader"
    by (auto simp: fun_eq_iff rbind_def read_bytes_def)
  have tags: "NIBBLE_8 \<noteq> HEX_8" by (simp add: tag_defs)
  show ?thesis
    unfolding read_packed_eq [OF assms] rmap_rbind rbind_rmap Let_def rmap_if rmap_unit_rmap nib
    by (rule arg_cong [of _ _ "rbind read_u8"], rule ext) (use assms(2) tags in \<open>auto simp: zero\<close>)
qed

lemma skip_value_from_tag_eq:
  assumes "wire_env_ok E"
  shows "skip_value_from_tag E tg =
     rmap (\<lambda>_. ()) (read_value_as_string_from_tag E (read_value_as_string E) tg)"
  unfolding skip_value_from_tag_def read_value_as_string_from_tag_def
  using skip_packed [OF assms, of tg]
  by (simp add: rmap_if rmap_rbind rmap_rmap rmap_token)

lemma skip_value_eq: "wire_env_ok E \<Longrightarrow> skip_value E = rmap (\<lambda>_. ()) (read_value E)"
  unfolding skip_value_def read_value_def skip_value_from_tag_def rmap_rbind
  by (simp add: rmap_if rmap_rbind rmap_rmap rmap_token skip_packed cong: if_cong)

lemma from_tag_Some:
  "read_value_as_string_from_tag E p tg bs = Inr (k, r) \<Longrightarrow> tg \<noteq> LIST_EMPTY \<Longrightarrow> k \<noteq> None"
  unfolding read_value_as_string_from_tag_def
  by (auto simp: rmap_Inr_iff rbind_Inr_iff split: if_splits option.splits)
    (metis)+

lemma rbind_from_tag:
  assumes "tg \<noteq> LIST_EMPTY"
  shows "rbind (read_value_as_string_from_tag E p tg)
           (\<lambda>k. case k of None \<Rightarrow> q | Some k \<Rightarrow> F k) =
         rbind (read_value_as_string_from_tag E p tg) (\<lambda>k. F (the k))"
proof (rule ext)
  fix bs
  show "rbind (read_value_as_string_from_tag E p tg)
      (\<lambda>k. case k of None \<Rightarrow> q | Some k \<Rightarrow> F k) bs =
    rbind (read_value_as_string_from_tag E p tg) (\<lambda>k. F (the k)) bs"
    using from_tag_Some [OF _ assms, of E p bs]
    by (cases "read_value_as_string_from_tag E p tg bs") (auto simp: rbind_def)
qed

text \<open>
  A mandatory string value: the reader's \<open>let-else\<close> on the decoded value is the test on the tag
  the measuring pass makes.
\<close>

lemma mandatory_string:
  "rbind (read_value_as_string E) (\<lambda>k. case k of None \<Rightarrow> fail e | Some k \<Rightarrow> F k) =
   rbind read_u8 (\<lambda>tg.
     if tg = LIST_EMPTY then fail e
     else rbind (read_value_as_string_from_tag E (read_value_as_string E) tg) (\<lambda>k. F (the k)))"
  (is "_ = rbind read_u8 ?g")
proof -
  have "rbind (read_value_as_string_from_tag E (read_value_as_string E) tg)
      (\<lambda>k. case k of None \<Rightarrow> fail e | Some k \<Rightarrow> F k) = ?g tg" for tg
    using rbind_from_tag [of tg E "read_value_as_string E" "fail e" F]
    by (simp add: read_value_as_string_from_tag_def [of _ _ LIST_EMPTY])
  then show ?thesis by (subst read_value_as_string_rec) (simp add: rbind_assoc)
qed

lemma skip_attribute_eq: "wire_env_ok E \<Longrightarrow> skip_attribute E = rmap (\<lambda>_. ()) (read_attribute E)"
  unfolding skip_attribute_def read_attribute_def mandatory_string rmap_rbind
  by (simp add: rmap_if rmap_rbind rmap_rmap skip_value_from_tag_eq skip_value_eq rbind_rmap
      cong: if_cong)

lemma rtimes_rmap: "rmap (\<lambda>_. ()) (rtimes n (rmap h p)) = rmap (\<lambda>_. ()) (rtimes n p)"
proof (induction n)
  case (Suc n)
  have "rbind (rtimes n (rmap h p)) (\<lambda>_. ret ()) = rbind (rtimes n p) (\<lambda>_. ret ())"
    using Suc unfolding rmap_conv_rbind .
  then show ?case by (simp add: rmap_rbind rbind_rmap)
qed simp

lemma skip_node_open_eq:
  assumes "wire_env_ok E"
  shows "skip_node_open E =
    rmap (\<lambda>(_, _, c). case c of Children n \<Rightarrow> n | _ \<Rightarrow> 0) (read_node_open E)"
proof -
  have attrs: "rbind (rtimes n (skip_attribute E)) (\<lambda>_. p) = rbind (read_attributes E n) (\<lambda>_. p)"
    for n and p :: "(binary_error, nat) reader"
  proof -
    have "rbind (rmap (\<lambda>_. ()) (rtimes n (skip_attribute E))) (\<lambda>_. p) =
        rbind (rmap (\<lambda>_. ()) (read_attributes E n)) (\<lambda>_. p)"
      unfolding skip_attribute_eq [OF assms] read_attributes_def rtimes_rmap ..
    then show ?thesis by (simp add: rbind_rmap)
  qed
  have scalar: "rmap (\<lambda>_. 0) (skip_scalar_content E tg) =
      rmap (\<lambda>c. case (case c of Some s \<Rightarrow> Scalar s | None \<Rightarrow> NoContent) of Children n \<Rightarrow> n | _ \<Rightarrow> 0)
        (read_content_from_tag E q tg)" if "tg \<noteq> LIST_EMPTY" "tg \<noteq> LIST_8" "tg \<noteq> LIST_16" for tg q
  proof -
    have *: "(case (case c of Some s \<Rightarrow> Scalar s | None \<Rightarrow> NoContent) of
        Children n \<Rightarrow> n | _ \<Rightarrow> 0) = (0 :: nat)" for c by (simp split: option.splits)
    show ?thesis
      using that unfolding * skip_scalar_content_def read_content_from_tag_def
      by (simp add: rmap_if rmap_rbind rmap_rmap skip_value_from_tag_eq [OF assms])
  qed
  have tail: "(if tg = LIST_EMPTY then ret 0
        else if tg = LIST_8 \<or> tg = LIST_16 then read_list_size tg
        else rmap (\<lambda>_. 0) (skip_scalar_content E tg)) =
      (if tg = LIST_EMPTY then ret 0
        else if tg = LIST_8 \<or> tg = LIST_16 then read_list_size tg
        else rmap (\<lambda>c. case (case c of Some s \<Rightarrow> Scalar s | None \<Rightarrow> NoContent) of Children n \<Rightarrow> n | _ \<Rightarrow> 0)
          (read_content_from_tag E (fail Panicked) tg))" for tg
    using scalar [of tg] by simp
  have flip: "(if odd n then p else q) = (if even n then q else p)" for n :: nat and p q :: 'b
    by simp
  show ?thesis
    unfolding skip_node_open_def read_node_open_def mandatory_string rmap_rbind attrs flip tail
    by (simp add: rmap_if rmap_rbind rmap_rmap rmap_id skip_value_from_tag_eq [OF assms] rbind_rmap
        attrs cong: if_cong)
qed

lemma skip_node_at_eq:
  assumes "wire_env_ok E"
  shows "skip_node_at E depth = rmap (\<lambda>_. ()) (read_node_ref_at E depth)"
  using assms
proof (induction E depth rule: read_node_ref_at.induct)
  case (1 E depth)
  have sub: "rmap (\<lambda>_. ()) (rtimes n (skip_node_at E (Suc depth))) =
      rmap (\<lambda>_. ()) (rtimes n (read_node_ref_at E (Suc depth)))" if "depth < MAX_NODE_DEPTH" for n
    using 1 that by (simp add: rtimes_rmap)
  have each: "rmap (\<lambda>_. ()) (rtimes (case c of Children n \<Rightarrow> n | _ \<Rightarrow> 0) (skip_node_at E (Suc depth))) =
      rmap (\<lambda>_. ()) (case c of NoContent \<Rightarrow> ret (Node tg ats None)
        | Scalar s \<Rightarrow> ret (Node tg ats (Some s))
        | Children count \<Rightarrow> rmap (\<lambda>nodes. Node tg ats (Some (Nodes nodes)))
            (rtimes count (read_node_ref_at E (Suc depth))))"
    if "depth < MAX_NODE_DEPTH" for tg ats c
    using sub [OF that] by (cases c) (simp_all add: rmap_rmap)
  show ?case
  proof (cases "depth < MAX_NODE_DEPTH")
    case True
    have "(\<lambda>h. rmap (\<lambda>_. ()) (rtimes (case snd (snd h) of Children n \<Rightarrow> n | _ \<Rightarrow> 0)
          (skip_node_at E (Suc depth)))) =
        (\<lambda>h. rmap (\<lambda>_. ()) (case snd (snd h) of
            NoContent \<Rightarrow> ret (Node (fst h) (fst (snd h)) None)
          | Scalar s \<Rightarrow> ret (Node (fst h) (fst (snd h)) (Some s))
          | Children count \<Rightarrow> rmap (\<lambda>nodes. Node (fst h) (fst (snd h)) (Some (Nodes nodes)))
              (rtimes count (read_node_ref_at E (Suc depth)))))"
      by (rule ext) (rule each [OF True])
    with skip_node_open_eq [OF 1(2)] True show ?thesis
      by (subst skip_node_at.simps, subst read_node_ref_at.simps)
        (simp add: rbind_rmap rmap_rbind case_prod_beta)
  qed (simp add: skip_node_at.simps [of E depth] read_node_ref_at.simps [of E depth])
qed

section \<open>The decoder neither panics nor runs out of stack\<close>

definition clean :: "nat \<Rightarrow> (binary_error, 'a) reader \<Rightarrow> bool" where
  "clean k p \<longleftrightarrow> (\<forall>bs. length bs \<le> k \<longrightarrow> p bs \<noteq> Inl Panicked \<and> p bs \<noteq> Inl StackExhausted)"

named_theorems clean_intro

lemma clean_ret [clean_intro]: "clean k (ret a)"
  by (simp add: clean_def)

lemma clean_fail [clean_intro]: "e \<noteq> Panicked \<Longrightarrow> e \<noteq> StackExhausted \<Longrightarrow> clean k (fail e)"
  by (simp add: clean_def)

lemma clean_rbind [clean_intro]:
  assumes "clean k p" and "consumes 0 p" and "\<And>a. clean k (f a)"
  shows "clean k (rbind p f)"
  unfolding clean_def
proof (intro allI impI)
  fix bs :: bytes
  assume bs: "length bs \<le> k"
  have p: "p bs \<noteq> Inl Panicked" "p bs \<noteq> Inl StackExhausted" using assms(1) bs by (auto simp: clean_def)
  have f: "f a r \<noteq> Inl Panicked \<and> f a r \<noteq> Inl StackExhausted" if "p bs = Inr (a, r)" for a r
    using consumesD [OF assms(2) that] assms(3) [of a] bs by (auto simp: clean_def)
  show "rbind p f bs \<noteq> Inl Panicked \<and> rbind p f bs \<noteq> Inl StackExhausted"
    unfolding rbind_Inl_iff using p f by blast
qed

lemma clean_rmap [clean_intro]: "clean k p \<Longrightarrow> clean k (rmap h p)"
  by (simp add: clean_def)

lemma clean_if [clean_intro]:
  "(b \<Longrightarrow> clean k p) \<Longrightarrow> (\<not> b \<Longrightarrow> clean k q) \<Longrightarrow> clean k (if b then p else q)"
  by simp

lemma clean_option [clean_intro]:
  "clean k p \<Longrightarrow> (\<And>a. clean k (f a)) \<Longrightarrow> clean k (case x of None \<Rightarrow> p | Some a \<Rightarrow> f a)"
  by (cases x) simp_all

lemma clean_primitive [clean_intro]:
  "clean k read_u8" "clean k read_u16_be" "clean k read_u20_be" "clean k read_u32_be"
  "clean k (read_bytes n)"
  by (auto simp: clean_def read_bytes_def elim!: read_u8.elims read_u16_be.elims read_u20_be.elims
      read_u32_be.elims)

lemma clean_lift_res [clean_intro]:
  "r \<noteq> Inl Panicked \<Longrightarrow> r \<noteq> Inl StackExhausted \<Longrightarrow> clean k (lift_res r)"
  by (simp add: clean_def lift_res_def)

lemma check_nibble_pair_clean:
  "check_nibble_pair b = Inl e \<Longrightarrow> \<exists>n. e = InvalidToken n"
  by (auto simp: check_nibble_pair_def unpack_nibble_def bind_res_Inl_iff split: if_splits)

lemma decode_packed_nibble_clean: "decode_packed_nibble bs = Inl e \<Longrightarrow> \<exists>n. e = InvalidToken n"
  by (induction bs) (auto simp: bind_res_Inl_iff split: if_splits dest: check_nibble_pair_clean)

lemma clean_read_packed [clean_intro]:
  "wire_env_ok E \<Longrightarrow> tg = NIBBLE_8 \<or> tg = HEX_8 \<Longrightarrow> clean k (read_packed E tg)"
  unfolding read_packed_eq Let_def
  by (intro clean_intro consumes_intro) (auto dest: decode_packed_nibble_clean)

lemma clean_scalar [clean_intro]: "clean k (read_string E n)" "clean k (read_list_size tg)"
  unfolding read_string_def read_list_size_def by (intro clean_intro consumes_intro; simp)+

lemma clean_jid [clean_intro]:
  assumes "clean k p" and "consumes 0 p"
  shows "clean k (read_jid_pair p)" "clean k (read_ad_jid p)"
    "clean k (read_interop_jid p)" "clean k (read_fb_jid p)"
  unfolding jid_reader_defs by (intro clean_intro consumes_intro assms; simp)+

lemma clean_from_tag [clean_intro]:
  assumes "wire_env_ok E" and "clean k p" and "consumes 0 p"
  shows "clean k (read_value_as_string_from_tag E p tg)"
  unfolding read_value_as_string_from_tag_def
  by (intro clean_intro consumes_intro assms; simp)

lemma clean_read_u8_rbind:
  assumes "\<And>a. clean k (f a)"
  shows "clean (Suc k) (rbind read_u8 f)"
  unfolding clean_def
proof (intro allI impI)
  fix bs :: bytes
  assume "length bs \<le> Suc k"
  then show "rbind read_u8 f bs \<noteq> Inl Panicked \<and> rbind read_u8 f bs \<noteq> Inl StackExhausted"
    using assms by (cases bs) (auto simp: rbind_def clean_def)
qed

lemma clean_value_string [clean_intro]: "wire_env_ok E \<Longrightarrow> clean k (read_value_as_string E)"
proof (induction k)
  case 0
  then show ?case by (subst read_value_as_string_rec) (simp add: clean_def rbind_def)
next
  case (Suc k)
  then show ?case
    by (subst read_value_as_string_rec) (intro clean_read_u8_rbind clean_intro consumes_intro)
qed

lemma clean_read_value [clean_intro]: "wire_env_ok E \<Longrightarrow> clean k (read_value E)"
  unfolding read_value_def by (intro clean_intro consumes_intro; simp)

lemma clean_rtimes [clean_intro]: "clean k p \<Longrightarrow> consumes 0 p \<Longrightarrow> clean k (rtimes n p)"
  by (induction n) (auto intro!: clean_intro consumes_intro)

lemma consumes_read_attribute [consumes_intro]: "consumes 0 (read_attribute E)"
  unfolding read_attribute_def by (intro consumes_intro)

lemma clean_read_attributes [clean_intro]: "wire_env_ok E \<Longrightarrow> clean k (read_attributes E n)"
  unfolding read_attributes_def read_attribute_def by (intro clean_intro consumes_intro; simp)

lemma clean_read_content:
  "wire_env_ok E \<Longrightarrow> tg \<noteq> LIST_8 \<Longrightarrow> tg \<noteq> LIST_16 \<Longrightarrow> clean k (read_content_from_tag E p tg)"
  unfolding read_content_from_tag_def by (intro clean_intro consumes_intro) simp_all

lemma clean_read_node_open [clean_intro]: "wire_env_ok E \<Longrightarrow> clean k (read_node_open E)"
  unfolding read_node_open_def read_attributes_def
  by (intro clean_intro clean_read_content consumes_intro clean_read_attributes [unfolded read_attributes_def]; simp)

lemma consumes_read_node_open [consumes_intro]: "consumes 0 (read_node_open E)"
  unfolding read_node_open_def read_attributes_def by (intro consumes_intro)

lemma consumes_open_content [consumes_intro]:
  "consumes m p \<Longrightarrow> (\<And>n. consumes m (f n)) \<Longrightarrow> (\<And>s. consumes m (g s)) \<Longrightarrow>
   consumes m (case c of NoContent \<Rightarrow> p | Children n \<Rightarrow> f n | Scalar s \<Rightarrow> g s)"
  by (cases c) simp_all

lemma clean_open_content [clean_intro]:
  "clean m p \<Longrightarrow> (\<And>n. clean m (f n)) \<Longrightarrow> (\<And>s. clean m (g s)) \<Longrightarrow>
   clean m (case c of NoContent \<Rightarrow> p | Children n \<Rightarrow> f n | Scalar s \<Rightarrow> g s)"
  by (cases c) simp_all

lemma consumes_prod [consumes_intro]:
  "(\<And>x y. consumes n (f x y)) \<Longrightarrow> consumes n (case a of (x, y) \<Rightarrow> f x y)"
  by (cases a) simp

lemma clean_prod [clean_intro]:
  "(\<And>x y. clean n (f x y)) \<Longrightarrow> clean n (case a of (x, y) \<Rightarrow> f x y)"
  by (cases a) simp

lemma consumes_read_node_ref_at [consumes_intro]: "consumes 0 (read_node_ref_at E depth)"
proof (induction E depth rule: read_node_ref_at.induct)
  case (1 E depth)
  show ?case by (subst read_node_ref_at.simps) (intro consumes_intro 1)
qed

lemma clean_read_node_ref_at: "wire_env_ok E \<Longrightarrow> clean k (read_node_ref_at E depth)"
proof (induction E depth rule: read_node_ref_at.induct)
  case (1 E depth)
  show ?case by (subst read_node_ref_at.simps) (intro clean_intro consumes_intro 1; simp)
qed

lemma rtimes_all:
  "rtimes n p bs = Inr (as, r) \<Longrightarrow> (\<And>bs a r. p bs = Inr (a, r) \<Longrightarrow> P a) \<Longrightarrow> \<forall>a \<in> set as. P a"
  by (induction n arbitrary: bs as r) (auto simp: rbind_Inr_iff)

lemma read_content_scalar:
  "read_content_from_tag E p tg bs = Inr (c, r) \<Longrightarrow> tg \<noteq> LIST_8 \<Longrightarrow> tg \<noteq> LIST_16 \<Longrightarrow>
   content_depth c = 0"
  unfolding read_content_from_tag_def
  by (auto simp: rmap_Inr_iff rbind_Inr_iff map_option_case split: if_splits option.splits)

lemma read_node_open_scalar:
  assumes "read_node_open E bs = Inr ((tg, ats, Scalar s), r)"
  shows "content_depth (Some s) = 0"
proof -
  from assms obtain t b r' where "read_content_from_tag E (fail Panicked) t b = Inr (Some s, r')"
      "t \<noteq> LIST_8" "t \<noteq> LIST_16"
    unfolding read_node_open_def
    by (auto simp: rbind_Inr_iff rmap_Inr_iff split: if_splits option.splits)
  then show ?thesis by (rule read_content_scalar)
qed

lemma read_node_ref_at_depth:
  "read_node_ref_at E depth bs = Inr (n, r) \<Longrightarrow> depth + node_depth n \<le> MAX_NODE_DEPTH"
proof (induction E depth arbitrary: bs n r rule: read_node_ref_at.induct)
  case (1 E depth)
  have d: "depth < MAX_NODE_DEPTH"
    using "1.prems" by (subst (asm) read_node_ref_at.simps) (auto split: if_splits)
  with "1.prems" obtain tg ats c bs' where head: "read_node_open E bs = Inr ((tg, ats, c), bs')"
    and body: "(case c of NoContent \<Rightarrow> ret (Node tg ats None) | Scalar s \<Rightarrow> ret (Node tg ats (Some s))
      | Children count \<Rightarrow> rmap (\<lambda>nodes. Node tg ats (Some (Nodes nodes)))
          (rtimes count (read_node_ref_at E (Suc depth)))) bs' = Inr (n, r)"
    by (subst (asm) read_node_ref_at.simps) (auto simp: rbind_Inr_iff)
  show ?case
  proof (cases c)
    case (Children count)
    with body obtain ns where ns: "rtimes count (read_node_ref_at E (Suc depth)) bs' = Inr (ns, r)"
      "n = Node tg ats (Some (Nodes ns))"
      by (auto simp: rmap_Inr_iff)
    have "\<forall>m \<in> set ns. Suc depth + node_depth m \<le> MAX_NODE_DEPTH"
      by (rule rtimes_all [OF ns(1)]) (use "1.IH" d in \<open>simp add: not_le\<close>)
    then have "nodes_depth ns \<le> MAX_NODE_DEPTH - Suc depth" by (auto simp: nodes_depth_le)
    then show ?thesis using ns(2) d by simp
  next
    case (Scalar s)
    with d body read_node_open_scalar [of E bs tg ats s bs'] head show ?thesis by auto
  qed (use d body in auto)
qed

section \<open>Properties\<close>

text \<open>
  C18 (equivalence of the two decoders). Walking past a node accepts and rejects exactly the inputs
  the tree decoder does, with the same error, and stops at the same byte.
\<close>

theorem skip_node_matches_read:
  assumes "wire_env_ok E"
  shows "skip_node_at E depth bs = map_res (\<lambda>(n, rest). ((), rest)) (read_node_ref_at E depth bs)"
  by (simp add: skip_node_at_eq [OF assms] rmap_def)

theorem skip_node_matches_read_witness:
  "skip_node_at sample_env 0 [248, 1, 1, 7] = Inr ((), [7])"
proof -
  have "read_value_as_string sample_env [1, 7] = Inr (Some (lit ''xml''), [7])"
    by (simp add: read_value_as_string_def read_value_as_string_from_tag_def tag_defs rbind_def
        sample_env_def sample_tables_def get_single_token_def ret_def word_le_nat_alt)
  then have "read_node_open sample_env [248, 1, 1, 7] = Inr ((lit ''xml'', [], NoContent), [7])"
    by (simp add: read_node_open_def read_list_size_def tag_defs rbind_def rmap_def ret_def
        read_attributes_def)
  then have "read_node_ref_at sample_env 0 [248, 1, 1, 7] = Inr (Node (lit ''xml'') [] None, [7])"
    by (subst read_node_ref_at.simps) (simp add: MAX_NODE_DEPTH_def rbind_def ret_def)
  then show ?thesis using skip_node_matches_read [OF sample_env_ok, of 0 "[248, 1, 1, 7]"] by simp
qed



text \<open>
  C34 (prefix stability). A decoded node, and any error other than running out of input, stays the
  verdict when more bytes follow, and exactly the extra bytes are left unread.
\<close>

theorem decoder_prefix_stable:
  "(read_node_ref E bs = Inr (n, rest) \<longrightarrow> read_node_ref E (bs @ more_bytes) = Inr (n, rest @ more_bytes)) \<and>
   (read_node_ref E bs = Inl e \<and> e \<noteq> UnexpectedEof \<longrightarrow> read_node_ref E (bs @ more_bytes) = Inl e)"
  using stable_Inr [OF stable_read_node_ref_at] stable_Inl [OF stable_read_node_ref_at]
  by (simp add: read_node_ref_def)

theorem decoder_prefix_stable_witness:
  "read_node_ref sample_env ([0] @ [1, 2]) = Inl InvalidNode"
proof -
  have "read_node_ref sample_env [0] = Inl InvalidNode"
    unfolding read_node_ref_def
    by (subst read_node_ref_at.simps)
      (simp add: MAX_NODE_DEPTH_def read_node_open_def read_list_size_def tag_defs rbind_def ret_def
        fail_def)
  then show ?thesis using decoder_prefix_stable [of sample_env "[0]" _ _ "[1, 2]" InvalidNode] by blast
qed

text \<open>
  C35 (depth bound). No decoded tree is deeper than \<open>MAX_NODE_DEPTH\<close>, so no later recursion over
  it can be driven deeper by the peer.
\<close>

theorem decoded_depth_bound:
  assumes "read_node_ref E bs = Inr (n, rest)"
  shows "node_depth n \<le> MAX_NODE_DEPTH"
  using read_node_ref_at_depth [of E 0 bs n rest] assms by (simp add: read_node_ref_def)

theorem decoded_depth_bound_witness:
  "read_node_ref sample_env [248, 1, 1] = Inr (Node (lit ''xml'') [] None, []) \<and>
   node_depth (Node (lit ''xml'') [] None) \<le> MAX_NODE_DEPTH"
proof -
  have "read_node_ref sample_env [248, 1, 1] = Inr (Node (lit ''xml'') [] None, [])" by code_simp
  then show ?thesis using decoded_depth_bound by blast
qed

end
