(* ===== verification/Marshal.thy ===== *)
theory Marshal
  imports Encoder Decoder
begin

text \<open>
  Serialisation strategies and their inverses (\<open>wacore/binary/src/marshal.rs\<close>) and the format byte in
  front of a payload (\<open>wacore/binary/src/util.rs\<close>). A reserved capacity does not change what a \<open>Vec\<close>
  holds, so the strategies differ only in the path they take to the bytes.
\<close>

section \<open>Format byte\<close>

definition FORMAT_COMPRESSED :: u8 where "FORMAT_COMPRESSED = 2"

definition check_plain_payload :: "bytes \<Rightarrow> (binary_error, unit) result" where
  "check_plain_payload bs =
     (case bs of
        [] \<Rightarrow> Inl EmptyData
      | format # node_bytes \<Rightarrow>
          (if format \<noteq> FORMAT_PLAIN then Inl (UnexpectedFormatByte format)
           else if node_bytes \<noteq> [] then Inr () else Inl EmptyData))"

definition pack :: "bytes \<Rightarrow> bytes" where
  "pack node_bytes = FORMAT_PLAIN # node_bytes"

text \<open>\<open>inflate\<close> stands for the pooled zlib decompressor with its output limit; \<open>None\<close> is any failure.\<close>

definition decompress_zlib :: "(bytes \<Rightarrow> bytes option) \<Rightarrow> bytes \<Rightarrow> (binary_error, bytes) result" where
  "decompress_zlib inflate compressed = ok_or Zlib (inflate compressed)"

definition unpack :: "(bytes \<Rightarrow> bytes option) \<Rightarrow> bytes \<Rightarrow> (binary_error, bytes) result" where
  "unpack inflate bs =
     (case bs of
        [] \<Rightarrow> Inl EmptyData
      | data_type # rest \<Rightarrow>
          (if data_type AND FORMAT_COMPRESSED > 0 then decompress_zlib inflate rest else Inr rest))"

definition unpack_bytes :: "(bytes \<Rightarrow> bytes option) \<Rightarrow> bytes \<Rightarrow> (binary_error, bytes) result" where
  "unpack_bytes inflate bs =
     (if bs = [] then Inl EmptyData
      else if hd bs AND FORMAT_COMPRESSED > 0 then decompress_zlib inflate (drop 1 bs)
      else Inr (drop 1 bs))"

section \<open>Decoding a payload\<close>

definition unmarshal_ref :: "wire_env \<Rightarrow> bytes \<Rightarrow> (binary_error, node) result" where
  "unmarshal_ref E bs =
     bind_res (read_node_ref E bs) (\<lambda>(n, rest).
       if rest = [] then Inr n else Inl (LeftoverData (length rest)))"

definition unmarshal_packed_ref :: "wire_env \<Rightarrow> bytes \<Rightarrow> (binary_error, node) result" where
  "unmarshal_packed_ref E bs =
     bind_res (check_plain_payload bs) (\<lambda>_. unmarshal_ref E (drop 1 bs))"

section \<open>Encoding a payload\<close>

definition marshal_to_vec :: "token_tables \<Rightarrow> node \<Rightarrow> (binary_error, bytes) result" where
  "marshal_to_vec T n =
     bind_res (new_vec_with_hints None) (\<lambda>e. map_res buffer (write_node T n e))"

definition marshal :: "token_tables \<Rightarrow> node \<Rightarrow> (binary_error, bytes) result" where
  "marshal T n = marshal_to_vec T n"

definition marshal_with_capacity :: "token_tables \<Rightarrow> node \<Rightarrow> nat \<Rightarrow> (binary_error, bytes) result" where
  "marshal_with_capacity T n capacity = marshal_to_vec T n"

definition marshal_exact :: "token_tables \<Rightarrow> node \<Rightarrow> (binary_error, bytes) result" where
  "marshal_exact T n =
     (let plan = build_marshaled_node_plan T n in
      bind_res (new_vec_with_hints (Some (plan_hints plan))) (\<lambda>e.
      bind_res (write_node T n e) (\<lambda>e.
        if length (buffer e) \<noteq> plan_size plan \<or>
           \<not> (case string_hints e of Some t \<Rightarrow> fully_consumed t | None \<Rightarrow> True)
        then Inl PlanMismatch else Inr (buffer e))))"

definition marshal_ref_to_vec :: "token_tables \<Rightarrow> node \<Rightarrow> (binary_error, bytes) result" where
  "marshal_ref_to_vec T n =
     bind_res (new_vec_with_hints None) (\<lambda>e. map_res buffer (write_node_ref T n e))"

definition marshal_ref :: "token_tables \<Rightarrow> node \<Rightarrow> (binary_error, bytes) result" where
  "marshal_ref T n = marshal_ref_to_vec T n"

definition marshal_ref_with_capacity :: "token_tables \<Rightarrow> node \<Rightarrow> nat \<Rightarrow> (binary_error, bytes) result" where
  "marshal_ref_with_capacity T n capacity = marshal_ref_to_vec T n"

definition marshal_ref_exact :: "token_tables \<Rightarrow> node \<Rightarrow> (binary_error, bytes) result" where
  "marshal_ref_exact T n =
     (let plan = build_marshaled_node_ref_plan T n in
      bind_res (new_vec_with_hints (Some (plan_hints plan))) (\<lambda>e.
      bind_res (write_node_ref T n e) (\<lambda>e.
        if length (buffer e) \<noteq> plan_size plan \<or>
           \<not> (case string_hints e of Some t \<Rightarrow> fully_consumed t | None \<Rightarrow> True)
        then Inl PlanMismatch else Inr (buffer e))))"

subsection \<open>Capacity estimates\<close>

definition AUTO_RESERVE_ATTRS_THRESHOLD :: nat where "AUTO_RESERVE_ATTRS_THRESHOLD = 24"
definition AUTO_RESERVE_CHILDREN_THRESHOLD :: nat where "AUTO_RESERVE_CHILDREN_THRESHOLD = 64"
definition AUTO_RESERVE_SCALAR_THRESHOLD :: nat where "AUTO_RESERVE_SCALAR_THRESHOLD = 8 * 1024"
definition DEFAULT_MARSHAL_CAPACITY :: nat where "DEFAULT_MARSHAL_CAPACITY = 1024"
definition AUTO_MAX_HINT_CAPACITY :: nat where "AUTO_MAX_HINT_CAPACITY = 512 * 1024"
definition SHALLOW_MAX_CAPACITY :: nat where "SHALLOW_MAX_CAPACITY = 4 * 1024 * 1024"

definition is_large_list :: "node_content option \<Rightarrow> bool" where
  "is_large_list c =
     (case c of Some (Nodes gc) \<Rightarrow> length gc \<ge> AUTO_RESERVE_CHILDREN_THRESHOLD | _ \<Rightarrow> False)"

definition should_auto_reserve_node :: "node \<Rightarrow> bool" where
  "should_auto_reserve_node n =
     (if length (attrs n) \<ge> AUTO_RESERVE_ATTRS_THRESHOLD then True
      else case content n of
             Some (Bytes b) \<Rightarrow> length b \<ge> AUTO_RESERVE_SCALAR_THRESHOLD
           | Some (Text t) \<Rightarrow> length t \<ge> AUTO_RESERVE_SCALAR_THRESHOLD
           | Some (Nodes children) \<Rightarrow>
               (if length children \<ge> AUTO_RESERVE_CHILDREN_THRESHOLD then True
                else list_ex (\<lambda>child. is_large_list (content child)) children)
           | None \<Rightarrow> False)"

definition child_estimate :: "node \<Rightarrow> nat" where
  "child_estimate child =
     length (tag child) + length (attrs child) * 24 +
     (case content child of
        Some (Bytes b) \<Rightarrow> length b + 8
      | Some (Text t) \<Rightarrow> length t + 8
      | Some (Nodes gc) \<Rightarrow> length gc * 40
      | None \<Rightarrow> 0)"

text \<open>The loop over the sampled children, with its early return at the ceiling.\<close>

fun estimate_children :: "node list \<Rightarrow> nat \<Rightarrow> nat option" where
  "estimate_children [] estimate = Some estimate"
| "estimate_children (child # cs) estimate =
     (let estimate = estimate + child_estimate child in
      if estimate \<ge> AUTO_MAX_HINT_CAPACITY then None else estimate_children cs estimate)"

definition clamp_capacity :: "nat \<Rightarrow> nat" where
  "clamp_capacity n = max DEFAULT_MARSHAL_CAPACITY (min n AUTO_MAX_HINT_CAPACITY)"

definition estimate_capacity_node :: "node \<Rightarrow> nat" where
  "estimate_capacity_node n =
     (let estimate = DEFAULT_MARSHAL_CAPACITY + 16 + length (tag n) + length (attrs n) * 24 in
      case content n of
        Some (Bytes b) \<Rightarrow> clamp_capacity (estimate + length b + 8)
      | Some (Text t) \<Rightarrow> clamp_capacity (estimate + length t + 8)
      | Some (Nodes children) \<Rightarrow>
          (case estimate_children (take 32 children) (estimate + length children * 96) of
             None \<Rightarrow> AUTO_MAX_HINT_CAPACITY
           | Some estimate \<Rightarrow> clamp_capacity estimate)
      | None \<Rightarrow> clamp_capacity estimate)"

definition shallow_string_estimate :: "nat \<Rightarrow> nat" where
  "shallow_string_estimate len = len + (if len < 256 then 2 else if len < 2 ^ 20 then 4 else 5)"

fun shallow_value_estimate :: "node_value \<Rightarrow> nat" where
  "shallow_value_estimate (String text') = shallow_string_estimate (length text')"
| "shallow_value_estimate (JidVal j) = length (user j) + 12"

definition shallow_attrs_estimate :: "(str \<times> node_value) list \<Rightarrow> nat" where
  "shallow_attrs_estimate ats =
     sum_list (map (\<lambda>(k, v). shallow_string_estimate (length k) + shallow_value_estimate v) ats)"

text \<open>
  \<open>accumulate_shallow_estimate\<close> threads the running estimate; the children past the sample of 32
  are charged the mean of the sample, rounded up.
\<close>

fun accumulate_shallow_estimate :: "node \<Rightarrow> nat \<Rightarrow> nat"
  and accumulate_shallow_content :: "node_content option \<Rightarrow> nat \<Rightarrow> nat"
  and accumulate_shallow_children :: "nat \<Rightarrow> node list \<Rightarrow> nat \<Rightarrow> nat" where
  "accumulate_shallow_estimate (Node tg ats c) estimate =
     accumulate_shallow_content c
       (estimate + 4 + shallow_string_estimate (length tg) + shallow_attrs_estimate ats)"
| "accumulate_shallow_content (Some (Bytes b)) estimate = estimate + shallow_string_estimate (length b)"
| "accumulate_shallow_content (Some (Text t)) estimate = estimate + shallow_string_estimate (length t)"
| "accumulate_shallow_content None estimate = estimate"
| "accumulate_shallow_content (Some (Nodes children)) before =
     (if before \<ge> SHALLOW_MAX_CAPACITY then before
      else
        let sampled = min (length children) 32;
            estimate = accumulate_shallow_children sampled children before;
            remaining = length children - sampled
        in if remaining > 0
           then estimate + ((estimate - before + sampled - 1) div sampled) * remaining
           else estimate)"
| "accumulate_shallow_children 0 cs estimate = estimate"
| "accumulate_shallow_children (Suc k) [] estimate = estimate"
| "accumulate_shallow_children (Suc k) (c # cs) estimate =
     accumulate_shallow_children k cs (accumulate_shallow_estimate c estimate)"

definition shallow_capacity_node :: "node \<Rightarrow> nat" where
  "shallow_capacity_node n = min (accumulate_shallow_estimate n 0) SHALLOW_MAX_CAPACITY"

definition marshal_auto :: "token_tables \<Rightarrow> node \<Rightarrow> (binary_error, bytes) result" where
  "marshal_auto T n =
     (if should_auto_reserve_node n then marshal_with_capacity T n (estimate_capacity_node n)
      else marshal T n)"

text \<open>The copies of the automatic strategy for borrowed nodes.\<close>

definition should_auto_reserve_node_ref :: "node \<Rightarrow> bool" where
  "should_auto_reserve_node_ref n =
     (if length (attrs n) \<ge> AUTO_RESERVE_ATTRS_THRESHOLD then True
      else case content n of
             Some (Bytes b) \<Rightarrow> length b \<ge> AUTO_RESERVE_SCALAR_THRESHOLD
           | Some (Text t) \<Rightarrow> length t \<ge> AUTO_RESERVE_SCALAR_THRESHOLD
           | Some (Nodes children) \<Rightarrow>
               (if length children \<ge> AUTO_RESERVE_CHILDREN_THRESHOLD then True
                else list_ex (\<lambda>child. is_large_list (content child)) children)
           | None \<Rightarrow> False)"

definition estimate_capacity_node_ref :: "node \<Rightarrow> nat" where
  "estimate_capacity_node_ref n =
     (let estimate = DEFAULT_MARSHAL_CAPACITY + 16 + length (tag n) + length (attrs n) * 24 in
      case content n of
        Some (Bytes b) \<Rightarrow> clamp_capacity (estimate + length b + 8)
      | Some (Text t) \<Rightarrow> clamp_capacity (estimate + length t + 8)
      | Some (Nodes children) \<Rightarrow>
          (case estimate_children (take 32 children) (estimate + length children * 96) of
             None \<Rightarrow> AUTO_MAX_HINT_CAPACITY
           | Some estimate \<Rightarrow> clamp_capacity estimate)
      | None \<Rightarrow> clamp_capacity estimate)"

definition marshal_ref_auto :: "token_tables \<Rightarrow> node \<Rightarrow> (binary_error, bytes) result" where
  "marshal_ref_auto T n =
     (if should_auto_reserve_node_ref n then marshal_ref_with_capacity T n (estimate_capacity_node_ref n)
      else marshal_ref T n)"

definition marshal_shallow :: "token_tables \<Rightarrow> node \<Rightarrow> (binary_error, bytes) result" where
  "marshal_shallow T n = marshal_with_capacity T n (shallow_capacity_node n)"

section \<open>Every strategy produces the reference encoding\<close>

definition payload :: "token_tables \<Rightarrow> node \<Rightarrow> (binary_error, bytes) result" where
  "payload T n = map_res (\<lambda>bs. FORMAT_PLAIN # bs) (enc_node T n)"

lemma marshal_to_vec_payload: "marshal_to_vec T n = payload T n"
proof -
  let ?e = "\<lparr>buffer = [FORMAT_PLAIN], string_hints = None\<rparr>"
  have "write_node T n ?e = map_res (\<lambda>bs. advance ?e bs (hints_node T n)) (enc_node T n)"
    using runs_node(1) [of T n] by (simp add: runs_def tape_ready_def)
  then show ?thesis
    by (cases "enc_node T n")
      (simp_all add: marshal_to_vec_def payload_def new_vec_with_hints_def write_u8_def
        write_raw_bytes_def advance_def)
qed

lemma plan_eq:
  "plan_hints (build_marshaled_node_plan T n) = hints_node T n"
  "enc_node T n = Inr bs \<Longrightarrow> plan_size (build_marshaled_node_plan T n) = Suc (length bs)"
  using node_size_hints(1) [of T n "[]"] node_size(1) [of T n bs "[]"]
  by (simp_all add: build_marshaled_node_plan_def case_prod_beta)

lemma marshal_exact_payload: "marshal_exact T n = payload T n"
proof -
  let ?e = "\<lparr>buffer = [FORMAT_PLAIN], string_hints = Some (hints_node T n, 0)\<rparr>"
  have "write_node T n ?e = map_res (\<lambda>bs. advance ?e bs (hints_node T n)) (enc_node T n)"
    using runs_node(1) [of T n] by (simp add: runs_def tape_ready_def)
  then show ?thesis
    using plan_eq
    by (cases "enc_node T n")
      (simp_all add: marshal_exact_def payload_def new_vec_with_hints_def write_u8_def Let_def
        write_raw_bytes_def advance_def fully_consumed_def)
qed

lemmas marshal_payload = marshal_to_vec_payload marshal_exact_payload

section \<open>What cannot be marshalled\<close>

text \<open>A list of more than 65535 entries and a companion device above 255 have no encoding; everything else has.\<close>

fun value_fits :: "node_value \<Rightarrow> bool" where
  "value_fits (String s) \<longleftrightarrow> True"
| "value_fits (JidVal j) \<longleftrightarrow>
     needs_interop_jid (server j) (integrator j) \<or> \<not> server_supports_ad_jid (server j) \<or> device j \<le> 255"

fun node_fits :: "node \<Rightarrow> bool" and content_fits :: "node_content option \<Rightarrow> bool"
  and nodes_fit :: "node list \<Rightarrow> bool" where
  "node_fits (Node tg ats c) \<longleftrightarrow>
     node_list_len ats c \<le> 65535 \<and> list_all (\<lambda>(k, v). value_fits v) ats \<and> content_fits c"
| "content_fits None \<longleftrightarrow> True"
| "content_fits (Some (Bytes b)) \<longleftrightarrow> True"
| "content_fits (Some (Text s)) \<longleftrightarrow> True"
| "content_fits (Some (Nodes ns)) \<longleftrightarrow> length ns \<le> 65535 \<and> nodes_fit ns"
| "nodes_fit [] \<longleftrightarrow> True"
| "nodes_fit (n # ns) \<longleftrightarrow> node_fits n \<and> nodes_fit ns"

definition marshal_error :: "binary_error \<Rightarrow> bool" where
  "marshal_error e \<longleftrightarrow> (case e of InvalidNode \<Rightarrow> True | AttrParse m \<Rightarrow> True | _ \<Rightarrow> False)"

text \<open>\<open>verdict r ok\<close>: the result is a success exactly when \<open>ok\<close>, and otherwise one of the two errors.\<close>

definition verdict :: "(binary_error, bytes) result \<Rightarrow> bool \<Rightarrow> bool" where
  "verdict r ok \<longleftrightarrow> (case r of Inr bs \<Rightarrow> ok | Inl e \<Rightarrow> \<not> ok \<and> marshal_error e)"

lemma verdict_Inr [simp]: "verdict (Inr bs) ok \<longleftrightarrow> ok"
  by (simp add: verdict_def)

lemma verdict_map [simp]: "verdict (map_res f r) ok \<longleftrightarrow> verdict r ok"
  by (cases r) (simp_all add: verdict_def)

lemma verdict_seq: "verdict r a \<Longrightarrow> verdict q b \<Longrightarrow> verdict (seq_res r q) (a \<and> b)"
  by (cases r; cases q) (auto simp: verdict_def)

lemma verdict_list_start: "verdict (enc_list_start n) (n \<le> 65535)"
  by (auto simp: enc_list_start_def verdict_def marshal_error_def)

lemma verdict_value: "verdict (enc_value T v) (value_fits v)"
proof (cases v)
  case (JidVal j)
  have "device j > 255 \<Longrightarrow> device j > 0" by (auto simp: word_gt_0)
  then show ?thesis
    unfolding JidVal enc_value.simps value_fits.simps enc_jid_def verdict_def marshal_error_def
    by (auto simp: not_less)
qed simp

lemma verdict_attrs: "verdict (enc_attrs T ats) (list_all (\<lambda>(k, v). value_fits v) ats)"
proof (induction ats)
  case (Cons kv ats)
  then show ?case using verdict_seq [OF verdict_value Cons] by (cases kv) simp
qed simp

lemma verdict_node:
  "verdict (enc_node T n) (node_fits n)"
  "verdict (enc_content T c) (content_fits c)"
  "verdict (enc_nodes T ns) (nodes_fit ns)"
proof (induction n and c and ns rule: node_fits_content_fits_nodes_fit.induct)
  case (1 tg ats c)
  have "verdict (Inr (enc_str T tg)) True" by simp
  from verdict_seq [OF verdict_list_start verdict_seq [OF this verdict_seq [OF verdict_attrs 1]]] show ?case
    by (simp del: seq_res_simps)
next
  case (5 ns)
  from verdict_seq [OF verdict_list_start 5] show ?case by simp
next
  case (7 n ns)
  from verdict_seq [OF this] show ?case by simp
qed simp_all

section \<open>Properties\<close>

text \<open>
  C23 (marshalling strategies). The exact strategy (measure first, replay the recorded string hints),
  the automatic and the shallow capacity strategies, and the entry points for borrowed nodes
  all give the result of plain \<open>marshal\<close>, error or bytes. So the measured size is always the size
  written and the tape of hints is always used up: \<open>PlanMismatch\<close> is never returned.
\<close>

theorem marshal_strategies_agree:
  "marshal_exact T n = marshal T n \<and> marshal_auto T n = marshal T n \<and>
   marshal_shallow T n = marshal T n \<and> marshal_ref T n = marshal T n \<and>
   marshal_ref_auto T n = marshal T n \<and>
   marshal_ref_exact T n = marshal T n \<and> marshal_ref_with_capacity T n k = marshal T n \<and>
   marshal_exact T n \<noteq> Inl PlanMismatch"
proof -
  have r: "marshal_ref_to_vec T n = marshal_to_vec T n" "marshal_ref_exact T n = marshal_exact T n"
    by (simp_all add: marshal_ref_to_vec_def marshal_to_vec_def marshal_ref_exact_def marshal_exact_def
        write_node_ref_eq node_ref_plan_eq)
  have "verdict (marshal_exact T n) (node_fits n)"
    by (simp add: marshal_payload payload_def verdict_node)
  then have "marshal_exact T n \<noteq> Inl PlanMismatch" by (auto simp: verdict_def marshal_error_def)
  with r show ?thesis
    by (simp add: marshal_def marshal_payload marshal_auto_def marshal_shallow_def marshal_with_capacity_def
        marshal_ref_def marshal_ref_with_capacity_def marshal_ref_auto_def)
qed

text \<open>
  C24 (errors of marshalling). A node is refused exactly when some list in it has more than 65535
  entries or some JID that must be written with a companion device has a device above 255; the
  error is then \<open>InvalidNode\<close> or \<open>AttrParse\<close>. In particular no packing assertion fails and the
  writer never panics, whatever strings the node carries.
\<close>

theorem marshal_refuses_iff:
  "case marshal T n of
     Inr bs \<Rightarrow> node_fits n \<and> (\<exists>node_bytes. bs = FORMAT_PLAIN # node_bytes)
   | Inl e \<Rightarrow> \<not> node_fits n \<and> marshal_error e"
  using verdict_node(1) [of T n]
  by (cases "enc_node T n") (simp_all add: marshal_def marshal_payload payload_def verdict_def)

text \<open>
  C32 (format byte). Whatever \<open>pack\<close> frames comes back unchanged from both unpackers without the
  decompressor being called, is accepted as a plain payload unless it is empty, and the two
  unpackers agree on every input.
\<close>

theorem pack_unpack:
  "unpack inflate (pack bs) = Inr bs \<and> unpack_bytes inflate (pack bs) = Inr bs \<and>
   check_plain_payload (pack bs) = (if bs = [] then Inl EmptyData else Inr ()) \<and>
   unpack inflate raw = unpack_bytes inflate raw"
  by (cases bs; cases raw)
    (simp_all add: unpack_def unpack_bytes_def pack_def check_plain_payload_def FORMAT_PLAIN_def
      FORMAT_COMPRESSED_def)

end
