(* ===== verification/Codec.thy ===== *)
theory Codec
  imports Marshal
begin

text \<open>
  The round trip through the wire: decoding what the encoder wrote gives the node back in the form
  the wire can carry. The encoder turns strings that look like JIDs into JID tokens, raw text content
  comes back as bytes, an empty child list as no content; \<open>canon_node\<close> says all of that, and
  \<open>wire_node\<close> says which nodes survive at all.
\<close>

section \<open>Integers\<close>

lemma byte_cases:
  assumes "n < (32 :: nat)"
  obtains m where "m < 8" "n = m" | m where "m < 8" "n = 8 + m" | m where "m < 8" "n = 16 + m"
    | m where "m < 8" "n = 24 + m"
proof -
  have "n < 8 \<or> (\<exists>m < 8. n = 8 + m) \<or> (\<exists>m < 8. n = 16 + m) \<or> (\<exists>m < 8. n = 24 + m)"
    using assms by presburger
  then show thesis using that by blast
qed

lemma read_u16_write: "read_u16_be (ucast (drop_bit 8 v) # ucast v # rest) = Inr (v, rest)"
proof -
  have "push_bit 8 (ucast (ucast (drop_bit 8 v) :: u8)) OR ucast (ucast v :: u8) = v"
    by (rule bit_word_eqI) (auto simp: bit_simps)
  then show ?thesis by simp
qed

lemma read_u32_write:
  "read_u32_be (ucast (drop_bit 24 v) # ucast (drop_bit 16 v) # ucast (drop_bit 8 v) # ucast v # rest) =
     Inr (v, rest)"
proof -
  have "push_bit 24 (ucast (ucast (drop_bit 24 v) :: u8)) OR push_bit 16 (ucast (ucast (drop_bit 16 v) :: u8))
      OR push_bit 8 (ucast (ucast (drop_bit 8 v) :: u8)) OR ucast (ucast v :: u8) = v"
    (is "?w = v")
  proof (rule bit_word_eqI)
    fix n assume "n < LENGTH(32)"
    then show "bit ?w n \<longleftrightarrow> bit v n" by (simp, elim byte_cases) (simp_all add: bit_simps)
  qed
  then show ?thesis by simp
qed

lemma read_u20_write:
  assumes "unat v < 2 ^ 20"
  shows "read_u20_be (ucast (drop_bit 16 v AND 0x0F) # ucast (drop_bit 8 v AND 0xFF) # ucast (v AND 0xFF) # rest) =
    Inr (v, rest)"
proof -
  have m: "(0x0F :: u32) = mask 4" "(0xFF :: u32) = mask 8" by (simp_all add: mask_eq_exp_minus_1)
  note b = bit_less_exp [OF assms]
  have "push_bit 16 (ucast (ucast (drop_bit 16 v AND 0x0F) :: u8) AND 0x0F)
      OR push_bit 8 (ucast (ucast (drop_bit 8 v AND 0xFF) :: u8)) OR ucast (ucast (v AND 0xFF) :: u8) = v"
    (is "?w = v")
  proof (rule bit_word_eqI)
    fix n assume "n < LENGTH(32)"
    then show "bit ?w n \<longleftrightarrow> bit v n" unfolding m
      by (simp, elim byte_cases) (use b [of n] in \<open>auto simp: bit_simps\<close>)
  qed
  then show ?thesis by simp
qed

section \<open>Byte strings and lists\<close>

lemma read_bytes_append: "read_bytes (length bs) (bs @ rest) = Inr (bs, rest)"
  by (simp add: read_bytes_def)

lemma read_string_append:
  "wire_env_ok E \<Longrightarrow> utf8_valid s \<Longrightarrow> read_string E (length s) (s @ rest) = Inr (s, rest)"
  by (simp add: read_string_def rbind_def read_bytes_append wire_env_utf8 ret_def)

text \<open>The length prefix of a byte string, and the reader its tag selects.\<close>

definition len_reader :: "u8 \<Rightarrow> (binary_error, nat) reader" where
  "len_reader tg =
     (if tg = BINARY_8 then rmap unat read_u8 else if tg = BINARY_20 then rmap unat read_u20_be
      else rmap unat read_u32_be)"

lemma enc_bytes_prefix:
  assumes "length bs < 2 ^ 32"
  obtains tg p where "enc_bytes bs = tg # p @ bs" "tg \<in> {BINARY_8, BINARY_20, BINARY_32}"
    "\<And>rest. len_reader tg (p @ rest) = Inr (length bs, rest)"
proof -
  consider "length bs < 256" | "256 \<le> length bs" "length bs < 2 ^ 20" | "2 ^ 20 \<le> length bs" by linarith
  then show thesis
  proof cases
    case 1
    then show thesis
      by (intro that [of BINARY_8 "[of_nat (length bs)]"])
        (auto simp: enc_bytes_def Let_def len_reader_def rmap_def unat_of_nat)
  next
    case 2
    let ?n = "of_nat (length bs) :: u32"
    have n: "unat ?n = length bs" using assms by (simp add: unat_of_nat)
    with 2 have "unat ?n < 2 ^ 20" by simp
    from read_u20_write [OF this] n show thesis
      using 2
      by (intro that [of BINARY_20 "[ucast (drop_bit 16 ?n AND 0x0F), ucast (drop_bit 8 ?n AND 0xFF), ucast (?n AND 0xFF)]"])
        (simp_all add: enc_bytes_def Let_def len_reader_def rmap_def tag_defs)
  next
    case 3
    let ?n = "of_nat (length bs) :: u32"
    have n: "unat ?n = length bs" using assms by (simp add: unat_of_nat)
    from read_u32_write [of ?n] n show thesis
      using 3
      by (intro that [of BINARY_32 "[ucast (drop_bit 24 ?n), ucast (drop_bit 16 ?n), ucast (drop_bit 8 ?n), ucast ?n]"])
        (simp_all add: enc_bytes_def Let_def len_reader_def rmap_def tag_defs)
  qed
qed

lemma read_list_size_enc:
  assumes "enc_list_start n = Inr bs"
  shows "rbind read_u8 read_list_size (bs @ rest) = Inr (n, rest)"
proof -
  consider "n = 0" | "0 < n" "n < 256" | "256 \<le> n" "n \<le> 65535"
    using assms by (auto simp: enc_list_start_def not_less split: if_splits)
  then show ?thesis
  proof cases
    case 3
    let ?v = "of_nat n :: u16"
    have "unat ?v = n" using 3 by (simp add: unat_of_nat)
    moreover have "bs = [249, ucast (drop_bit 8 ?v), ucast ?v]"
      using assms 3 by (simp add: enc_list_start_def)
    ultimately show ?thesis
      using read_u16_write [of ?v rest] by (simp add: rbind_def read_list_size_def tag_defs rmap_def)
  qed (use assms in \<open>auto simp: enc_list_start_def rbind_def read_list_size_def tag_defs rmap_def ret_def
      unat_of_nat\<close>)
qed

section \<open>Packed strings\<close>

lemma nibble_pair:
  assumes "hi < (16 :: u8)" and "lo < 16"
  shows "drop_bit 4 (push_bit 4 hi OR lo) = hi" and "(push_bit 4 hi OR lo) AND 0x0F = lo"
proof -
  have m: "(0x0F :: u8) = mask 4" by (simp add: mask_eq_exp_minus_1)
  have "unat hi < 2 ^ 4" "unat lo < 2 ^ 4" using assms by (simp_all add: word_less_nat_alt)
  note b = bit_less_exp [OF this(1)] bit_less_exp [OF this(2)]
  show "drop_bit 4 (push_bit 4 hi OR lo) = hi"
    by (rule bit_word_eqI) (use b in \<open>fastforce simp: bit_simps\<close>)
  show "(push_bit 4 hi OR lo) AND 0x0F = lo"
    unfolding m by (rule bit_word_eqI) (use b in \<open>fastforce simp: bit_simps\<close>)
qed

lemma pairs_pack:
  assumes "hi < 16" and "lo < 16"
  shows "NIBBLE_PAIRS (push_bit 4 hi OR lo) = [glyph hi, glyph lo]"
    and "HEX_PAIRS (push_bit 4 hi OR lo) = [hex_glyph hi, hex_glyph lo]"
  unfolding NIBBLE_PAIRS_def HEX_PAIRS_def nibble_pair [OF assms] by (rule refl)+

lemma nibble_enc_glyph:
  assumes "nibble_char b"
  shows "NIBBLE_ENC b < 16 \<and> glyph (NIBBLE_ENC b) = b \<and> b \<noteq> NIBBLE_INVALID"
  using assms unfolding nibble_char_def
  by (elim insertE emptyE) (simp_all add: NIBBLE_ENC_def glyph_def NIBBLE_INVALID_def word_le_nat_alt word_less_nat_alt)

lemma hex_enc_glyph:
  assumes "hex_char b"
  shows "HEX_ENC b < 16 \<and> hex_glyph (HEX_ENC b) = b"
  using assms unfolding hex_char_def
  by (elim insertE emptyE) (simp_all add: HEX_ENC_def hex_glyph_def lit_def word_le_nat_alt word_less_nat_alt)

lemma decode_pack_nibble:
  "list_all nibble_char v \<Longrightarrow>
   decode_packed_nibble (fst (pack_pairs NIBBLE_ENC v seen)) = Inr (v @ (if odd (length v) then [0] else []))"
proof (induction v arbitrary: seen rule: induct_list012)
  case (2 x)
  have pad: "glyph 15 = 0" "(15 :: u8) < 16" by (simp_all add: glyph_def)
  note n = nibble_enc_glyph [of x]
  with 2 have "NIBBLE_PAIRS (push_bit 4 (NIBBLE_ENC x) OR 15) = [x, 0]"
    using pairs_pack(1) [of "NIBBLE_ENC x" 15] pad by simp
  with n 2 show ?case by (simp add: Let_def enc_nibble bad_pair_def NIBBLE_INVALID_def)
next
  case (3 x y xs)
  then have "NIBBLE_PAIRS (push_bit 4 (NIBBLE_ENC x) OR NIBBLE_ENC y) = [x, y]"
    using nibble_enc_glyph pairs_pack(1) by simp
  moreover have "NIBBLE_INVALID \<noteq> x" "NIBBLE_INVALID \<noteq> y" using 3 nibble_enc_glyph by auto
  ultimately show ?case using 3 by (simp add: Let_def case_prod_beta bad_pair_def)
qed simp

lemma decode_pack_hex:
  "list_all hex_char v \<Longrightarrow>
   decode_packed_hex (fst (pack_pairs HEX_ENC v seen)) = v @ (if odd (length v) then [70] else [])"
proof (induction v arbitrary: seen rule: induct_list012)
  case (2 x)
  have pad: "hex_glyph 15 = 70" "(15 :: u8) < 16" by (simp_all add: hex_glyph_def)
  with 2 have "HEX_PAIRS (push_bit 4 (HEX_ENC x) OR 15) = [x, 70]"
    using hex_enc_glyph pairs_pack(2) [of "HEX_ENC x" 15] by simp
  with 2 show ?case by (simp add: Let_def enc_nibble decode_packed_hex_def)
next
  case (3 x y xs)
  then have "HEX_PAIRS (push_bit 4 (HEX_ENC x) OR HEX_ENC y) = [x, y]"
    using hex_enc_glyph pairs_pack(2) by simp
  with 3 show ?case by (simp add: Let_def case_prod_beta decode_packed_hex_def)
qed (simp add: decode_packed_hex_def)

lemma packed_len_byte:
  assumes "0 < n" and "n \<le> (127 :: nat)"
  defines "r \<equiv> (of_nat ((n + 1) div 2) :: u8)"
  defines "b \<equiv> (if odd n then r OR 0x80 else r)"
  shows "unat (b AND 0x7F) = (n + 1) div 2" and "b AND 0x80 \<noteq> 0 \<longleftrightarrow> odd n"
proof -
  have r: "unat r = (n + 1) div 2" using assms(2) by (simp add: r_def unat_of_nat)
  then have r7: "unat r < 2 ^ 7" using assms(2) by simp
  note rb = bit_less_exp [OF r7]
  have m: "(0x7F :: u8) = mask 7" by (simp add: mask_eq_exp_minus_1)
  have r127: "r AND 0x7F = r"
    unfolding m by (rule bit_word_eqI) (use rb in \<open>auto simp: bit_simps\<close>)
  have "r AND 0x80 = (r AND 0x7F) AND 0x80" by (simp only: r127)
  then have r128: "r AND 0x80 = 0" by (simp add: and.assoc)
  show "unat (b AND 0x7F) = (n + 1) div 2"
    using r r127 by (simp add: b_def bit.conj_disj_distrib2)
  show "b AND 0x80 \<noteq> 0 \<longleftrightarrow> odd n"
    using r128 by (simp add: b_def bit.conj_disj_distrib2)
qed

lemma read_packed_enc:
  assumes "wire_env_ok E" and "s \<noteq> []"
    and "tg = NIBBLE_8 \<and> validate_nibble s \<or> tg = HEX_8 \<and> validate_hex s"
  obtains p where "enc_packed tg s = tg # p" "\<And>rest. read_packed E tg (p @ rest) = Inr (s, rest)"
proof -
  let ?table = "if tg = NIBBLE_8 then NIBBLE_ENC else HEX_ENC"
  let ?data = "fst (pack_pairs ?table s 0)"
  let ?r = "of_nat ((length s + 1) div 2) :: u8"
  let ?b = "if odd (length s) then ?r OR 0x80 else ?r"
  have n: "0 < length s" "length s \<le> 127" using assms(2,3) validate_chars by auto
  note lb = packed_len_byte [OF n]
  have len: "unat (?b AND 0x7F) = length ?data" using lb(1) by (simp add: length_pack_pairs)
  have pos: "length ?data \<noteq> 0" using n by (simp add: length_pack_pairs)
  have tg: "tg = NIBBLE_8 \<or> tg = HEX_8" using assms(3) by blast
  have neq: "NIBBLE_8 \<noteq> HEX_8" by (simp add: tag_defs)
  have dec: "(if tg = HEX_8 then ret (decode_packed_hex ?data) else lift_res (decode_packed_nibble ?data)) =
      ret (s @ (if odd (length s) then [if tg = HEX_8 then 70 else 0] else []))"
    using assms(3) validate_chars [of s] neq decode_pack_hex [of s 0] decode_pack_nibble [of s 0]
    by (auto simp: fun_eq_iff lift_res_def ret_def)
  have "read_packed E tg (?b # ?data @ rest) = Inr (s, rest)" for rest
    unfolding read_packed_eq [OF assms(1) tg] Let_def
    using pos lb(2) by (simp add: rbind_def len read_bytes_append dec rmap_def ret_def)
  then show thesis by (intro that [of "?b # ?data"]) (simp_all add: enc_packed_def)
qed

section \<open>Strings\<close>

text \<open>The user of a parsed JID string ends at an ASCII byte, so it is a string of its own.\<close>

definition cuts :: "str \<Rightarrow> nat \<Rightarrow> bool" where
  "cuts s i \<longleftrightarrow> i < length s \<and> is_ascii (s ! i)"

lemma cuts_take: "cuts (take k s) i \<Longrightarrow> cuts s i"
  by (auto simp: cuts_def)

lemma find_byte_cuts:
  "find_byte c s = Some i \<Longrightarrow> is_ascii c \<Longrightarrow> cuts s i" "rfind_byte c s = Some i \<Longrightarrow> is_ascii c \<Longrightarrow> cuts s i"
  by (auto simp: cuts_def find_byte_Some rfind_byte_Some)

lemma cuts_valid: "cuts s i \<Longrightarrow> utf8_valid s \<Longrightarrow> utf8_valid (take i s)"
  by (metis cuts_def id_take_nth_drop utf8_valid_cut)

lemma split_device_cuts:
  assumes "cuts s sep" and "meta_split_device (take sep s) = (a, d)"
  obtains k where "cuts s k" "a = take k s" "length a = k"
proof -
  have len: "length (take sep s) = sep" using assms(1) by (simp add: cuts_def)
  show thesis
  proof (cases "find_byte 58 (take sep s)")
    case None
    with assms that [of sep] len show ?thesis by (simp add: meta_split_device_def)
  next
    case (Some c)
    have c: "cuts (take sep s) c" by (rule find_byte_cuts(1) [OF Some]) (simp add: is_ascii_def)
    have lt: "c < sep" using c len by (simp add: cuts_def)
    from Some assms(2) have "a = take c (take sep s) \<or> a = take sep s"
      by (cases "parse_u8 (drop (c + 1) (take sep s))") (auto simp: meta_split_device_def)
    then have "a = take c s \<or> a = take sep s" using lt by (simp add: min_def)
    moreover have "length (take c s) = c" using lt assms(1) by (simp add: cuts_def)
    ultimately show ?thesis using that assms(1) len cuts_take [OF c] by blast
  qed
qed

lemma user_end_cuts:
  assumes "cuts s k"
  shows "cuts s (meta_user_end (take k s))"
proof (cases "find_byte 95 (take k s)")
  case None
  then show ?thesis using assms by (simp add: meta_user_end_def cuts_def)
next
  case (Some u)
  have u: "cuts s u" by (rule cuts_take, rule find_byte_cuts(1) [OF Some]) (simp add: is_ascii_def)
  have "length (take k s) = k" using assms by (simp add: cuts_def)
  with Some u assms show ?thesis by (simp add: meta_user_end_def)
qed

lemma drop_agent_cuts:
  assumes "cuts s e" and "e \<le> length a" and "a = take k s"
  shows "cuts s (meta_drop_agent sv a e)"
proof (cases "rfind_byte 46 (take e a)")
  case None
  then show ?thesis using assms(1) by (simp add: meta_drop_agent_def)
next
  case (Some d)
  have "cuts (take e a) d" by (rule find_byte_cuts(2) [OF Some]) (simp add: is_ascii_def)
  then have "cuts s d" unfolding assms(3) by (blast dest: cuts_take)
  with Some assms(1) show ?thesis by (simp add: meta_drop_agent_def)
qed

lemma meta_user_cuts:
  assumes "parse_jid_meta s = Some m"
  shows "cuts s (unat (user_end m))"
proof -
  from assms obtain sep where sep: "find_byte 64 s = Some sep"
    by (auto simp: parse_jid_meta_def split: option.splits)
  have "cuts s sep" by (rule find_byte_cuts(1) [OF sep]) (simp add: is_ascii_def)
  obtain a d where ad: "meta_split_device (take sep s) = (a, d)" by fastforce
  from split_device_cuts [OF \<open>cuts s sep\<close> ad] obtain k where k: "cuts s k" "a = take k s" "length a = k" .
  let ?e = "meta_drop_agent (parse_known (drop (sep + 1) s)) a (meta_user_end a)"
  have "cuts s ?e"
    using user_end_cuts [OF k(1)] k(2) meta_user_end_le by (auto intro: drop_agent_cuts)
  moreover have "unat (user_end m) = ?e"
    using assms sep ad by (auto simp: parse_jid_meta_def Let_def unat_of_nat split: if_splits)
  ultimately show ?thesis by simp
qed

lemma meta_user_valid: "parse_jid_meta s = Some m \<Longrightarrow> utf8_valid s \<Longrightarrow> utf8_valid (meta_user s m)"
  unfolding meta_user_def using cuts_valid meta_user_cuts by blast

text \<open>The tags in front of JIDs, lists and length-prefixed bytes.\<close>

definition jid_tag :: "u8 \<Rightarrow> bool" where
  "jid_tag tg \<longleftrightarrow> tg \<in> {JID_PAIR, AD_JID, INTEROP_JID, FB_JID}"

definition bin_tag :: "u8 \<Rightarrow> bool" where
  "bin_tag tg \<longleftrightarrow> tg \<in> {BINARY_8, BINARY_20, BINARY_32}"

definition list_tag :: "u8 \<Rightarrow> bool" where
  "list_tag tg \<longleftrightarrow> tg \<in> {LIST_EMPTY, LIST_8, LIST_16}"

lemmas tag_kinds = jid_tag_def bin_tag_def list_tag_def

lemma from_tag_bin:
  assumes "bin_tag tg"
  shows "read_value_as_string_from_tag E p tg = rbind (len_reader tg) (\<lambda>n. rmap Some (read_string E n))"
  using assms by (auto simp: read_value_as_string_from_tag_def len_reader_def bin_tag_def tag_defs)

lemma decode_raw:
  assumes "wire_env_ok E" and "utf8_valid s" and "length s < 2 ^ 32"
  obtains tg bs where "enc_bytes s = tg # bs" "bin_tag tg"
    "\<And>p rest. read_value_as_string_from_tag E p tg (bs @ rest) = Inr (Some s, rest)"
    "\<And>rest. rbind (len_reader tg) read_bytes (bs @ rest) = Inr (s, rest)"
proof -
  obtain tg p where p: "enc_bytes s = tg # p @ s" "tg \<in> {BINARY_8, BINARY_20, BINARY_32}"
    "\<And>rest. len_reader tg (p @ rest) = Inr (length s, rest)"
    using enc_bytes_prefix [OF assms(3)] by metis
  from p(2) have bin: "bin_tag tg" by (simp add: bin_tag_def)
  show thesis
    using p bin assms(1,2)
    by (intro that [of tg "p @ s"])
      (simp_all add: from_tag_bin rbind_def rmap_def read_string_append read_bytes_append)
qed

definition jid_hint :: "string_hint \<Rightarrow> bool" where
  "jid_hint h \<longleftrightarrow> (case h of JidHint m \<Rightarrow> True | _ \<Rightarrow> False)"

definition raw_hint :: "string_hint \<Rightarrow> bool" where
  "raw_hint h \<longleftrightarrow> h = Empty \<or> h = RawBytes"

lemma hint_token:
  "string_hint_of T s = SingleToken t \<Longrightarrow> index_of_token T s = Some (Single t)"
  "string_hint_of T s = DoubleToken d t \<Longrightarrow> index_of_token T s = Some (Double d t)"
  by (auto simp: string_hint_of_def classify_string_hint_def
      split: if_splits option.splits token_kind.splits)

lemma hint_packed:
  "string_hint_of T s = PackedNibble \<Longrightarrow> s \<noteq> [] \<and> validate_nibble s"
  "string_hint_of T s = PackedHex \<Longrightarrow> s \<noteq> [] \<and> validate_hex s"
  "string_hint_of T s = Empty \<longleftrightarrow> s = []"
  by (auto simp: string_hint_of_def classify_string_hint_def PACKED_MAX_def
      split: if_splits option.splits token_kind.splits)

lemma from_tag_single:
  assumes "0 < tg" and "tg < DICTIONARY_0"
  shows "read_value_as_string_from_tag E p tg =
     (case get_single_token (tables E) tg of Some s \<Rightarrow> ret (Some s) | None \<Rightarrow> fail (InvalidToken tg))"
  using assms by (auto simp: read_value_as_string_from_tag_def tag_defs word_less_nat_alt word_le_nat_alt)

lemma from_tag_double:
  assumes "d < 4"
  shows "read_value_as_string_from_tag E p (DICTIONARY_0 + d) =
     rbind read_u8 (\<lambda>index.
       case get_double_token (tables E) d index of
         Some s \<Rightarrow> ret (Some s) | None \<Rightarrow> fail (InvalidToken (DICTIONARY_0 + d)))"
    and "\<not> jid_tag (DICTIONARY_0 + d) \<and> \<not> list_tag (DICTIONARY_0 + d) \<and> \<not> bin_tag (DICTIONARY_0 + d)"
proof -
  have "unat d < 4" using assms by (simp add: word_less_nat_alt)
  then have "unat d = 0 \<or> unat d = 1 \<or> unat d = 2 \<or> unat d = 3" by presburger
  then have d: "d = 0 \<or> d = 1 \<or> d = 2 \<or> d = 3" by (simp add: word_unat_eq_iff)
  then show "read_value_as_string_from_tag E p (DICTIONARY_0 + d) =
     rbind read_u8 (\<lambda>index.
       case get_double_token (tables E) d index of
         Some s \<Rightarrow> ret (Some s) | None \<Rightarrow> fail (InvalidToken (DICTIONARY_0 + d)))"
    by (elim disjE)
      (simp_all add: read_value_as_string_from_tag_def tag_defs word_le_nat_alt cong: option.case_cong)
  from d show "\<not> jid_tag (DICTIONARY_0 + d) \<and> \<not> list_tag (DICTIONARY_0 + d) \<and> \<not> bin_tag (DICTIONARY_0 + d)"
    by (elim disjE) (simp_all add: tag_kinds tag_defs)
qed

text \<open>Every string that is not taken for a JID is read back as itself.\<close>

lemma decode_plain:
  assumes "wire_env_ok E" and "utf8_valid s" and "length s < 2 ^ 32"
    and "\<not> jid_hint (string_hint_of (tables E) s)"
  obtains tg bs where "enc_str (tables E) s = tg # bs" "\<not> jid_tag tg" "\<not> list_tag tg"
    "bin_tag tg \<longleftrightarrow> raw_hint (string_hint_of (tables E) s)"
    "\<And>p rest. read_value_as_string_from_tag E p tg (bs @ rest) = Inr (Some s, rest)"
    "bin_tag tg \<Longrightarrow> tg # bs = enc_bytes s"
proof -
  note found = that
  let ?h = "string_hint_of (tables E) s"
  note wt = wire_env_tables [OF assms(1)]
  have plain: "enc_str (tables E) s = enc_plain s ?h"
    using assms(4) by (intro enc_str_plain) (auto simp: jid_hint_def)
  have packed: thesis if v: "s \<noteq> []" "tg = NIBBLE_8 \<and> validate_nibble s \<or> tg = HEX_8 \<and> validate_hex s"
    and e: "enc_str (tables E) s = enc_packed tg s" and r: "\<not> raw_hint ?h" for tg
  proof -
    obtain b where b: "enc_packed tg s = tg # b" "\<And>rest. read_packed E tg (b @ rest) = Inr (s, rest)"
      by (rule read_packed_enc [OF assms(1) v]) blast
    show thesis
      by (rule found [of tg b])
        (use v(2) e r b in \<open>auto simp: tag_kinds tag_defs read_value_as_string_from_tag_def rmap_def\<close>)
  qed
  have raw: thesis if e: "enc_str (tables E) s = enc_bytes s" and r: "raw_hint ?h"
  proof -
    obtain tg bs where t: "enc_bytes s = tg # bs" "bin_tag tg"
      "\<And>p rest. read_value_as_string_from_tag E p tg (bs @ rest) = Inr (Some s, rest)"
      by (rule decode_raw [OF assms(1-3)]) blast
    show thesis
      by (rule found [of tg bs]) (use t e r in \<open>auto simp: tag_kinds tag_defs\<close>)
  qed
  show thesis
  proof (cases ?h)
    case Empty
    then show thesis using raw plain hint_packed(3) [of "tables E" s]
      by (simp add: raw_hint_def enc_bytes_def Let_def)
  next
    case (SingleToken t)
    have g: "s \<noteq> []" "get_single_token (tables E) t = Some s"
      using hint_token(1) [OF SingleToken] by (simp_all add: dict.index_single [OF wt])
    note rg = dict.single_range [OF wt g(2,1)]
    show thesis
      by (rule found [of t "[]"])
        (use SingleToken g rg plain in \<open>auto simp: from_tag_single ret_def tag_kinds tag_defs raw_hint_def
          word_less_nat_alt\<close>)
  next
    case (DoubleToken d t)
    have g: "s \<noteq> []" "get_double_token (tables E) d t = Some s"
      using hint_token(2) [OF DoubleToken] by (simp_all add: dict.index_double [OF wt])
    note rg = dict.double_range [OF wt g(2)]
    show thesis
      by (rule found [of "DICTIONARY_0 + d" "[t]"])
        (use DoubleToken g plain from_tag_double [OF rg] in \<open>auto simp: rbind_def ret_def raw_hint_def\<close>)
  qed (use packed raw plain hint_packed assms(4) in \<open>auto simp: raw_hint_def jid_hint_def\<close>)
qed

section \<open>JIDs and values\<close>

text \<open>
  What comes back for a string. The encoder writes a string that looks like a JID on a known server
  as that JID, dropping an agent; the decoder returns the JID, or its display where a string is due.
\<close>

definition meta_jid :: "str \<Rightarrow> parsed_jid_meta \<Rightarrow> jid" where
  "meta_jid s m =
     \<lparr>user = meta_user s m, server = the (meta_server m), agent = 0,
      device = (case meta_device m of None \<Rightarrow> 0 | Some d \<Rightarrow> ucast d), integrator = 0\<rparr>"

definition canon_str :: "token_tables \<Rightarrow> str \<Rightarrow> str" where
  "canon_str T s = (case string_hint_of T s of JidHint m \<Rightarrow> jid_display (meta_jid s m) | _ \<Rightarrow> s)"

definition wire_str :: "token_tables \<Rightarrow> str \<Rightarrow> bool" where
  "wire_str T s \<longleftrightarrow>
     utf8_valid s \<and> length s < 2 ^ 32 \<and>
     (case string_hint_of T s of JidHint m \<Rightarrow> meta_server m \<noteq> None | _ \<Rightarrow> True)"

lemma no_at_plain: "64 \<notin> set s \<Longrightarrow> \<not> jid_hint (string_hint_of T s)"
  by (auto simp: jid_hint_def string_hint_of_def classify_string_hint_def parse_jid_meta_def
      split: option.splits token_kind.splits)

lemma read_str_plain:
  assumes "wire_env_ok E" and "utf8_valid s" and "length s < 2 ^ 32" and "64 \<notin> set s"
  shows "read_value_as_string E (enc_str (tables E) s @ rest) = Inr (Some s, rest)"
proof -
  obtain tg bs where "enc_str (tables E) s = tg # bs"
    "\<And>p rest. read_value_as_string_from_tag E p tg (bs @ rest) = Inr (Some s, rest)"
    by (rule decode_plain [OF assms(1-3) no_at_plain [OF assms(4)]]) blast
  then show ?thesis by (subst read_value_as_string_rec) (simp add: rbind_def)
qed

lemma read_str_server:
  assumes "wire_env_ok E"
  shows "read_value_as_string E (enc_str (tables E) (server_as_str sv) @ rest) = Inr (Some (server_as_str sv), rest)"
proof (rule read_str_plain [OF assms])
  show "length (server_as_str sv) < 2 ^ 32" by (cases sv) (simp_all add: server_as_str.simps)
qed (simp_all add: utf8_valid_ascii server_ascii server_no_at)

lemma read_empty: "read_value_as_string E (LIST_EMPTY # rest) = Inr (None, rest)"
  by (subst read_value_as_string_rec) (simp add: rbind_def read_value_as_string_from_tag_def ret_def)

lemma domain_server_type: "server_supports_ad_jid sv \<Longrightarrow> domain_server (server_to_domain_type sv) = ret sv"
  by (cases sv) (simp_all add: server_supports_ad_jid_def server_to_domain_type_def domain_server_def)

text \<open>The two forms of a JID the decoder understands, over any user that itself reads back as \<open>u'\<close>.\<close>

lemma read_pair_enc:
  assumes "wire_env_ok E"
    and "u \<noteq> [] \<Longrightarrow> (\<And>rest. read_value_as_string E (enc_str (tables E) u @ rest) = Inr (Some u', rest))"
    and "u = [] \<Longrightarrow> u' = []"
  shows "read_jid_pair (read_value_as_string E)
      ((if u = [] then [LIST_EMPTY] else enc_str (tables E) u) @ enc_str (tables E) (server_as_str sv) @ rest) =
    Inr (\<lparr>user = u', server = sv, agent = 0, device = 0, integrator = 0\<rparr>, rest)"
  using assms
  by (cases "u = []")
    (simp_all add: read_jid_pair_def rbind_def rmap_def read_empty read_str_server ret_def unwrap_or_def)

lemma read_ad_enc:
  assumes "\<And>rest. read_value_as_string E (enc_str (tables E) u @ rest) = Inr (Some u', rest)"
    and "server_supports_ad_jid sv"
  shows "read_ad_jid (read_value_as_string E) (server_to_domain_type sv # d # enc_str (tables E) u @ rest) =
    Inr (\<lparr>user = u', server = sv, agent = 0, device = ucast d, integrator = 0\<rparr>, rest)"
  using assms by (simp add: read_ad_jid_def rbind_def rmap_def domain_server_type ret_def)

lemma read_value_plain:
  assumes "\<not> jid_tag tg"
  shows "read_value E (tg # bs) =
    map_res (\<lambda>(v, r). (map_option String v, r)) (read_value_as_string_from_tag E p tg bs)"
proof -
  have "rbind read_u8 f (tg # bs) = f tg bs" for f :: "u8 \<Rightarrow> (binary_error, node_value option) reader"
    by (simp add: rbind_def)
  then have "read_value E (tg # bs) = rmap (map_option String) (read_value_as_string_from_tag E p tg) bs"
    using assms
    unfolding jid_tag_def read_value_def read_value_as_string_from_tag_def rmap_if rmap_rbind rmap_rmap comp_def
      rmap_token option.map
    by (simp del: if_split)
  then show ?thesis by (simp add: rmap_def)
qed

lemma read_jid_tags:
  "read_value E (JID_PAIR # bs) = map_res (\<lambda>(j, r). (Some (JidVal j), r)) (read_jid_pair (read_value_as_string E) bs)"
  "read_value E (AD_JID # bs) = map_res (\<lambda>(j, r). (Some (JidVal j), r)) (read_ad_jid (read_value_as_string E) bs)"
  "read_value_as_string_from_tag E p JID_PAIR bs =
     map_res (\<lambda>(j, r). (Some (jid_display j), r)) (read_jid_pair p bs)"
  "read_value_as_string_from_tag E p AD_JID bs =
     map_res (\<lambda>(j, r). (Some (jid_display j), r)) (read_ad_jid p bs)"
  by (simp_all add: read_value_def rbind_def read_value_as_string_from_tag_def tag_defs rmap_def
      jid_ref_to_compact_display comp_def)

definition canon_value :: "token_tables \<Rightarrow> node_value \<Rightarrow> node_value" where
  "canon_value T v =
     (case v of
        String s \<Rightarrow> (case string_hint_of T s of JidHint m \<Rightarrow> JidVal (meta_jid s m) | _ \<Rightarrow> String s)
      | JidVal j \<Rightarrow>
          JidVal \<lparr>user = canon_str T (user j), server = server j, agent = 0,
                  device = (if server_supports_ad_jid (server j) then device j else 0), integrator = 0\<rparr>)"

lemma decode_jid_string:
  assumes "wire_env_ok E" and "wire_str (tables E) s" and "string_hint_of (tables E) s = JidHint m"
  obtains tg bs where "enc_str (tables E) s = tg # bs" "jid_tag tg"
    "\<And>rest. read_value_as_string_from_tag E (read_value_as_string E) tg (bs @ rest) =
       Inr (Some (jid_display (meta_jid s m)), rest)"
    "\<And>rest. read_value E (tg # bs @ rest) = Inr (Some (JidVal (meta_jid s m)), rest)"
proof -
  let ?T = "tables E" and ?u = "meta_user s m"
  from assms(2,3) obtain sv where sv: "meta_server m = Some sv" and s: "utf8_valid s" "length s < 2 ^ 32"
    by (auto simp: wire_str_def)
  note pm = classify_jid(1) [OF assms(3)]
  have u: "read_value_as_string E (enc_str ?T ?u @ rest) = Inr (Some ?u, rest)" for rest
    using s meta_user_valid [OF pm s(1)] meta_user_no_at [OF assms(3)]
    by (intro read_str_plain [OF assms(1)]) (simp_all add: meta_user_def)
  have srv: "meta_server_str s m = server_as_str sv" using sv by (simp add: meta_server_str_def)
  show thesis
  proof (cases "meta_device m")
    case None
    define uw where "uw = (if ?u = [] then [LIST_EMPTY] else enc_str ?T ?u)"
    have pair: "read_jid_pair (read_value_as_string E) (uw @ enc_str ?T (server_as_str sv) @ rest) =
      Inr (meta_jid s m, rest)" for rest
      using read_pair_enc [OF assms(1), of ?u ?u sv rest, folded uw_def] u None sv by (simp add: meta_jid_def)
    have "enc_str ?T s = JID_PAIR # uw @ enc_str ?T (server_as_str sv)"
      using enc_str_jid(1) [OF assms(3), folded uw_def] None srv by simp
    then show thesis by (rule that) (simp_all add: jid_tag_def read_jid_tags pair)
  next
    case (Some d)
    have ad: "server_supports_ad_jid sv"
      by (rule parse_jid_meta_shape [OF pm]) (use Some sv in auto)
    have rd: "read_ad_jid (read_value_as_string E) (domain_type m # d # enc_str ?T ?u @ rest) =
      Inr (meta_jid s m, rest)" for rest
      using read_ad_enc [OF u ad, of d rest] Some sv by (simp add: meta_jid_def domain_type_def)
    have "enc_str ?T s = AD_JID # domain_type m # d # enc_str ?T ?u"
      using enc_str_jid(1) [OF assms(3)] Some by simp
    then show thesis by (rule that) (simp_all add: jid_tag_def read_jid_tags rd)
  qed
qed

text \<open>A string, wherever it stands.\<close>

lemma decode_str:
  assumes "wire_env_ok E" and "wire_str (tables E) s"
  obtains tg bs where "enc_str (tables E) s = tg # bs" "\<not> list_tag tg"
    "bin_tag tg \<longleftrightarrow> raw_hint (string_hint_of (tables E) s)" "bin_tag tg \<Longrightarrow> tg # bs = enc_bytes s"
    "\<And>rest. read_value_as_string_from_tag E (read_value_as_string E) tg (bs @ rest) =
       Inr (Some (canon_str (tables E) s), rest)"
    "\<And>rest. read_value E (tg # bs @ rest) = Inr (Some (canon_value (tables E) (String s)), rest)"
proof (cases "jid_hint (string_hint_of (tables E) s)")
  case True
  then obtain m where m: "string_hint_of (tables E) s = JidHint m"
    by (auto simp: jid_hint_def split: string_hint.splits)
  obtain tg bs where t: "enc_str (tables E) s = tg # bs" "jid_tag tg"
    "\<And>rest. read_value_as_string_from_tag E (read_value_as_string E) tg (bs @ rest) =
       Inr (Some (jid_display (meta_jid s m)), rest)"
    "\<And>rest. read_value E (tg # bs @ rest) = Inr (Some (JidVal (meta_jid s m)), rest)"
    by (rule decode_jid_string [OF assms m]) blast
  have "\<not> list_tag tg" "\<not> bin_tag tg" using t(2) by (auto simp: tag_kinds tag_defs)
  then show ?thesis
    using t m by (intro that [of tg bs]) (simp_all add: raw_hint_def canon_str_def canon_value_def)
next
  case False
  then have c: "canon_str (tables E) s = s" "canon_value (tables E) (String s) = String s"
    by (auto simp: jid_hint_def canon_str_def canon_value_def split: string_hint.splits)
  have s: "utf8_valid s" "length s < 2 ^ 32" using assms(2) by (auto simp: wire_str_def)
  obtain tg bs where t: "enc_str (tables E) s = tg # bs" "\<not> jid_tag tg" "\<not> list_tag tg"
    "bin_tag tg \<longleftrightarrow> raw_hint (string_hint_of (tables E) s)"
    "\<And>p rest. read_value_as_string_from_tag E p tg (bs @ rest) = Inr (Some s, rest)"
    "bin_tag tg \<Longrightarrow> tg # bs = enc_bytes s"
    by (rule decode_plain [OF assms(1) s False]) blast
  have "read_value E (tg # bs @ rest) = Inr (Some (String s), rest)" for rest
    using read_value_plain [OF t(2), of E "bs @ rest" "read_value_as_string E"] t(5) by simp
  then show ?thesis using t c by (intro that [of tg bs]) simp_all
qed

lemma read_str:
  assumes "wire_env_ok E" and "wire_str (tables E) s"
  shows "read_value_as_string E (enc_str (tables E) s @ rest) = Inr (Some (canon_str (tables E) s), rest)"
  by (rule decode_str [OF assms], subst read_value_as_string_rec) (simp add: rbind_def)

definition wire_value :: "token_tables \<Rightarrow> node_value \<Rightarrow> bool" where
  "wire_value T v \<longleftrightarrow>
     (case v of
        String s \<Rightarrow> wire_str T s
      | JidVal j \<Rightarrow> wire_str T (user j) \<and> \<not> needs_interop_jid (server j) (integrator j) \<and>
          (server_supports_ad_jid (server j) \<longrightarrow> device j \<le> 255))"

lemma read_value_enc:
  assumes "wire_env_ok E" and "wire_value (tables E) v"
  obtains bs where "enc_value (tables E) v = Inr bs"
    "\<And>rest. read_value E (bs @ rest) = Inr (Some (canon_value (tables E) v), rest)"
proof (cases v)
  case (String s)
  with assms(2) have ws: "wire_str (tables E) s" by (simp add: wire_value_def)
  obtain tg bs where "enc_str (tables E) s = tg # bs"
    "\<And>rest. read_value E (tg # bs @ rest) = Inr (Some (canon_value (tables E) (String s)), rest)"
    by (rule decode_str [OF assms(1) ws]) blast
  with String show ?thesis by (intro that [of "tg # bs"]) simp_all
next
  case (JidVal j)
  then have w: "wire_str (tables E) (user j)" "\<not> needs_interop_jid (server j) (integrator j)"
    "server_supports_ad_jid (server j) \<longrightarrow> device j \<le> 255" using assms(2) by (auto simp: wire_value_def)
  note u = read_str [OF assms(1) w(1)]
  have e: "user j = [] \<Longrightarrow> canon_str (tables E) (user j) = []"
    using hint_packed(3) [of "tables E" "[]"] by (simp add: canon_str_def)
  show ?thesis
  proof (cases "device j > 0 \<and> server_supports_ad_jid (server j)")
    case True
    then have "unat (device j) < 2 ^ 8" using w(3) by (simp add: word_le_nat_alt)
    note b = bit_less_exp [OF this]
    have "ucast (ucast (device j) :: u8) = device j" by (rule bit_word_eqI) (use b in \<open>auto simp: bit_simps\<close>)
    then have cv: "canon_value (tables E) v = JidVal \<lparr>user = canon_str (tables E) (user j), server = server j,
        agent = 0, device = ucast (ucast (device j) :: u8), integrator = 0\<rparr>"
      using True JidVal by (simp add: canon_value_def)
    have enc: "enc_value (tables E) v =
        Inr (AD_JID # server_to_domain_type (server j) # ucast (device j) # enc_str (tables E) (user j))"
      using True w JidVal by (simp add: enc_jid_def)
    show ?thesis
      by (rule that [OF enc]) (use True in \<open>simp add: read_jid_tags read_ad_enc [OF u] cv\<close>)
  next
    case False
    define uw where "uw = (if user j = [] then [LIST_EMPTY] else enc_str (tables E) (user j))"
    have enc: "enc_value (tables E) v = Inr (JID_PAIR # uw @ enc_str (tables E) (server_as_str (server j)))"
      by (simp only: JidVal enc_value.simps enc_jid_def w(2) False if_False uw_def append.simps)
    have cv: "canon_value (tables E) v = JidVal \<lparr>user = canon_str (tables E) (user j), server = server j,
        agent = 0, device = 0, integrator = 0\<rparr>"
      using False JidVal by (auto simp: canon_value_def word_gt_0)
    show ?thesis
      by (rule that [OF enc])
        (simp add: read_jid_tags cv read_pair_enc [OF assms(1) u e, of "server j", folded uw_def])
  qed
qed

section \<open>Nodes\<close>

definition canon_attrs :: "token_tables \<Rightarrow> (str \<times> node_value) list \<Rightarrow> (str \<times> node_value) list" where
  "canon_attrs T ats = map (\<lambda>(k, v). (canon_str T k, canon_value T v)) ats"

definition wire_attrs :: "token_tables \<Rightarrow> (str \<times> node_value) list \<Rightarrow> bool" where
  "wire_attrs T ats \<longleftrightarrow> list_all (\<lambda>(k, v). wire_str T k \<and> wire_value T v) ats"

text \<open>What comes back for a node: text that is written as raw bytes is read as bytes, and an empty list of
  children as no content.\<close>

fun canon_node :: "token_tables \<Rightarrow> node \<Rightarrow> node"
  and canon_content :: "token_tables \<Rightarrow> node_content option \<Rightarrow> node_content option"
  and canon_nodes :: "token_tables \<Rightarrow> node list \<Rightarrow> node list" where
  "canon_node T (Node tg ats c) = Node (canon_str T tg) (canon_attrs T ats) (canon_content T c)"
| "canon_content T None = None"
| "canon_content T (Some (Bytes b)) = Some (Bytes b)"
| "canon_content T (Some (Text s)) =
     Some (if raw_hint (string_hint_of T s) then Bytes s else Text (canon_str T s))"
| "canon_content T (Some (Nodes ns)) = (if ns = [] then None else Some (Nodes (canon_nodes T ns)))"
| "canon_nodes T [] = []"
| "canon_nodes T (n # ns) = canon_node T n # canon_nodes T ns"

fun wire_node :: "token_tables \<Rightarrow> node \<Rightarrow> bool"
  and wire_content :: "token_tables \<Rightarrow> node_content option \<Rightarrow> bool"
  and wire_nodes :: "token_tables \<Rightarrow> node list \<Rightarrow> bool" where
  "wire_node T (Node tg ats c) \<longleftrightarrow>
     node_list_len ats c \<le> 65535 \<and> wire_str T tg \<and> wire_attrs T ats \<and> wire_content T c"
| "wire_content T None \<longleftrightarrow> True"
| "wire_content T (Some (Bytes b)) \<longleftrightarrow> length b < 2 ^ 32"
| "wire_content T (Some (Text s)) \<longleftrightarrow> wire_str T s"
| "wire_content T (Some (Nodes ns)) \<longleftrightarrow> length ns \<le> 65535 \<and> wire_nodes T ns"
| "wire_nodes T [] \<longleftrightarrow> True"
| "wire_nodes T (n # ns) \<longleftrightarrow> wire_node T n \<and> wire_nodes T ns"

lemma read_attrs_enc:
  assumes "wire_env_ok E" and "wire_attrs (tables E) ats"
  shows "\<exists>bs. enc_attrs (tables E) ats = Inr bs \<and>
    (\<forall>rest. read_attributes E (length ats) (bs @ rest) = Inr (canon_attrs (tables E) ats, rest))"
  using assms(2)
proof (induction ats)
  case (Cons kv ats)
  obtain k v where kv: "kv = (k, v)" by (cases kv)
  with Cons.prems have w: "wire_str (tables E) k" "wire_value (tables E) v" "wire_attrs (tables E) ats"
    by (auto simp: wire_attrs_def)
  note k = read_str [OF assms(1) w(1)]
  obtain vs where v: "enc_value (tables E) v = Inr vs"
    "\<And>rest. read_value E (vs @ rest) = Inr (Some (canon_value (tables E) v), rest)"
    by (rule read_value_enc [OF assms(1) w(2)]) blast
  from Cons.IH [OF w(3)] obtain bs where bs: "enc_attrs (tables E) ats = Inr bs"
    "\<And>rest. read_attributes E (length ats) (bs @ rest) = Inr (canon_attrs (tables E) ats, rest)" by blast
  have a: "read_attribute E (enc_str (tables E) k @ vs @ rest) =
      Inr ((canon_str (tables E) k, canon_value (tables E) v), rest)" for rest
    by (simp add: read_attribute_def rbind_def rmap_def k v(2) unwrap_or_def)
  show ?case
    using bs v(1) a kv
    by (intro exI [of _ "enc_str (tables E) k @ vs @ bs"])
      (simp add: read_attributes_def rbind_def ret_def canon_attrs_def)
qed (simp add: read_attributes_def ret_def canon_attrs_def)

text \<open>The head of the content, as \<open>read_node_open\<close> reads it.\<close>

definition read_open_content :: "wire_env \<Rightarrow> u8 \<Rightarrow> (binary_error, open_content) reader" where
  "read_open_content E ct =
     (if ct = LIST_EMPTY then ret NoContent
      else if ct = LIST_8 \<or> ct = LIST_16 then rmap Children (read_list_size ct)
      else
        rmap (\<lambda>c. case c of Some s \<Rightarrow> Scalar s | None \<Rightarrow> NoContent)
          (read_content_from_tag E (fail Panicked) ct))"

lemma content_bin:
  assumes "bin_tag ct"
  shows "read_content_from_tag E p ct = rbind (len_reader ct) (\<lambda>n. rmap (Some \<circ> Bytes) (read_bytes n))"
  using assms by (auto simp: read_content_from_tag_def len_reader_def bin_tag_def tag_defs)

lemma content_str:
  assumes "\<not> bin_tag ct" and "\<not> list_tag ct"
  shows "read_content_from_tag E p ct =
    rmap (map_option Text) (read_value_as_string_from_tag E (read_value_as_string E) ct)"
  using assms by (auto simp: read_content_from_tag_def tag_kinds)

lemma open_bytes:
  assumes "length b < 2 ^ 32"
  shows "rbind read_u8 (read_open_content E) (enc_bytes b @ rest) = Inr (Scalar (Bytes b), rest)"
proof -
  obtain tg p where p: "enc_bytes b = tg # p @ b" "tg \<in> {BINARY_8, BINARY_20, BINARY_32}"
    "\<And>rest. len_reader tg (p @ rest) = Inr (length b, rest)"
    using enc_bytes_prefix [OF assms] by metis
  have t: "bin_tag tg" "tg \<noteq> LIST_EMPTY" "tg \<noteq> LIST_8" "tg \<noteq> LIST_16"
    using p(2) by (auto simp: bin_tag_def tag_defs)
  show ?thesis
    using p(1,3) t by (simp add: rbind_def read_open_content_def content_bin rmap_def read_bytes_append)
qed

lemma open_text:
  assumes "wire_env_ok E" and "wire_str (tables E) s"
  shows "rbind read_u8 (read_open_content E) (enc_str (tables E) s @ rest) =
    Inr (Scalar (if raw_hint (string_hint_of (tables E) s) then Bytes s else Text (canon_str (tables E) s)), rest)"
proof -
  obtain tg bs where t: "enc_str (tables E) s = tg # bs" "\<not> list_tag tg"
    "bin_tag tg \<longleftrightarrow> raw_hint (string_hint_of (tables E) s)" "bin_tag tg \<Longrightarrow> tg # bs = enc_bytes s"
    "\<And>rest. read_value_as_string_from_tag E (read_value_as_string E) tg (bs @ rest) =
       Inr (Some (canon_str (tables E) s), rest)"
    by (rule decode_str [OF assms]) blast
  show ?thesis
  proof (cases "bin_tag tg")
    case True
    with open_bytes [of s E rest] t assms(2) show ?thesis by (simp add: wire_str_def)
  next
    case False
    have l: "tg \<noteq> LIST_EMPTY" "tg \<noteq> LIST_8" "tg \<noteq> LIST_16" using t(2) by (auto simp: list_tag_def)
    with False t show ?thesis by (simp add: rbind_def read_open_content_def content_str rmap_def)
  qed
qed

lemma list_start_fits: "n \<le> 65535 \<Longrightarrow> \<exists>bs. enc_list_start n = Inr bs"
  by (simp add: enc_list_start_def)

lemma open_children:
  assumes "enc_list_start n = Inr bs"
  shows "rbind read_u8 (read_open_content E) (bs @ rest) =
    Inr (if n = 0 then NoContent else Children n, rest)"
proof (cases "n = 0")
  case True
  then show ?thesis using assms by (auto simp: enc_list_start_def rbind_def read_open_content_def ret_def)
next
  case False
  obtain t b where b: "bs = t # b" "t \<noteq> LIST_EMPTY" "t = LIST_8 \<or> t = LIST_16"
    using assms False by (auto simp: enc_list_start_def tag_defs split: if_splits)
  with read_list_size_enc [OF assms, of rest] False show ?thesis
    by (simp add: rbind_def read_open_content_def rmap_def)
qed

lemma read_node_open_eq:
  "read_node_open E =
     rbind (rbind read_u8 read_list_size) (\<lambda>list_size.
       if list_size = 0 then fail InvalidNode
       else
         rbind (read_value_as_string E) (\<lambda>tg.
           case tg of
             None \<Rightarrow> fail InvalidNode
           | Some tg \<Rightarrow>
               rbind (read_attributes E ((list_size - 1) div 2)) (\<lambda>ats.
               rmap (\<lambda>c. (tg, ats, c))
                 (if even list_size then rbind read_u8 (read_open_content E) else ret NoContent))))"
  unfolding read_node_open_def read_open_content_def ..

definition open_of :: "token_tables \<Rightarrow> node_content option \<Rightarrow> open_content" where
  "open_of T c =
     (case c of
        None \<Rightarrow> NoContent
      | Some (Nodes ns) \<Rightarrow> if ns = [] then NoContent else Children (length ns)
      | Some _ \<Rightarrow> Scalar (the (canon_content T c)))"

text \<open>The head of a node, over the head of its content.\<close>

lemma open_enc:
  assumes "wire_env_ok E" and "wire_node (tables E) (Node tg ats c)"
    and "enc_content (tables E) c = Inr (ch @ cs)"
    and "c \<noteq> None \<Longrightarrow>
      (\<And>rest. rbind read_u8 (read_open_content E) (ch @ rest) = Inr (open_of (tables E) c, rest))"
    and "c = None \<Longrightarrow> ch = []"
  obtains bs where "enc_node (tables E) (Node tg ats c) = Inr (bs @ cs)"
    "\<And>rest. read_node_open E (bs @ rest) =
       Inr ((canon_str (tables E) tg, canon_attrs (tables E) ats, open_of (tables E) c), rest)"
proof -
  let ?T = "tables E" and ?n = "node_list_len ats c"
  from assms(2) have w: "?n \<le> 65535" "wire_str ?T tg" "wire_attrs ?T ats" by auto
  obtain ls where ls: "enc_list_start ?n = Inr ls" using list_start_fits [OF w(1)] by blast
  obtain as where as: "enc_attrs ?T ats = Inr as"
    "\<And>rest. read_attributes E (length ats) (as @ rest) = Inr (canon_attrs ?T ats, rest)"
    using read_attrs_enc [OF assms(1) w(3)] by blast
  have n: "?n \<noteq> 0" "(?n - 1) div 2 = length ats" "even ?n \<longleftrightarrow> c \<noteq> None"
    by (auto simp: node_list_len_def)
  have rd: "read_node_open E (ls @ enc_str ?T tg @ as @ ch @ rest) =
      Inr ((canon_str ?T tg, canon_attrs ?T ats, open_of ?T c), rest)" for rest
    unfolding read_node_open_eq rbind_def [of "rbind read_u8 read_list_size"]
    using n assms(4,5)
    by (cases "c = None")
      (simp_all add: read_list_size_enc [OF ls] rbind_def [of "read_value_as_string E"] read_str [OF assms(1) w(2)]
        rbind_def [of "read_attributes E (length ats)"] as(2) rmap_def ret_def open_of_def [of _ None])
  show thesis
    by (rule that [of "ls @ enc_str ?T tg @ as @ ch"]) (simp_all add: ls as(1) assms(3) rd)
qed

lemma node_roundtrip_at:
  assumes "wire_env_ok E"
  shows "wire_node (tables E) n \<Longrightarrow> d + node_depth n \<le> MAX_NODE_DEPTH \<Longrightarrow>
      \<exists>bs. enc_node (tables E) n = Inr bs \<and>
        (\<forall>rest. read_node_ref_at E d (bs @ rest) = Inr (canon_node (tables E) n, rest))"
    and "wire_content (tables E) c \<Longrightarrow> Suc d + content_depth c \<le> MAX_NODE_DEPTH \<Longrightarrow>
      (case c of
         Some (Nodes ns) \<Rightarrow>
           \<exists>bs. enc_nodes (tables E) ns = Inr bs \<and>
             (\<forall>rest. rtimes (length ns) (read_node_ref_at E (Suc d)) (bs @ rest) =
               Inr (canon_nodes (tables E) ns, rest))
       | _ \<Rightarrow> True)"
    and "wire_nodes (tables E) ns \<Longrightarrow> d + nodes_depth ns \<le> MAX_NODE_DEPTH \<Longrightarrow>
      \<exists>bs. enc_nodes (tables E) ns = Inr bs \<and>
        (\<forall>rest. rtimes (length ns) (read_node_ref_at E d) (bs @ rest) = Inr (canon_nodes (tables E) ns, rest))"
proof (induction n and c and ns arbitrary: d and d and d rule: node_depth_content_depth_nodes_depth.induct)
  case (1 tg ats c)
  let ?T = "tables E"
  have d: "\<not> d \<ge> MAX_NODE_DEPTH" using "1.prems"(2) by simp
  note at = read_node_ref_at.simps [of E d]
  show ?case
  proof (cases "\<exists>ns. c = Some (Nodes ns)")
    case True
    then obtain ns where c: "c = Some (Nodes ns)" by blast
    with "1.prems" have ns: "length ns \<le> 65535" by simp
    obtain ls where ls: "enc_list_start (length ns) = Inr ls" using list_start_fits [OF ns] by blast
    obtain cs where cs: "enc_nodes ?T ns = Inr cs"
      "\<And>rest. rtimes (length ns) (read_node_ref_at E (Suc d)) (cs @ rest) = Inr (canon_nodes ?T ns, rest)"
      using "1.IH" [of d] "1.prems" c by auto
    obtain bs where bs: "enc_node ?T (Node tg ats c) = Inr (bs @ cs)"
      "\<And>rest. read_node_open E (bs @ rest) = Inr ((canon_str ?T tg, canon_attrs ?T ats, open_of ?T c), rest)"
      by (rule open_enc [OF assms "1.prems"(1), of ls cs])
        (auto simp: c ls cs(1) open_children [OF ls] open_of_def)
    have "read_node_ref_at E d ((bs @ cs) @ rest) = Inr (canon_node ?T (Node tg ats c), rest)" for rest
      using cs c by (cases "ns = []") (simp_all add: at d rbind_def bs(2) open_of_def ret_def rmap_def)
    with bs(1) show ?thesis by blast
  next
    case False
    then have "\<exists>ch. enc_content ?T c = Inr (ch @ []) \<and> (c = None \<longrightarrow> ch = []) \<and>
        (c \<noteq> None \<longrightarrow> (\<forall>rest. rbind read_u8 (read_open_content E) (ch @ rest) = Inr (open_of ?T c, rest)))"
      using "1.prems"(1) by (cases c rule: content_depth.cases) (auto simp: open_bytes open_text [OF assms] open_of_def)
    then obtain ch where ch: "enc_content ?T c = Inr (ch @ [])" "c = None \<Longrightarrow> ch = []"
      "\<And>rest. c \<noteq> None \<Longrightarrow> rbind read_u8 (read_open_content E) (ch @ rest) = Inr (open_of ?T c, rest)"
      by blast
    obtain bs where bs: "enc_node ?T (Node tg ats c) = Inr (bs @ [])"
      "\<And>rest. read_node_open E (bs @ rest) = Inr ((canon_str ?T tg, canon_attrs ?T ats, open_of ?T c), rest)"
      by (rule open_enc [OF assms "1.prems"(1) ch(1)]) (use ch in auto)
    have "open_of ?T c = (case canon_content ?T c of None \<Rightarrow> NoContent | Some s \<Rightarrow> Scalar s)"
      using False by (cases c rule: content_depth.cases) (auto simp: open_of_def)
    then have "read_node_ref_at E d (bs @ rest) = Inr (canon_node ?T (Node tg ats c), rest)" for rest
      by (cases "canon_content ?T c") (simp_all add: at d rbind_def ret_def bs(2))
    with bs(1) show ?thesis by auto
  qed
next
  case (7 n ns)
  from "7.prems" have m: "d + node_depth n \<le> MAX_NODE_DEPTH" "d + nodes_depth ns \<le> MAX_NODE_DEPTH"
    "wire_node (tables E) n" "wire_nodes (tables E) ns" by auto
  from "7.IH"(1) [OF m(3,1)] obtain b where b: "enc_node (tables E) n = Inr b"
    "\<And>rest. read_node_ref_at E d (b @ rest) = Inr (canon_node (tables E) n, rest)" by blast
  from "7.IH"(2) [OF m(4,2)] obtain bs where bs: "enc_nodes (tables E) ns = Inr bs"
    "\<And>rest. rtimes (length ns) (read_node_ref_at E d) (bs @ rest) = Inr (canon_nodes (tables E) ns, rest)" by blast
  show ?case
    by (rule exI [of _ "b @ bs"]) (simp add: b bs rbind_def ret_def)
qed (auto simp: ret_def)

section \<open>Nodes that come back as they are\<close>

definition plain_str :: "token_tables \<Rightarrow> str \<Rightarrow> bool" where
  "plain_str T s \<longleftrightarrow> \<not> jid_hint (string_hint_of T s)"

fun exact_value :: "token_tables \<Rightarrow> node_value \<Rightarrow> bool" where
  "exact_value T (String s) \<longleftrightarrow> plain_str T s"
| "exact_value T (JidVal j) \<longleftrightarrow>
     plain_str T (user j) \<and> agent j = 0 \<and> integrator j = 0 \<and>
     (server_supports_ad_jid (server j) \<or> device j = 0)"

fun exact_node :: "token_tables \<Rightarrow> node \<Rightarrow> bool"
  and exact_content :: "token_tables \<Rightarrow> node_content option \<Rightarrow> bool"
  and exact_nodes :: "token_tables \<Rightarrow> node list \<Rightarrow> bool" where
  "exact_node T (Node tg ats c) \<longleftrightarrow>
     plain_str T tg \<and> list_all (\<lambda>(k, v). plain_str T k \<and> exact_value T v) ats \<and> exact_content T c"
| "exact_content T None \<longleftrightarrow> True"
| "exact_content T (Some (Bytes b)) \<longleftrightarrow> True"
| "exact_content T (Some (Text s)) \<longleftrightarrow> plain_str T s \<and> \<not> raw_hint (string_hint_of T s)"
| "exact_content T (Some (Nodes ns)) \<longleftrightarrow> ns \<noteq> [] \<and> exact_nodes T ns"
| "exact_nodes T [] \<longleftrightarrow> True"
| "exact_nodes T (n # ns) \<longleftrightarrow> exact_node T n \<and> exact_nodes T ns"

lemma canon_plain:
  assumes "plain_str T s"
  shows "canon_str T s = s" and "canon_value T (String s) = String s"
  using assms
  by (auto simp: plain_str_def jid_hint_def canon_str_def canon_value_def split: string_hint.splits)

lemma canon_exact_value: "exact_value T v \<Longrightarrow> canon_value T v = v"
  by (cases v) (auto simp: canon_plain canon_value_def [of T "JidVal j" for j])

lemma canon_exact_attrs:
  "list_all (\<lambda>(k, v). plain_str T k \<and> exact_value T v) ats \<Longrightarrow> canon_attrs T ats = ats"
  by (induction ats) (auto simp: canon_attrs_def canon_plain canon_exact_value)

lemma canon_exact:
  "exact_node T n \<Longrightarrow> canon_node T n = n"
  "exact_content T c \<Longrightarrow> canon_content T c = c"
  "exact_nodes T ns \<Longrightarrow> canon_nodes T ns = ns"
  by (induction T n and T c and T ns rule: exact_node_exact_content_exact_nodes.induct)
    (simp_all add: canon_plain canon_exact_attrs)

lemma payload_roundtrip:
  assumes "wire_env_ok E" and "wire_node (tables E) n" and "node_depth n \<le> MAX_NODE_DEPTH"
  obtains bs where "marshal (tables E) n = Inr bs" "unmarshal_packed_ref E bs = Inr (canon_node (tables E) n)"
proof -
  from node_roundtrip_at(1) [OF assms(1,2), of 0] assms(3) obtain bs where
    bs: "enc_node (tables E) n = Inr bs"
    "\<And>rest. read_node_ref_at E 0 (bs @ rest) = Inr (canon_node (tables E) n, rest)" by auto
  have rd: "read_node_ref E bs = Inr (canon_node (tables E) n, [])" using bs(2) [of "[]"] by (simp add: read_node_ref_def)
  have "read_node_ref E [] = Inl UnexpectedEof"
    unfolding read_node_ref_def
    by (subst read_node_ref_at.simps) (simp add: MAX_NODE_DEPTH_def rbind_def read_node_open_def)
  with rd have "bs \<noteq> []" by auto
  then show thesis
    using bs(1) rd
    by (intro that [of "FORMAT_PLAIN # bs"])
      (auto simp: marshal_def marshal_payload payload_def unmarshal_packed_ref_def check_plain_payload_def
        unmarshal_ref_def neq_Nil_conv)
qed

section \<open>Properties\<close>

text \<open>
  C2 (round trip). A node whose strings are UTF-8 of less than 4 GiB, whose JID-like strings name a
  known server, whose JIDs need neither the interop form nor a device above 255, whose lists have at
  most 65535 entries and whose depth is at most 128, is marshalled, and decoding the payload consumes
  all of it and gives the canonical form of the node: the same tree, in which a string written as a
  JID is that JID, text written as raw bytes is bytes, and an empty list of children is no content.
\<close>

theorem codec_roundtrip:
  assumes "wire_env_ok E" and "wire_node (tables E) n" and "node_depth n \<le> MAX_NODE_DEPTH"
  shows "\<exists>bs. marshal (tables E) n = Inr bs \<and> unmarshal_packed_ref E bs = Inr (canon_node (tables E) n)"
  using payload_roundtrip [OF assms] by metis

definition sample_node :: node where
  "sample_node =
     Node (lit ''xml'') [(lit ''type'', String (lit ''alice:3@s.whatsapp.net''))]
       (Some (Nodes [Node (lit ''12'') [] (Some (Text (lit ''read-self'')))]))"

lemma sample_hints:
  "string_hint_of sample_tables (lit ''xml'') = SingleToken 1"
  "string_hint_of sample_tables (lit ''type'') = SingleToken 2"
  "string_hint_of sample_tables (lit ''12'') = PackedNibble"
  "string_hint_of sample_tables (lit ''read-self'') = DoubleToken 0 0"
  "string_hint_of sample_tables (lit ''alice:3@s.whatsapp.net'') =
     JidHint \<lparr>user_end = 5, server_start = 8, meta_device = Some 3, meta_server = Some Pn\<rparr>"
  by code_simp+

lemmas sample_hints_bytes = sample_hints [simplified]

theorem codec_roundtrip_witness:
  "\<exists>bs. marshal sample_tables sample_node = Inr bs \<and>
     unmarshal_packed_ref sample_env bs =
       Inr (Node (lit ''xml'')
         [(lit ''type'', JidVal \<lparr>user = lit ''alice'', server = Pn, agent = 0, device = 3, integrator = 0\<rparr>)]
         (Some (Nodes [Node (lit ''12'') [] (Some (Text (lit ''read-self'')))])))"
proof -
  have t: "tables sample_env = sample_tables" by (simp add: sample_env_def)
  have "wire_node (tables sample_env) sample_node" "node_depth sample_node \<le> MAX_NODE_DEPTH"
    by (simp_all add: t sample_node_def wire_str_def wire_attrs_def wire_value_def sample_hints_bytes node_list_len_def
        utf8_char_def word_less_nat_alt MAX_NODE_DEPTH_def)
  from codec_roundtrip [OF sample_env_ok this] show ?thesis
    by (simp add: t sample_node_def canon_str_def canon_attrs_def canon_value_def sample_hints_bytes raw_hint_def
        meta_jid_def meta_user_def)
qed



end
