(* ===== verification/Inflate.thy ===== *)
theory Inflate
  imports Node
begin

text \<open>
  The pooled zlib layer (\<open>wacore/binary/src/zlib_pool.rs\<close>): the per-thread pool of decompressors, the
  streaming \<open>InflateReader\<close> and the one-shot \<open>decompress_zlib_pooled\<close>. The decompressor itself is the
  crate \<open>zlib_rs\<close>; here it is a parameter, the list of the answers its next calls give. Nothing is
  assumed of the answers: every statement holds for any of them. A decompressor that has no answer
  left is one that fails. All failures of this layer are the error \<open>Zlib\<close>, as \<open>zlib_error\<close> maps them.
\<close>

section \<open>The decompressor\<close>

datatype status = StatusOk | BufError | StreamEnd

text \<open>The answer to one call: a failure, or the input taken, the output produced and the status.\<close>

datatype zcall = ZFail | ZStep (taken: nat) (produced: bytes) (status: status)

record inflate =
  answers :: "zcall list"
  total_in :: nat
  total_out :: nat

text \<open>\<open>decompress_uninit\<close> into the spare capacity of \<open>out\<close>, which grows by what was produced.\<close>

definition inflate_into_spare ::
  "inflate \<Rightarrow> bytes \<Rightarrow> (binary_error, inflate \<times> bytes \<times> status) result" where
  "inflate_into_spare z out =
     (case answers z of
        ZStep c p st # as \<Rightarrow>
          Inr (z\<lparr>answers := as, total_in := total_in z + c, total_out := total_out z + length p\<rparr>, out @ p, st)
      | _ \<Rightarrow> Inl Zlib)"

section \<open>The pool\<close>

text \<open>A parked state is only its identity: \<open>reset\<close> on checkout makes what it held moot.\<close>

record zpool =
  parked :: nat
  pool_retention :: nat

definition DEFAULT_POOL_RETENTION :: nat where "DEFAULT_POOL_RETENTION = 1"

definition pool_init :: zpool where
  "pool_init = \<lparr>parked = 0, pool_retention = DEFAULT_POOL_RETENTION\<rparr>"

definition set_pool_retention :: "nat \<Rightarrow> zpool \<Rightarrow> zpool" where
  "set_pool_retention n P = P\<lparr>pool_retention := n\<rparr>"

definition park :: "zpool \<Rightarrow> zpool" where
  "park P = (if parked P < pool_retention P then P\<lparr>parked := Suc (parked P)\<rparr> else P)"

definition checkout :: "zpool \<Rightarrow> zpool" where
  "checkout P = P\<lparr>parked := parked P - 1\<rparr>"

definition warm_pool :: "zpool \<Rightarrow> zpool" where
  "warm_pool P =
     (if pool_retention P = 0 then P else if parked P = 0 then park P else P)"

definition drain_pool :: "zpool \<Rightarrow> zpool" where
  "drain_pool P = P\<lparr>parked := 0\<rparr>"

definition parked_states :: "zpool \<Rightarrow> nat" where
  "parked_states P = parked P"

section \<open>The streaming reader\<close>

record inflate_reader =
  input_len :: nat
  in_pos :: nat
  decomp :: inflate
  buf :: bytes
  cursor :: nat
  out_total :: nat
  max_out :: nat
  eof :: bool
  stream_end :: bool

text \<open>\<open>with_chunk\<close>: the chunk only sizes the window, which the answers already account for.\<close>

definition inflate_reader_new :: "zcall list \<Rightarrow> nat \<Rightarrow> nat \<Rightarrow> inflate_reader" where
  "inflate_reader_new as input_length limit =
     \<lparr>input_len = input_length, in_pos = 0, decomp = \<lparr>answers = as, total_in = 0, total_out = 0\<rparr>,
      buf = [], cursor = 0, out_total = 0, max_out = limit, eof = False, stream_end = False\<rparr>"

definition available :: "inflate_reader \<Rightarrow> bytes" where
  "available r = drop (cursor r) (buf r)"

definition consume :: "nat \<Rightarrow> inflate_reader \<Rightarrow> inflate_reader" where
  "consume n r = r\<lparr>cursor := min (cursor r + n) (length (buf r))\<rparr>"

definition pump :: "inflate_reader \<Rightarrow> (binary_error, inflate_reader) result" where
  "pump r =
     (let r = r\<lparr>buf := drop (cursor r) (buf r), cursor := 0\<rparr> in
      bind_res (inflate_into_spare (decomp r) (buf r)) (\<lambda>(z, out, st).
        let new_in = total_in z; prev_in = total_in (decomp r);
            made = total_out z - total_out (decomp r);
            r = r\<lparr>buf := out, in_pos := in_pos r + (new_in - prev_in), out_total := out_total r + made,
                  decomp := z\<rparr>
        in if out_total r > max_out r then Inl Zlib
           else if st = StreamEnd then Inr (r\<lparr>eof := True, stream_end := True\<rparr>)
           else if made = 0 then
             (if in_pos r \<ge> input_len r then Inr (r\<lparr>eof := True\<rparr>)
              else if new_in = prev_in then Inl Zlib else Inr r)
           else Inr r))"

lemma pump_answers:
  assumes "pump r = Inr r'"
  shows "length (answers (decomp r')) < length (answers (decomp r))"
  using assms
  by (auto simp: pump_def Let_def inflate_into_spare_def split: list.splits zcall.splits if_splits)

function ensure :: "nat \<Rightarrow> inflate_reader \<Rightarrow> (binary_error, bool \<times> inflate_reader) result" where
  "ensure need r =
     (if length (buf r) - cursor r < need then
        if eof r then Inr (False, r)
        else case pump r of Inl e \<Rightarrow> Inl e | Inr r' \<Rightarrow> ensure need r'
      else Inr (True, r))"
  by pat_completeness auto
termination
  by (relation "measure (\<lambda>(need, r). length (answers (decomp r)))") (auto dest: pump_answers)

declare ensure.simps [simp del]

definition is_done :: "inflate_reader \<Rightarrow> bool" where
  "is_done r \<longleftrightarrow> eof r \<and> cursor r \<ge> length (buf r)"

definition stream_ended :: "inflate_reader \<Rightarrow> bool" where
  "stream_ended r = stream_end r"

definition compressed_progress :: "inflate_reader \<Rightarrow> nat \<times> nat" where
  "compressed_progress r = (in_pos r, input_len r)"

text \<open>
  \<open>read_to_end\<close>. The limit is also tested when the window is full; how full it is belongs to the
  allocator, so \<open>full\<close> is a parameter.
\<close>

function read_to_end :: "(inflate_reader \<Rightarrow> bool) \<Rightarrow> inflate_reader \<Rightarrow> (binary_error, bytes) result" where
  "read_to_end full r =
     (if \<not> eof r then
        if full r \<and> length (buf r) \<ge> Suc (max_out r) then Inl Zlib
        else case pump r of Inl e \<Rightarrow> Inl e | Inr r' \<Rightarrow> read_to_end full r'
      else if \<not> stream_end r then Inl Zlib
      else Inr (drop (cursor r) (buf r)))"
  by pat_completeness auto
termination
  by (relation "measure (\<lambda>(full, r). length (answers (decomp r)))") (auto dest: pump_answers)

declare read_to_end.simps [simp del]

section \<open>The one-shot decompressor\<close>

definition U64_MAX :: nat where "U64_MAX = 2 ^ 64 - 1"

definition saturating_mul :: "nat \<Rightarrow> nat \<Rightarrow> nat" where
  "saturating_mul a b = min (a * b) U64_MAX"

text \<open>The room \<open>grow_by_observed_ratio\<close> asks for, given the capacity the vector has.\<close>

definition grow_by_observed_ratio :: "nat \<Rightarrow> nat \<Rightarrow> inflate \<Rightarrow> nat \<Rightarrow> nat \<Rightarrow> nat" where
  "grow_by_observed_ratio capacity len z compressed_len cap =
     (let consumed = total_in z; prod = total_out z;
          remaining_in = compressed_len - consumed;
          projected =
            (if consumed > 0 \<and> prod > 0
             then saturating_mul (saturating_mul prod remaining_in div consumed) 9 div 8 else 0);
          min_grow = max capacity 4096
      in min (max projected min_grow) (cap - len))"

definition initial_capacity :: "nat \<Rightarrow> nat \<Rightarrow> nat" where
  "initial_capacity compressed_len cap =
     (let floor = min 4096 cap in max floor (min (saturating_mul compressed_len 2) cap))"

text \<open>
  The loop of \<open>decompress_with\<close>, also recording every \<open>reserve\<close> it makes as the pair of the length and
  the room asked for. \<open>capacity\<close> gives the capacity of the vector from its length.
\<close>

function decompress_loop ::
  "(nat \<Rightarrow> nat) \<Rightarrow> nat \<Rightarrow> nat \<Rightarrow> inflate \<Rightarrow> bytes \<Rightarrow> (binary_error, bytes) result \<times> (nat \<times> nat) list" where
  "decompress_loop capacity compressed_len max_size z scratch =
     (let cap = Suc max_size in
      if length scratch \<ge> cap then (Inl Zlib, [])
      else
        case inflate_into_spare z scratch of
          Inl e \<Rightarrow> (Inl e, [])
        | Inr (z', out, st) \<Rightarrow>
            (if length out > max_size then (Inl Zlib, [])
             else if st = StreamEnd then (Inr out, [])
             else if st = BufError \<and> total_in z' = total_in z \<and> total_out z' = total_out z then (Inl Zlib, [])
             else
               let want = grow_by_observed_ratio (capacity (length out)) (length out) z' compressed_len cap;
                   (r, asked) = decompress_loop capacity compressed_len max_size z' out
               in (r, (length out, want) # asked)))"
  by pat_completeness auto
termination
  by (relation "measure (\<lambda>(capacity, compressed_len, max_size, z, scratch). length (answers z))")
    (auto simp: inflate_into_spare_def split: list.splits zcall.splits)

declare decompress_loop.simps [simp del]

definition decompress_with ::
  "(nat \<Rightarrow> nat) \<Rightarrow> inflate \<Rightarrow> nat \<Rightarrow> nat \<Rightarrow> (binary_error, bytes) result \<times> (nat \<times> nat) list" where
  "decompress_with capacity z compressed_len max_size =
     (let (r, asked) = decompress_loop capacity compressed_len max_size z []
      in (r, (0, initial_capacity compressed_len (Suc max_size)) # asked))"

definition decompress_zlib_pooled ::
  "(nat \<Rightarrow> nat) \<Rightarrow> zcall list \<Rightarrow> nat \<Rightarrow> nat \<Rightarrow> zpool \<Rightarrow> (binary_error, bytes) result \<times> zpool" where
  "decompress_zlib_pooled capacity as compressed_len max_size P =
     (let P = checkout P;
          z = \<lparr>answers = as, total_in = 0, total_out = 0\<rparr>
      in (fst (decompress_with capacity z compressed_len max_size), park P))"

section \<open>What a reader will still deliver\<close>

text \<open>
  The bytes the remaining answers add to the window, and how the stream ends: with a failure, or at
  an end of stream of which \<open>stream_ended\<close> says whether it is a proper one.
\<close>

primrec future ::
  "zcall list \<Rightarrow> nat \<Rightarrow> nat \<Rightarrow> nat \<Rightarrow> nat \<Rightarrow> bytes \<times> (binary_error, bool) result" where
  "future [] pos len out limit = ([], Inl Zlib)"
| "future (a # as) pos len out limit =
     (case a of
        ZFail \<Rightarrow> ([], Inl Zlib)
      | ZStep c p st \<Rightarrow>
          (if out + length p > limit then ([], Inl Zlib)
           else if st = StreamEnd then (p, Inr True)
           else if p = [] then
             (if pos + c \<ge> len then ([], Inr False)
              else if c = 0 then ([], Inl Zlib) else future as (pos + c) len out limit)
           else
             let (bs, f) = future as (pos + c) len (out + length p) limit in (p @ bs, f)))"

definition future_of :: "inflate_reader \<Rightarrow> bytes \<times> (binary_error, bool) result" where
  "future_of r =
     (if eof r then ([], Inr (stream_end r))
      else future (answers (decomp r)) (in_pos r) (input_len r) (out_total r) (max_out r))"

definition reader_rest :: "inflate_reader \<Rightarrow> bytes" where
  "reader_rest r = available r @ fst (future_of r)"

definition reader_fate :: "inflate_reader \<Rightarrow> (binary_error, bool) result" where
  "reader_fate r = snd (future_of r)"

text \<open>The cursor stays inside the window, and the flag of a proper end is only set at an end.\<close>

definition reader_inv :: "inflate_reader \<Rightarrow> bool" where
  "reader_inv r \<longleftrightarrow> cursor r \<le> length (buf r) \<and> (stream_end r \<longrightarrow> eof r)"

lemma reader_inv_new: "reader_inv (inflate_reader_new as n limit)"
  by (simp add: reader_inv_def inflate_reader_new_def)

lemma consume_available [simp]: "available (consume n r) = drop n (available r)"
  by (auto simp: available_def consume_def min_def add.commute)

lemma consume_future [simp]: "future_of (consume n r) = future_of r"
  by (simp add: future_of_def consume_def)

lemma consume_inv: "reader_inv r \<Longrightarrow> reader_inv (consume n r)"
  by (simp add: reader_inv_def consume_def)

lemma pump_step:
  assumes "pump r = Inr r'" and "\<not> eof r" and "\<not> stream_end r"
  obtains p where "available r' = available r @ p" "reader_inv r'"
    "future_of r = (p @ fst (future_of r'), snd (future_of r'))" "\<not> eof r' \<Longrightarrow> \<not> stream_end r'"
proof -
  from assms(1) obtain c p st as where a: "answers (decomp r) = ZStep c p st # as"
    by (auto simp: pump_def Let_def inflate_into_spare_def split: list.splits zcall.splits)
  show thesis
    by (rule that [of p])
      (use assms a in \<open>auto simp: pump_def Let_def inflate_into_spare_def available_def future_of_def
        reader_inv_def case_prod_beta split: if_splits\<close>)
qed

lemma pump_fails:
  assumes "pump r = Inl e" and "\<not> eof r"
  shows "future_of r = ([], Inl e)"
  using assms
  by (auto simp: pump_def Let_def inflate_into_spare_def future_of_def split: list.splits zcall.splits if_splits)

lemma ensure_spec:
  assumes "reader_inv r"
  shows "case ensure need r of
      Inr (b, r') \<Rightarrow>
        reader_inv r' \<and> reader_rest r' = reader_rest r \<and> reader_fate r' = reader_fate r \<and>
        (\<exists>zs. available r' = available r @ zs) \<and> (b \<longleftrightarrow> need \<le> length (available r')) \<and>
        (\<not> b \<longrightarrow> available r' = reader_rest r' \<and> reader_fate r' = Inr (stream_end r'))
    | Inl e \<Rightarrow> reader_fate r = Inl e \<and> length (reader_rest r) < need"
  using assms
proof (induction need r rule: ensure.induct)
  case (1 need r)
  have len: "length (buf r) - cursor r = length (available r)" by (simp add: available_def)
  show ?case
  proof (cases "length (available r) < need \<and> \<not> eof r")
    case False
    then show ?thesis using "1.prems"
      by (auto simp: ensure.simps [of need r] len reader_rest_def reader_fate_def future_of_def)
  next
    case True
    then have end': "\<not> stream_end r" using "1.prems" by (auto simp: reader_inv_def)
    show ?thesis
    proof (cases "pump r")
      case (Inl e)
      with True pump_fails [of r e] show ?thesis
        by (simp add: ensure.simps [of need r] len reader_rest_def reader_fate_def)
    next
      case (Inr r')
      from pump_step [OF Inr _ end'] True obtain p where p: "available r' = available r @ p" "reader_inv r'"
        "future_of r = (p @ fst (future_of r'), snd (future_of r'))" by blast
      then have same: "reader_rest r' = reader_rest r" "reader_fate r' = reader_fate r"
        by (simp_all add: reader_rest_def reader_fate_def)
      have e: "ensure need r = ensure need r'" using True Inr by (simp add: ensure.simps [of need r] len)
      have IH: "case ensure need r' of
          Inr (b, r'') \<Rightarrow>
            reader_inv r'' \<and> reader_rest r'' = reader_rest r' \<and> reader_fate r'' = reader_fate r' \<and>
            (\<exists>zs. available r'' = available r' @ zs) \<and> (b \<longleftrightarrow> need \<le> length (available r'')) \<and>
            (\<not> b \<longrightarrow> available r'' = reader_rest r'' \<and> reader_fate r'' = Inr (stream_end r''))
        | Inl e \<Rightarrow> reader_fate r' = Inl e \<and> length (reader_rest r') < need"
        by (rule "1.IH") (use True Inr p(2) len in auto)
      show ?thesis unfolding e using IH same p(1) by (auto split: sum.splits)
    qed
  qed
qed

lemma read_to_end_spec:
  assumes "reader_inv r" and "length (buf r) \<le> out_total r" and "out_total r \<le> max_out r"
  shows "read_to_end full r = (if reader_fate r = Inr True then Inr (reader_rest r) else Inl Zlib)"
  using assms
proof (induction full r rule: read_to_end.induct)
  case (1 full r)
  show ?case
  proof (cases "eof r")
    case True
    then show ?thesis
      by (simp add: read_to_end.simps [of full r] reader_fate_def reader_rest_def future_of_def available_def)
  next
    case False
    then have end': "\<not> stream_end r" using "1.prems"(1) by (auto simp: reader_inv_def)
    have full: "\<not> length (buf r) \<ge> Suc (max_out r)" using "1.prems"(2,3) by simp
    show ?thesis
    proof (cases "pump r")
      case (Inl e)
      then have "e = Zlib"
        by (auto simp: pump_def Let_def inflate_into_spare_def split: list.splits zcall.splits if_splits)
      with Inl False full pump_fails [OF Inl False] show ?thesis
        by (simp add: read_to_end.simps [of full r] reader_fate_def)
    next
      case (Inr r')
      from pump_step [OF Inr False end'] obtain p where p: "reader_inv r'" "available r' = available r @ p"
        "future_of r = (p @ fst (future_of r'), snd (future_of r'))" by blast
      have "length (buf r') \<le> out_total r'" "out_total r' \<le> max_out r'"
        using Inr "1.prems"(2) by (auto simp: pump_def Let_def inflate_into_spare_def
            split: list.splits zcall.splits if_splits)
      with "1.IH" [OF _ _ Inr] False full p(1) Inr show ?thesis
        by (simp add: read_to_end.simps [of full r] reader_fate_def reader_rest_def p(2,3))
    qed
  qed
qed

lemma future_bounded: "out \<le> limit \<Longrightarrow> out + length (fst (future as pos len out limit)) \<le> limit"
proof (induction as arbitrary: pos out)
  case (Cons a as)
  show ?case
  proof (cases a)
    case (ZStep c p st)
    have "out + length p \<le> limit \<Longrightarrow>
        out + length p + length (fst (future as (pos + c) len (out + length p) limit)) \<le> limit"
      by (rule Cons.IH)
    with ZStep Cons.IH [OF Cons.prems, of "pos + c"] Cons.prems show ?thesis
      by (auto simp: case_prod_beta Let_def)
  qed (use Cons.prems in simp)
qed simp

section \<open>The one-shot loop\<close>

definition request_ok :: "nat \<Rightarrow> nat \<times> nat \<Rightarrow> bool" where
  "request_ok max_size q \<longleftrightarrow> (case q of (len, want) \<Rightarrow> 0 < want \<and> len + want \<le> Suc max_size)"

lemma grow_request:
  assumes "len \<le> max_size"
  shows "request_ok max_size (len, grow_by_observed_ratio capacity len z n (Suc max_size))"
proof -
  have "0 < min (max p (max capacity 4096)) (Suc max_size - len) \<and>
      len + min (max p (max capacity 4096)) (Suc max_size - len) \<le> Suc max_size" for p
    using assms by (auto simp: min_def max_def)
  then show ?thesis by (simp only: request_ok_def grow_by_observed_ratio_def Let_def prod.case)
qed

lemma decompress_loop_spec:
  "(case fst (decompress_loop capacity n max_size z scratch) of Inr bs \<Rightarrow> length bs \<le> max_size | Inl e \<Rightarrow> e = Zlib) \<and>
   list_all (request_ok max_size) (snd (decompress_loop capacity n max_size z scratch))"
proof (induction capacity n max_size z scratch rule: decompress_loop.induct)
  case (1 capacity n max_size z scratch)
  show ?case
  proof (cases "inflate_into_spare z scratch")
    case (Inl e)
    then have "e = Zlib" by (auto simp: inflate_into_spare_def split: list.splits zcall.splits)
    with Inl show ?thesis by (simp add: decompress_loop.simps [of capacity n max_size z scratch] Let_def)
  next
    case (Inr w)
    obtain z' out st where w: "w = (z', out, st)" by (cases w)
    show ?thesis
    proof (cases "length scratch \<ge> Suc max_size \<or> length out > max_size \<or> st = StreamEnd \<or>
        st = BufError \<and> total_in z' = total_in z \<and> total_out z' = total_out z")
      case True
      then show ?thesis
        by (auto simp: decompress_loop.simps [of capacity n max_size z scratch] Let_def Inr w)
    next
      case False
      note IH = "1.IH" [OF refl _ Inr w [symmetric] refl]
      with False grow_request [of "length out" max_size] show ?thesis
        by (simp add: decompress_loop.simps [of capacity n max_size z scratch] Let_def Inr w case_prod_beta)
    qed
  qed
qed

section \<open>Properties\<close>

text \<open>
  C25 (decompression bombs). Whatever the decompressor answers, the one-shot inflate returns at most
  \<open>max_size\<close> bytes or the error \<open>Zlib\<close>, it always returns, and no growth of the output vector asks for
  a length beyond \<open>max_size + 1\<close>; every later request asks for at least one byte, and neither the
  clamp of the first one nor the subtraction from the cap can go wrong.
\<close>

theorem decompress_bounded:
  "(case fst (decompress_with capacity z n max_size) of Inr bs \<Rightarrow> length bs \<le> max_size | Inl e \<Rightarrow> e = Zlib) \<and>
   list_all (request_ok max_size) (snd (decompress_with capacity z n max_size))"
  using decompress_loop_spec [where capacity = capacity and n = n and max_size = max_size and z = z and scratch = "[]"]
  by (simp add: decompress_with_def case_prod_beta Let_def request_ok_def initial_capacity_def)

text \<open>
  C33 (draining a stream). Draining a fresh reader gives exactly the bytes the stream delivers
  when it ends with its terminator, and an error when it fails, overruns its limit or is truncated;
  the result never exceeds the limit, and when the window happens to be full makes no difference.
\<close>

theorem read_to_end_all_or_nothing:
  "read_to_end full (inflate_reader_new as n limit) =
     (if reader_fate (inflate_reader_new as n limit) = Inr True
      then Inr (reader_rest (inflate_reader_new as n limit)) else Inl Zlib) \<and>
   length (reader_rest (inflate_reader_new as n limit)) \<le> limit"
proof -
  let ?r = "inflate_reader_new as n limit"
  have "length (reader_rest ?r) \<le> limit"
    using future_bounded [of 0 limit as 0 n]
    by (simp add: reader_rest_def available_def future_of_def inflate_reader_new_def)
  moreover have "read_to_end full ?r = (if reader_fate ?r = Inr True then Inr (reader_rest ?r) else Inl Zlib)"
    by (rule read_to_end_spec [OF reader_inv_new]) (simp_all add: inflate_reader_new_def)
  ultimately show ?thesis by blast
qed

end
