(* ===== verification/Node_Stream.thy ===== *)
theory Node_Stream
  imports Inflate Marshal
begin

text \<open>
  Incremental decoding of one node (\<open>wacore/binary/src/stream.rs\<close>). A \<open>NodeStream\<close> is a cursor over a
  source of bytes: node bytes in memory, or node bytes inflated on demand. An error ends the use of
  a stream, so the operations return the new state only when they succeed.
\<close>

section \<open>Sources\<close>

definition MAX_DECOMPRESSED_SIZE :: nat where "MAX_DECOMPRESSED_SIZE = 16 * 1024 * 1024"

datatype source = Plain bytes nat | Inflating inflate_reader

fun source_available :: "source \<Rightarrow> bytes" where
  "source_available (Plain data pos) = drop pos data"
| "source_available (Inflating r) = available r"

fun source_consume :: "nat \<Rightarrow> source \<Rightarrow> source" where
  "source_consume n (Plain data pos) = Plain data (min (pos + n) (length data))"
| "source_consume n (Inflating r) = Inflating (consume n r)"

fun source_ensure :: "nat \<Rightarrow> source \<Rightarrow> (binary_error, bool \<times> source) result" where
  "source_ensure need (Plain data pos) = Inr (length data - pos \<ge> need, Plain data pos)"
| "source_ensure need (Inflating r) = map_res (\<lambda>(b, r). (b, Inflating r)) (ensure need r)"

text \<open>The abstract view: the bytes still to come, how they end, and that the position is in range.\<close>

fun source_rest :: "source \<Rightarrow> bytes" where
  "source_rest (Plain data pos) = drop pos data"
| "source_rest (Inflating r) = reader_rest r"

fun source_fate :: "source \<Rightarrow> (binary_error, bool) result" where
  "source_fate (Plain data pos) = Inr True"
| "source_fate (Inflating r) = reader_fate r"

fun source_inv :: "source \<Rightarrow> bool" where
  "source_inv (Plain data pos) \<longleftrightarrow> pos \<le> length data"
| "source_inv (Inflating r) \<longleftrightarrow> reader_inv r"

definition grow :: "source \<Rightarrow> nat \<Rightarrow> (binary_error, bool \<times> source) result" where
  "grow s have_len =
     map_res (\<lambda>(b, s). (b \<or> length (source_available s) > have_len, s))
       (source_ensure (max have_len 64 * 2) s)"

section \<open>What a source promises\<close>

text \<open>
  The window is a prefix of the bytes to come; consuming drops from both; a call for more bytes
  changes neither the bytes to come nor their end, extends the window, and says no only when the
  window is everything; it fails only as the stream itself does.
\<close>

locale byte_source =
  fixes inv :: "'s \<Rightarrow> bool"
    and window :: "'s \<Rightarrow> bytes"
    and advance :: "nat \<Rightarrow> 's \<Rightarrow> 's"
    and more :: "nat \<Rightarrow> 's \<Rightarrow> (binary_error, bool \<times> 's) result"
    and rest :: "'s \<Rightarrow> bytes"
    and fate :: "'s \<Rightarrow> (binary_error, bool) result"
  assumes window_rest: "inv s \<Longrightarrow> \<exists>zs. rest s = window s @ zs"
    and advance: "inv s \<Longrightarrow> n \<le> length (window s) \<Longrightarrow>
      inv (advance n s) \<and> rest (advance n s) = drop n (rest s) \<and> fate (advance n s) = fate s"
    and more_Inr: "inv s \<Longrightarrow> more n s = Inr (b, s') \<Longrightarrow>
      inv s' \<and> rest s' = rest s \<and> fate s' = fate s \<and> (\<exists>zs. window s' = window s @ zs) \<and>
      (b \<longleftrightarrow> n \<le> length (window s')) \<and> (\<not> b \<longrightarrow> window s' = rest s')"
    and more_Inl: "inv s \<Longrightarrow> more n s = Inl e \<Longrightarrow> fate s = Inl e"
begin

lemma window_bound: "inv s \<Longrightarrow> length (window s) \<le> length (rest s)"
  using window_rest by fastforce

text \<open>
  Retrying a reader on a growing window: for any function that satisfies the loop's equation, on a
  stream that ends without failure, the verdict is the reader's verdict on all the bytes to come.
\<close>

lemma retry_verdict:
  assumes p: "stable UnexpectedEof p" "consumes 0 p"
    and loop: "\<And>s. inv s \<Longrightarrow> go s =
      (case p (window s) of
         Inr (v, r) \<Rightarrow> Inr (v, length (window s) - length r, s)
       | Inl e \<Rightarrow>
           if e \<noteq> UnexpectedEof then Inl e
           else bind_res (more (max (length (window s)) 64 * 2) s) (\<lambda>(b, s').
                  if b \<or> length (window s') > length (window s) then go s' else Inl UnexpectedEof))"
    and s: "inv s" "fate s = Inr f"
  shows "case p (rest s) of
      Inr (v, r) \<Rightarrow>
        \<exists>used s'. go s = Inr (v, used, s') \<and> inv s' \<and> rest s' = rest s \<and> fate s' = Inr f \<and>
          used \<le> length (window s') \<and> drop used (rest s) = r
    | Inl e \<Rightarrow> go s = Inl e"
  using s
proof (induction "length (rest s) - length (window s)" arbitrary: s rule: less_induct)
  case less
  obtain zs where zs: "rest s = window s @ zs" using window_rest less.prems(1) by blast
  show ?case
  proof (cases "p (window s)")
    case (Inr w)
    obtain v r where w: "w = (v, r)" by (cases w)
    with Inr have pw: "p (window s) = Inr (v, r)" by simp
    have "p (rest s) = Inr (v, r @ zs)" using stable_Inr [OF p(1) pw] zs by simp
    moreover have "length r \<le> length (window s)" "drop (length (window s) - length r) (window s) = r"
      using consumesD [OF p(2) pw] consumes_suffix [OF p(2) pw] by auto
    ultimately show ?thesis using pw less.prems zs by (auto simp: loop [OF less.prems(1)])
  next
    case (Inl e)
    show ?thesis
    proof (cases "e = UnexpectedEof")
      case False
      then have "p (rest s) = Inl e" using stable_Inl [OF p(1) Inl] zs by simp
      with Inl False show ?thesis by (simp add: loop [OF less.prems(1)])
    next
      case True
      obtain b s' where m: "more (max (length (window s)) 64 * 2) s = Inr (b, s')"
        using more_Inl [OF less.prems(1)] less.prems(2)
        by (cases "more (max (length (window s)) 64 * 2) s") (fastforce+)
      note ms = more_Inr [OF less.prems(1) m]
      show ?thesis
      proof (cases "b \<or> length (window s') > length (window s)")
        case grown: True
        have "length (window s) < length (window s')" using grown ms by auto
        moreover have "length (window s') \<le> length (rest s')" using ms window_bound by blast
        ultimately have "length (rest s') - length (window s') < length (rest s) - length (window s)"
          using conjunct1 [OF conjunct2 [OF ms]] by simp
        note IH = less.hyps [OF this]
        have eq: "rest s' = rest s" "inv s'" "fate s' = Inr f" using ms less.prems(2) by simp_all
        have "go s = go s'" using Inl True m grown by (simp add: loop [OF less.prems(1)])
        then show ?thesis using IH [OF eq(2,3), unfolded eq(1)] by (simp only:)
      next
        case False
        then have "window s' = window s" using ms by auto
        with False ms have "window s = rest s" by simp
        with Inl True have "p (rest s) = Inl UnexpectedEof" by simp
        with Inl True m False show ?thesis by (simp add: loop [OF less.prems(1)])
      qed
    qed
  qed
qed

end
interpretation src: byte_source source_inv source_available source_consume source_ensure source_rest source_fate
proof (unfold_locales, goal_cases)
  case (1 s)
  then show ?case by (cases s) (simp_all add: reader_rest_def)
next
  case (2 s n)
  then show ?case
    by (cases s) (auto simp: consume_inv reader_rest_def reader_fate_def min_def add.commute)
next
  case (3 s n b s')
  show ?case
  proof (cases s)
    case (Plain data pos)
    with 3 show ?thesis by auto
  next
    case (Inflating r)
    with 3 obtain r' where "ensure n r = Inr (b, r')" "s' = Inflating r'" by (auto simp: map_res_Inr_iff)
    with 3(1) Inflating ensure_spec [of r n] show ?thesis by simp
  qed
next
  case (4 s n e)
  then obtain r where "s = Inflating r" "ensure n r = Inl e" by (cases s) auto
  with 4(1) ensure_spec [of r n] show ?case by simp
qed

lemma grow_larger:
  assumes "source_inv s" and "grow s (length (source_available s)) = Inr (True, s')"
  shows "source_inv s' \<and> length (source_rest s') - length (source_available s') <
     length (source_rest s) - length (source_available s)"
proof -
  let ?n = "max (length (source_available s)) 64 * 2"
  from assms(2) obtain b where m: "source_ensure ?n s = Inr (b, s')"
    "b \<or> length (source_available s') > length (source_available s)"
    by (auto simp: grow_def map_res_Inr_iff)
  note ms = src.more_Inr [OF assms(1) m(1)]
  then have "length (source_available s) < length (source_available s')" using m(2) by auto
  moreover have "length (source_available s') \<le> length (source_rest s)"
    using ms src.window_bound [of s'] by simp
  ultimately show ?thesis using ms by simp
qed

section \<open>Decoding from the window\<close>

text \<open>\<open>decode_next\<close> and, for a reader that builds nothing, \<open>skip_next\<close>; the result carries the bytes used.
  Slicing the window with a position out of range would panic.\<close>

function decode_next ::
  "source \<Rightarrow> (binary_error, 'a) reader \<Rightarrow> (binary_error, 'a \<times> nat \<times> source) result" where
  "decode_next s decode =
     (if \<not> source_inv s then Inl Panicked
      else case decode (source_available s) of
        Inr (v, r) \<Rightarrow> Inr (v, length (source_available s) - length r, s)
      | Inl e \<Rightarrow>
          if e \<noteq> UnexpectedEof then Inl e
          else case grow s (length (source_available s)) of
                 Inl e \<Rightarrow> Inl e
               | Inr (True, s') \<Rightarrow> decode_next s' decode
               | Inr (False, s') \<Rightarrow> Inl UnexpectedEof)"
  by pat_completeness auto
termination
  by (relation "measure (\<lambda>(s, decode). length (source_rest s) - length (source_available s))")
    (auto dest: grow_larger)

declare decode_next.simps [simp del]

definition skip_next :: "source \<Rightarrow> (binary_error, unit) reader \<Rightarrow> (binary_error, nat \<times> source) result" where
  "skip_next s walk = map_res (\<lambda>(_, used, s). (used, s)) (decode_next s walk)"

section \<open>The cursor\<close>

text \<open>\<open>levels\<close> holds the children still unread of each open node, the innermost first.\<close>

record node_stream =
  source :: source
  pending :: nat
  consumed :: nat
  levels :: "nat list"
  root_done :: bool

definition with_source :: "source \<Rightarrow> node_stream" where
  "with_source s = \<lparr>source = s, pending = 0, consumed = 0, levels = [], root_done = False\<rparr>"

definition from_node_bytes :: "bytes \<Rightarrow> node_stream" where
  "from_node_bytes node_bytes = with_source (Plain node_bytes 0)"

text \<open>\<open>zlib\<close> gives the answers of the decompressor on a compressed input.\<close>

definition from_packed :: "(bytes \<Rightarrow> zcall list) \<Rightarrow> bytes \<Rightarrow> (binary_error, node_stream) result" where
  "from_packed zlib packed =
     (case packed of
        [] \<Rightarrow> Inl EmptyData
      | format # node_bytes \<Rightarrow>
          if format AND FORMAT_COMPRESSED \<noteq> 0
          then Inr (with_source (Inflating
                 (inflate_reader_new (zlib node_bytes) (length node_bytes) MAX_DECOMPRESSED_SIZE)))
          else Inr (from_node_bytes node_bytes))"

definition is_compressed :: "node_stream \<Rightarrow> bool" where
  "is_compressed st = (case source st of Inflating r \<Rightarrow> True | Plain d p \<Rightarrow> False)"

definition depth :: "node_stream \<Rightarrow> nat" where
  "depth st = length (levels st)"

definition settle :: "node_stream \<Rightarrow> node_stream" where
  "settle st =
     (if pending st \<noteq> 0 then
        st\<lparr>source := source_consume (pending st) (source st), consumed := consumed st + pending st,
           pending := 0\<rparr>
      else st)"

definition take_slot :: "node_stream \<Rightarrow> bool \<times> node_stream" where
  "take_slot st =
     (let st = settle st in
      case levels st of
        remaining # ls \<Rightarrow>
          if remaining = 0 then (False, st) else (True, st\<lparr>levels := (remaining - 1) # ls\<rparr>)
      | [] \<Rightarrow> if root_done st then (False, st) else (True, st\<lparr>root_done := True\<rparr>))"

type_synonym open_node = "str \<times> (str \<times> node_value) list \<times> open_content"

definition child_count :: "open_node \<Rightarrow> nat" where
  "child_count h = (case h of (_, _, Children n) \<Rightarrow> n | _ \<Rightarrow> 0)"

definition stream_open :: "wire_env \<Rightarrow> node_stream \<Rightarrow> (binary_error, open_node option \<times> node_stream) result" where
  "stream_open E st =
     (case take_slot st of
        (False, st) \<Rightarrow> Inr (None, st)
      | (True, st) \<Rightarrow>
          if length (levels st) \<ge> MAX_NODE_DEPTH then Inl MaxDepthExceeded
          else map_res
            (\<lambda>(head, used, s). (Some head, st\<lparr>source := s, pending := used, levels := child_count head # levels st\<rparr>))
            (decode_next (source st) (read_node_open E)))"

definition next_child :: "wire_env \<Rightarrow> node_stream \<Rightarrow> (binary_error, node option \<times> node_stream) result" where
  "next_child E st =
     (case take_slot st of
        (False, st) \<Rightarrow> Inr (None, st)
      | (True, st) \<Rightarrow>
          map_res (\<lambda>(n, used, s). (Some n, st\<lparr>source := s, pending := used\<rparr>))
            (decode_next (source st) (read_node_ref_at E (length (levels st)))))"

text \<open>Skip one node at the cursor and drop its bytes at once.\<close>

definition skip_one :: "wire_env \<Rightarrow> nat \<Rightarrow> node_stream \<Rightarrow> (binary_error, node_stream) result" where
  "skip_one E d st =
     map_res (\<lambda>(used, s). st\<lparr>source := source_consume used s, consumed := consumed st + used\<rparr>)
       (skip_next (source st) (skip_node_at E d))"

primrec skip_many :: "wire_env \<Rightarrow> nat \<Rightarrow> nat \<Rightarrow> node_stream \<Rightarrow> (binary_error, node_stream) result" where
  "skip_many E d 0 st = Inr st"
| "skip_many E d (Suc n) st = bind_res (skip_one E d st) (skip_many E d n)"

definition close :: "wire_env \<Rightarrow> node_stream \<Rightarrow> (binary_error, node_stream) result" where
  "close E st =
     (let st = settle st in
      case levels st of
        [] \<Rightarrow> Inr st
      | remaining # ls \<Rightarrow>
          map_res (\<lambda>st. st\<lparr>levels := ls\<rparr>) (skip_many E (length (levels st)) remaining st))"

lemma skip_many_frame:
  "skip_many E d n st = Inr st' \<Longrightarrow> levels st' = levels st \<and> root_done st' = root_done st \<and> pending st' = pending st"
proof (induction n arbitrary: st)
  case (Suc n)
  then show ?case by (fastforce simp: bind_res_Inr_iff skip_one_def map_res_Inr_iff)
qed simp

lemma settle_levels [simp]: "levels (settle st) = levels st" "root_done (settle st) = root_done st" "pending (settle st) = 0"
  by (simp_all add: settle_def)

lemma close_levels: "close E st = Inr st' \<Longrightarrow> levels st' = tl (levels st)"
  by (auto simp: close_def Let_def map_res_Inr_iff split: list.splits)

function close_all :: "wire_env \<Rightarrow> node_stream \<Rightarrow> (binary_error, node_stream) result" where
  "close_all E st =
     (if levels st = [] then Inr st
      else case close E st of Inl e \<Rightarrow> Inl e | Inr st' \<Rightarrow> close_all E st')"
  by pat_completeness auto
termination
  by (relation "measure (\<lambda>(E, st). length (levels st))") (auto dest: close_levels)

declare close_all.simps [simp del]

definition check_end :: "source \<Rightarrow> (binary_error, unit) result" where
  "check_end s =
     (case s of
        Plain data pos \<Rightarrow> if pos < length data then Inl (LeftoverData (length data - pos)) else Inr ()
      | Inflating r \<Rightarrow>
          bind_res (ensure 1 r) (\<lambda>(b, r).
            if b then Inl (LeftoverData (length (available r)))
            else if \<not> stream_ended r then Inl Zlib else Inr ()))"

definition finish :: "wire_env \<Rightarrow> node_stream \<Rightarrow> (binary_error, unit) result" where
  "finish E st =
     bind_res (close_all E st) (\<lambda>st.
     bind_res
       (if \<not> root_done st then skip_one E 0 (st\<lparr>root_done := True\<rparr>) else Inr st) (\<lambda>st.
     check_end (source (settle st))))"

definition into_inflated :: "(inflate_reader \<Rightarrow> bool) \<Rightarrow> node_stream \<Rightarrow> (binary_error, bytes) result option" where
  "into_inflated full st =
     (if consumed st \<noteq> 0 then None
      else case source st of Plain d p \<Rightarrow> None | Inflating r \<Rightarrow> Some (read_to_end full r))"

section \<open>The window is invisible\<close>

lemma decode_next_verdict:
  assumes "stable UnexpectedEof p" and "consumes 0 p" and "source_inv s" and "source_fate s = Inr f"
  shows "case p (source_rest s) of
      Inr (v, r) \<Rightarrow>
        \<exists>used s'. decode_next s p = Inr (v, used, s') \<and> source_inv s' \<and> source_rest s' = source_rest s \<and>
          source_fate s' = Inr f \<and> used \<le> length (source_available s') \<and> drop used (source_rest s) = r
    | Inl e \<Rightarrow> decode_next s p = Inl e"
proof (rule src.retry_verdict [OF assms(1,2) _ assms(3,4)])
  fix s assume "source_inv s"
  then show "decode_next s p =
      (case p (source_available s) of
         Inr (v, r) \<Rightarrow> Inr (v, length (source_available s) - length r, s)
       | Inl e \<Rightarrow>
           if e \<noteq> UnexpectedEof then Inl e
           else bind_res (source_ensure (max (length (source_available s)) 64 * 2) s) (\<lambda>(b, s').
                  if b \<or> length (source_available s') > length (source_available s)
                  then decode_next s' p else Inl UnexpectedEof))"
    by (subst decode_next.simps)
      (auto simp: grow_def bind_res_conv map_res_conv split: sum.splits prod.splits bool.splits)
qed

text \<open>The bytes at the cursor: those the last call returned are settled at the next one.\<close>

definition at_cursor :: "node_stream \<Rightarrow> bytes" where
  "at_cursor st = drop (pending st) (source_rest (source st))"

definition stream_inv :: "node_stream \<Rightarrow> bool" where
  "stream_inv st \<longleftrightarrow>
     source_inv (source st) \<and> pending st \<le> length (source_available (source st)) \<and>
     (\<exists>f. source_fate (source st) = Inr f) \<and> (\<not> root_done st \<longrightarrow> levels st = [] \<and> pending st = 0)"

definition stream_clean :: "node_stream \<Rightarrow> bool" where
  "stream_clean st \<longleftrightarrow> source_fate (source st) = Inr True"

lemma settle_spec:
  assumes "stream_inv st"
  shows "stream_inv (settle st) \<and> at_cursor (settle st) = at_cursor st \<and> stream_clean (settle st) = stream_clean st \<and>
    source_rest (source (settle st)) = at_cursor st"
  using assms src.advance [of "source st" "pending st"]
  by (auto simp: stream_inv_def settle_def at_cursor_def stream_clean_def)

text \<open>One decoding step of the stream, on a settled cursor.\<close>

lemma decode_step:
  assumes "stable UnexpectedEof p" and "consumes 0 p" and "stream_inv st" and "pending st = 0"
  shows "case p (at_cursor st) of
      Inr (v, r) \<Rightarrow>
        \<exists>used s'. decode_next (source st) p = Inr (v, used, s') \<and> source_inv s' \<and>
          source_fate s' = source_fate (source st) \<and> used \<le> length (source_available s') \<and>
          source_rest s' = at_cursor st \<and> drop used (source_rest s') = r
    | Inl e \<Rightarrow> decode_next (source st) p = Inl e"
proof -
  from assms(3) obtain f where s: "source_inv (source st)" "source_fate (source st) = Inr f"
    by (auto simp: stream_inv_def)
  have c: "at_cursor st = source_rest (source st)" using assms(4) by (simp add: at_cursor_def)
  from decode_next_verdict [OF assms(1,2) s] show ?thesis
    unfolding c by (cases "p (source_rest (source st))") (auto simp: s(2))
qed

lemma decode_taken:
  assumes "stable UnexpectedEof p" and "consumes 0 p" and "stream_inv st" and "pending st = 0"
    and "decode_next (source st) p = Inr (v, used, s)"
  obtains r where "p (at_cursor st) = Inr (v, r)" "source_inv s" "source_fate s = source_fate (source st)"
    "used \<le> length (source_available s)" "source_rest s = at_cursor st" "drop used (source_rest s) = r"
  using decode_step [OF assms(1-4)] assms(5) that by (cases "p (at_cursor st)") (auto split: prod.splits)

section \<open>What is left to read\<close>

text \<open>The children left on every open level, from the innermost out, each at its depth.\<close>

fun todo_levels :: "wire_env \<Rightarrow> nat list \<Rightarrow> (binary_error, unit) reader" where
  "todo_levels E [] = ret ()"
| "todo_levels E (r # rs) =
     rbind (rtimes r (skip_node_at E (Suc (length rs)))) (\<lambda>_. todo_levels E rs)"

definition todo :: "wire_env \<Rightarrow> node_stream \<Rightarrow> (binary_error, unit) reader" where
  "todo E st = (if root_done st then todo_levels E (levels st) else skip_node_at E 0)"

lemma rbind_ret_right: "rbind p ret = p"
proof (rule ext)
  fix bs show "rbind p ret bs = p bs" by (cases "p bs") (auto simp: rbind_def ret_def)
qed

lemma stable_skip_node_at: "wire_env_ok E \<Longrightarrow> stable UnexpectedEof (skip_node_at E d)"
  unfolding skip_node_at_eq by (intro stable_intro)

lemma consumes_skip_node_at: "wire_env_ok E \<Longrightarrow> consumes 0 (skip_node_at E d)"
  unfolding skip_node_at_eq by (intro consumes_intro)

text \<open>Claiming a slot takes one node off the work.\<close>

lemma take_slot_spec:
  assumes "stream_inv st" and "take_slot st = (b, st')"
  shows "stream_inv st' \<and> stream_clean st' = stream_clean st \<and> at_cursor st' = at_cursor st \<and> pending st' = 0 \<and>
    (\<not> b \<longrightarrow> todo E st' = todo E st) \<and>
    (b \<longrightarrow> root_done st' \<and>
      todo E st = rbind (skip_node_at E (length (levels st'))) (\<lambda>_. todo_levels E (levels st')))"
proof -
  note ss = settle_spec [OF assms(1)]
  show ?thesis
  proof (cases "levels st")
    case Nil
    then show ?thesis
      using assms(2) ss
      by (auto simp: take_slot_def Let_def todo_def rbind_ret_right stream_inv_def stream_clean_def at_cursor_def
          split: if_splits)
  next
    case (Cons k ls)
    have root: "root_done st" using assms(1) Cons by (auto simp: stream_inv_def)
    show ?thesis
    proof (cases k)
      case 0
      then show ?thesis using assms(2) Cons ss root by (auto simp: take_slot_def Let_def todo_def)
    next
      case (Suc k')
      then have st': "b" "st' = (settle st)\<lparr>levels := k' # ls\<rparr>"
        using assms(2) Cons by (auto simp: take_slot_def Let_def)
      show ?thesis
        using ss root unfolding st'(2)
        by (auto simp: st'(1) todo_def Cons Suc stream_inv_def stream_clean_def at_cursor_def rbind_assoc)
    qed
  qed
qed

definition same_work :: "wire_env \<Rightarrow> node_stream \<Rightarrow> node_stream \<Rightarrow> bool" where
  "same_work E st st' \<longleftrightarrow>
     stream_inv st' \<and> stream_clean st' = stream_clean st \<and> todo E st' (at_cursor st') = todo E st (at_cursor st)"

lemma next_child_work:
  assumes "wire_env_ok E" and "stream_inv st" and "next_child E st = Inr (c, st')"
  shows "same_work E st st'"
proof -
  obtain b s1 where t: "take_slot st = (b, s1)" by fastforce
  note ts = take_slot_spec [OF assms(2) t, where E = E]
  show ?thesis
  proof (cases b)
    case False
    with assms(3) t have "st' = s1" by (simp add: next_child_def)
    with ts False show ?thesis by (simp add: same_work_def)
  next
    case True
    let ?p = "read_node_ref_at E (length (levels s1))"
    from assms(3) t True obtain n used s where d: "decode_next (source s1) ?p = Inr (n, used, s)"
      "st' = s1\<lparr>source := s, pending := used\<rparr>" by (auto simp: next_child_def map_res_Inr_iff)
    obtain r where r: "?p (at_cursor s1) = Inr (n, r)" "source_inv s" "source_fate s = source_fate (source s1)"
      "used \<le> length (source_available s)" "drop used (source_rest s) = r"
      by (rule decode_taken [OF _ _ _ _ d(1)]) (use ts stable_read_node_ref_at consumes_read_node_ref_at in auto)
    have "todo E st (at_cursor st) = todo_levels E (levels s1) r"
      using ts True r(1) by (simp add: rbind_def skip_node_at_eq [OF assms(1)] rmap_def)
    with d(2) r ts True show ?thesis
      by (auto simp: same_work_def todo_def at_cursor_def stream_inv_def stream_clean_def)
  qed
qed

lemma child_count_skip:
  "wire_env_ok E \<Longrightarrow> read_node_open E bs = Inr (h, r) \<Longrightarrow> skip_node_open E bs = Inr (child_count h, r)"
  by (auto simp: skip_node_open_eq rmap_def child_count_def split: prod.splits open_content.splits)

lemma stream_open_work:
  assumes "wire_env_ok E" and "stream_inv st" and "stream_open E st = Inr (h, st')"
  shows "same_work E st st'"
proof -
  obtain b s1 where t: "take_slot st = (b, s1)" by fastforce
  note ts = take_slot_spec [OF assms(2) t, where E = E]
  show ?thesis
  proof (cases b)
    case False
    with assms(3) t have "st' = s1" by (simp add: stream_open_def)
    with ts False show ?thesis by (simp add: same_work_def)
  next
    case True
    let ?d = "length (levels s1)"
    from assms(3) t True obtain hd' used s where d: "\<not> ?d \<ge> MAX_NODE_DEPTH"
      "decode_next (source s1) (read_node_open E) = Inr (hd', used, s)"
      "st' = s1\<lparr>source := s, pending := used, levels := child_count hd' # levels s1\<rparr>"
      by (auto simp: stream_open_def map_res_Inr_iff split: if_splits)
    obtain r where r: "read_node_open E (at_cursor s1) = Inr (hd', r)" "source_inv s"
      "source_fate s = source_fate (source s1)" "used \<le> length (source_available s)" "drop used (source_rest s) = r"
      by (rule decode_taken [OF _ _ _ _ d(2)]) (use ts stable_read_node_open consumes_read_node_open in auto)
    have "skip_node_at E ?d (at_cursor s1) = rmap (\<lambda>_. ()) (rtimes (child_count hd') (skip_node_at E (Suc ?d))) r"
      using child_count_skip [OF assms(1) r(1)] d(1)
      by (subst skip_node_at.simps) (simp add: rbind_def)
    then have "todo E st (at_cursor st) = todo_levels E (child_count hd' # levels s1) r"
      using ts True by (simp add: rbind_def rmap_def bind_res_conv map_res_conv split: sum.splits prod.splits)
    with d(3) r ts True show ?thesis
      by (auto simp: same_work_def todo_def at_cursor_def stream_inv_def stream_clean_def)
  qed
qed

lemma skip_one_spec:
  assumes "wire_env_ok E" and "stream_inv st" and "pending st = 0"
  shows "case skip_node_at E d (at_cursor st) of
      Inr (_, r) \<Rightarrow> \<exists>st'. skip_one E d st = Inr st' \<and> stream_inv st' \<and> stream_clean st' = stream_clean st \<and> at_cursor st' = r
    | Inl e \<Rightarrow> skip_one E d st = Inl e"
proof -
  note step = decode_step [OF stable_skip_node_at [OF assms(1)] consumes_skip_node_at [OF assms(1)] assms(2,3), of d]
  show ?thesis
  proof (cases "skip_node_at E d (at_cursor st)")
    case (Inl e)
    with step show ?thesis by (simp add: skip_one_def skip_next_def)
  next
    case (Inr ur)
    then obtain r where r: "skip_node_at E d (at_cursor st) = Inr ((), r)" by (cases ur) auto
    with step obtain used s where s: "decode_next (source st) (skip_node_at E d) = Inr ((), used, s)"
      "source_inv s" "source_fate s = source_fate (source st)" "used \<le> length (source_available s)"
      "source_rest s = at_cursor st" "drop used (source_rest s) = r" by auto
    with src.advance [OF s(2,4)] r assms(2,3) show ?thesis
      by (auto simp: skip_one_def skip_next_def stream_inv_def stream_clean_def at_cursor_def)
  qed
qed

lemma skip_many_spec:
  assumes "wire_env_ok E" and "stream_inv st" and "pending st = 0"
  shows "case rtimes n (skip_node_at E d) (at_cursor st) of
      Inr (_, r) \<Rightarrow> \<exists>st'. skip_many E d n st = Inr st' \<and> stream_inv st' \<and> stream_clean st' = stream_clean st \<and> at_cursor st' = r
    | Inl e \<Rightarrow> skip_many E d n st = Inl e"
  using assms(2,3)
proof (induction n arbitrary: st)
  case 0
  then show ?case by (simp add: ret_def)
next
  case (Suc n)
  note one = skip_one_spec [OF assms(1) Suc.prems, of d]
  show ?case
  proof (cases "skip_node_at E d (at_cursor st)")
    case (Inl e)
    with one show ?thesis by (simp add: rbind_def)
  next
    case (Inr ur)
    then obtain r where r: "skip_node_at E d (at_cursor st) = Inr ((), r)" by (cases ur) auto
    with one obtain st1 where s1: "skip_one E d st = Inr st1" "stream_inv st1" "stream_clean st1 = stream_clean st"
      "at_cursor st1 = r" by auto
    have "pending st1 = 0" using s1(1) Suc.prems(2) by (auto simp: skip_one_def map_res_Inr_iff)
    from Suc.IH [OF s1(2) this] s1 r show ?thesis
      by (auto simp: rbind_def ret_def bind_res_conv split: sum.splits)
  qed
qed

text \<open>Leaving a level does its work; nothing else is lost.\<close>

lemma close_spec:
  assumes "wire_env_ok E" and "stream_inv st" and "levels st = k # ls"
  shows "case rtimes k (skip_node_at E (Suc (length ls))) (at_cursor st) of
      Inr (_, r) \<Rightarrow> \<exists>st'. close E st = Inr st' \<and> stream_inv st' \<and> stream_clean st' = stream_clean st \<and>
        at_cursor st' = r \<and> levels st' = ls \<and> root_done st'
    | Inl e \<Rightarrow> close E st = Inl e"
proof -
  have root: "root_done st" using assms(2,3) by (auto simp: stream_inv_def)
  note ss = settle_spec [OF assms(2)]
  have inv: "stream_inv (settle st)" using ss by blast
  note many = skip_many_spec [OF assms(1) inv, where n = k and d = "Suc (length ls)"]
  show ?thesis
  proof (cases "rtimes k (skip_node_at E (Suc (length ls))) (at_cursor st)")
    case (Inl e)
    with many ss assms(3) show ?thesis by (simp add: close_def Let_def)
  next
    case (Inr ur)
    then obtain us r where r: "rtimes k (skip_node_at E (Suc (length ls))) (at_cursor st) = Inr (us, r)"
      by (cases ur) auto
    with many ss obtain st1 where s1: "skip_many E (Suc (length ls)) k (settle st) = Inr st1" "stream_inv st1"
      "stream_clean st1 = stream_clean st" "at_cursor st1 = r" by auto
    from skip_many_frame [OF s1(1)] s1 r assms(3) root show ?thesis
      by (auto simp: close_def Let_def stream_inv_def stream_clean_def at_cursor_def)
  qed
qed

lemma close_work:
  assumes "wire_env_ok E" and "stream_inv st" and "close E st = Inr st'"
  shows "same_work E st st'"
proof (cases "levels st")
  case Nil
  with assms(3) settle_spec [OF assms(2)] show ?thesis
    by (auto simp: close_def Let_def same_work_def todo_def)
next
  case (Cons k ls)
  have root: "root_done st" using assms(2) Cons by (auto simp: stream_inv_def)
  from close_spec [OF assms(1,2) Cons] assms(3) root Cons show ?thesis
    by (auto simp: same_work_def todo_def rbind_def split: sum.splits)
qed

lemma close_all_spec:
  assumes "wire_env_ok E" and "stream_inv st"
  shows "case todo_levels E (levels st) (at_cursor st) of
      Inr (_, r) \<Rightarrow> \<exists>st'. close_all E st = Inr st' \<and> stream_inv st' \<and> stream_clean st' = stream_clean st \<and>
        at_cursor st' = r \<and> levels st' = [] \<and> root_done st' = root_done st
    | Inl e \<Rightarrow> close_all E st = Inl e"
  using assms(2)
proof (induction "levels st" arbitrary: st)
  case Nil
  then show ?case by (simp add: close_all.simps [of E st] ret_def)
next
  case (Cons k ls)
  note cs = close_spec [OF assms(1) Cons.prems Cons.hyps(2) [symmetric]]
  have root: "root_done st" using Cons.prems Cons.hyps(2) by (auto simp: stream_inv_def)
  show ?case
  proof (cases "rtimes k (skip_node_at E (Suc (length ls))) (at_cursor st)")
    case (Inl e)
    with cs Cons.hyps(2) show ?thesis
      by (simp add: close_all.simps [of E st] Cons.hyps(2) [symmetric] rbind_def)
  next
    case (Inr ur)
    then obtain us r where r: "rtimes k (skip_node_at E (Suc (length ls))) (at_cursor st) = Inr (us, r)"
      by (cases ur) auto
    with cs obtain st1 where s1: "close E st = Inr st1" "stream_inv st1" "stream_clean st1 = stream_clean st"
      "at_cursor st1 = r" "levels st1 = ls" "root_done st1" by auto
    have "close_all E st = close_all E st1"
      using s1(1) Cons.hyps(2) by (simp add: close_all.simps [of E st] Cons.hyps(2) [symmetric])
    with Cons.hyps(1) [OF s1(5) [symmetric] s1(2)] s1 r root show ?thesis
      by (auto simp: Cons.hyps(2) [symmetric] rbind_def split: sum.splits)
  qed
qed

lemma check_end_spec:
  assumes "source_inv s" and "source_fate s = Inr f"
  shows "check_end s = Inr () \<longleftrightarrow> source_rest s = [] \<and> f"
proof (cases s)
  case (Plain data pos)
  with assms show ?thesis by (auto simp: check_end_def)
next
  case (Inflating r)
  with assms have r: "reader_inv r" "reader_fate r = Inr f" by auto
  note es = ensure_spec [OF r(1), of 1]
  with r(2) obtain b r' where e: "ensure 1 r = Inr (b, r')" by (cases "ensure 1 r") auto
  with es have e': "reader_rest r' = reader_rest r" "reader_fate r' = reader_fate r" "b \<longleftrightarrow> available r' \<noteq> []"
    "\<not> b \<Longrightarrow> available r' = reader_rest r' \<and> reader_fate r' = Inr (stream_end r')"
    by (auto simp: Suc_le_eq)
  have "available r' \<noteq> [] \<Longrightarrow> reader_rest r \<noteq> []"
    unfolding e'(1) [symmetric] by (simp add: reader_rest_def)
  with e e' r(2) Inflating show ?thesis by (cases b) (auto simp: check_end_def stream_ended_def)
qed

lemma finish_iff:
  assumes "wire_env_ok E" and "stream_inv st"
  shows "finish E st = Inr () \<longleftrightarrow> todo E st (at_cursor st) = Inr ((), []) \<and> stream_clean st"
proof -
  have end': "check_end (source (settle s)) = Inr () \<longleftrightarrow> at_cursor s = [] \<and> stream_clean s" if i: "stream_inv s" for s
  proof -
    note ss = settle_spec [OF i]
    then obtain f where "source_inv (source (settle s))" "source_fate (source (settle s)) = Inr f"
      by (auto simp: stream_inv_def)
    from check_end_spec [OF this] ss show ?thesis using \<open>source_fate (source (settle s)) = Inr f\<close>
      by (auto simp: stream_clean_def)
  qed
  show ?thesis
  proof (cases "root_done st")
    case True
    note ca = close_all_spec [OF assms]
    show ?thesis
    proof (cases "todo_levels E (levels st) (at_cursor st)")
      case (Inl e)
      with ca True show ?thesis by (simp add: finish_def todo_def)
    next
      case (Inr ur)
      then obtain r where r: "todo_levels E (levels st) (at_cursor st) = Inr ((), r)" by (cases ur) auto
      with ca obtain s1 where "close_all E st = Inr s1" "stream_inv s1" "stream_clean s1 = stream_clean st"
        "at_cursor s1 = r" "root_done s1 = root_done st" by auto
      with end' [of s1] r True show ?thesis by (auto simp: finish_def todo_def)
    qed
  next
    case False
    then have lv: "levels st = []" "pending st = 0" using assms(2) by (auto simp: stream_inv_def)
    have c: "close_all E st = Inr st" using lv by (simp add: close_all.simps)
    let ?s = "st\<lparr>root_done := True\<rparr>"
    have i: "stream_inv ?s" "pending ?s = 0" "at_cursor ?s = at_cursor st" "stream_clean ?s = stream_clean st"
      using assms(2) lv by (auto simp: stream_inv_def at_cursor_def stream_clean_def)
    note one = skip_one_spec [OF assms(1) i(1,2), of 0, unfolded i(3,4)]
    show ?thesis
    proof (cases "skip_node_at E 0 (at_cursor st)")
      case (Inl e)
      with one False c show ?thesis by (simp add: finish_def todo_def)
    next
      case (Inr ur)
      then obtain r where r: "skip_node_at E 0 (at_cursor st) = Inr ((), r)" by (cases ur) auto
      with one obtain s1 where "skip_one E 0 ?s = Inr s1" "stream_inv s1" "stream_clean s1 = stream_clean st"
        "at_cursor s1 = r" by auto
      with end' [of s1] r False c show ?thesis by (auto simp: finish_def todo_def)
    qed
  qed
qed

section \<open>Runs\<close>

datatype stream_op = OpOpen | OpNextChild | OpClose

fun run_op :: "wire_env \<Rightarrow> stream_op \<Rightarrow> node_stream \<Rightarrow> (binary_error, node_stream) result" where
  "run_op E OpOpen st = map_res snd (stream_open E st)"
| "run_op E OpNextChild st = map_res snd (next_child E st)"
| "run_op E OpClose st = close E st"

fun run_ops :: "wire_env \<Rightarrow> stream_op list \<Rightarrow> node_stream \<Rightarrow> (binary_error, node_stream) result" where
  "run_ops E [] st = Inr st"
| "run_ops E (x # xs) st = bind_res (run_op E x st) (run_ops E xs)"

lemma run_op_work: "wire_env_ok E \<Longrightarrow> stream_inv st \<Longrightarrow> run_op E x st = Inr st' \<Longrightarrow> same_work E st st'"
  by (cases x) (auto simp: map_res_Inr_iff intro: stream_open_work next_child_work close_work)

lemma run_ops_work:
  assumes "wire_env_ok E"
  shows "stream_inv st \<Longrightarrow> run_ops E xs st = Inr st' \<Longrightarrow> same_work E st st'"
proof (induction xs arbitrary: st)
  case (Cons x xs)
  then obtain s1 where s1: "run_op E x st = Inr s1" "run_ops E xs s1 = Inr st'" by (auto simp: bind_res_Inr_iff)
  with run_op_work [OF assms Cons.prems(1) s1(1)] Cons.IH [of s1] show ?case by (simp add: same_work_def)
qed (simp add: same_work_def)

lemma with_source_inv:
  assumes "source_inv s" and "source_fate s = Inr f"
  shows "stream_inv (with_source s) \<and> at_cursor (with_source s) = source_rest s \<and> (stream_clean (with_source s) \<longleftrightarrow> f)"
  using assms by (simp add: stream_inv_def with_source_def at_cursor_def stream_clean_def)

fun take_children :: "wire_env \<Rightarrow> nat \<Rightarrow> node_stream \<Rightarrow> (binary_error, node list \<times> node_stream) result" where
  "take_children E 0 st = Inr ([], st)"
| "take_children E (Suc n) st =
     bind_res (next_child E st) (\<lambda>(c, st).
       case c of
         None \<Rightarrow> Inr ([], st)
       | Some node \<Rightarrow> map_res (\<lambda>(ns, st). (node # ns, st)) (take_children E n st))"

lemma next_child_Some:
  assumes "stream_inv st" and "levels st = Suc k # ls"
    and "read_node_ref_at E (Suc (length ls)) (at_cursor st) = Inr (n, r)"
  obtains st' where "next_child E st = Inr (Some n, st')" "stream_inv st'" "levels st' = k # ls" "at_cursor st' = r"
proof -
  let ?s1 = "(settle st)\<lparr>levels := k # ls\<rparr>"
  have t: "take_slot st = (True, ?s1)" using assms(2) by (simp add: take_slot_def Let_def)
  note ts = take_slot_spec [OF assms(1) t]
  have "stream_inv ?s1" "pending ?s1 = 0" "at_cursor ?s1 = at_cursor st" "root_done ?s1" using ts by auto
  with decode_step [OF stable_read_node_ref_at consumes_read_node_ref_at, of ?s1 E "Suc (length ls)"] assms(3)
  obtain used s where "decode_next (source ?s1) (read_node_ref_at E (Suc (length ls))) = Inr (n, used, s)" "source_inv s"
    "source_fate s = source_fate (source ?s1)" "used \<le> length (source_available s)" "drop used (source_rest s) = r"
    by auto
  with t \<open>stream_inv ?s1\<close> \<open>root_done ?s1\<close> show thesis
    by (intro that [of "?s1\<lparr>source := s, pending := used\<rparr>"])
      (auto simp: next_child_def stream_inv_def at_cursor_def)
qed

lemma take_children_spec:
  assumes "stream_inv st" and "levels st = k # ls"
    and "rtimes k (read_node_ref_at E (Suc (length ls))) (at_cursor st) = Inr (ns, r)"
  shows "\<exists>st'. take_children E k st = Inr (ns, st') \<and> stream_inv st' \<and> levels st' = 0 # ls \<and> at_cursor st' = r"
  using assms
proof (induction k arbitrary: st ns)
  case 0
  then show ?case by (simp add: ret_def)
next
  case (Suc k)
  from Suc.prems(3) obtain n ns' r1 where n: "read_node_ref_at E (Suc (length ls)) (at_cursor st) = Inr (n, r1)"
    "rtimes k (read_node_ref_at E (Suc (length ls))) r1 = Inr (ns', r)" "ns = n # ns'"
    by (auto simp: rbind_Inr_iff ret_def)
  obtain st1 where s1: "next_child E st = Inr (Some n, st1)" "stream_inv st1" "levels st1 = k # ls" "at_cursor st1 = r1"
    by (rule next_child_Some [OF Suc.prems(1,2) n(1)])
  from Suc.IH [OF s1(2,3), of ns'] n s1 show ?case by auto
qed

lemma tree_head:
  assumes "read_node_ref_at E d bs = Inr (Node tg ats (Some (Nodes ns)), r)" and "ns \<noteq> []"
  obtains r' where "\<not> d \<ge> MAX_NODE_DEPTH" "read_node_open E bs = Inr ((tg, ats, Children (length ns)), r')"
    "rtimes (length ns) (read_node_ref_at E (Suc d)) r' = Inr (ns, r)"
proof -
  have d: "\<not> d \<ge> MAX_NODE_DEPTH"
    using assms(1) by (subst (asm) read_node_ref_at.simps) (auto split: if_splits)
  with assms(1) obtain tg' ats' c r' where head: "read_node_open E bs = Inr ((tg', ats', c), r')"
    and body: "(case c of NoContent \<Rightarrow> ret (Node tg' ats' None) | Scalar s \<Rightarrow> ret (Node tg' ats' (Some s))
      | Children count \<Rightarrow> rmap (\<lambda>nodes. Node tg' ats' (Some (Nodes nodes)))
          (rtimes count (read_node_ref_at E (Suc d)))) r' = Inr (Node tg ats (Some (Nodes ns)), r)"
    by (subst (asm) read_node_ref_at.simps) (auto simp: rbind_Inr_iff)
  show thesis
  proof (cases c)
    case (Children k)
    with body head d show thesis by (intro that) (auto simp: rmap_Inr_iff dest: rtimes_Inr_length)
  next
    case (Scalar s)
    with body have "s = Nodes ns" by (simp add: ret_def)
    with read_node_open_scalar [of E bs tg' ats' s r'] head Scalar assms(2) show thesis
      by (cases ns, auto) (metis add_is_0 max_0_1(1) max_nat.eq_neutr_iff node.exhaust node_depth.simps old.nat.distinct(1))
  qed (use body in \<open>simp add: ret_def\<close>)
qed

section \<open>Properties\<close>

text \<open>
  C9 (a partial walk validates as much as the tree decoder). Take any source of node bytes, in memory or
  inflated through a window of any size, that does not fail, and walk it with any sequence of
  \<open>open\<close>, \<open>next_child\<close> and \<open>close\<close> that succeeds. Then \<open>finish\<close> accepts exactly when \<open>unmarshal_ref\<close> accepts
  the whole of the bytes as one tree with nothing left over, and the stream ended properly.
\<close>

theorem stream_finish_matches_tree:
  assumes "wire_env_ok E" and "source_inv s" and "source_fate s = Inr ended"
    and "run_ops E ops (with_source s) = Inr st"
  shows "finish E st = Inr () \<longleftrightarrow> (\<exists>n. unmarshal_ref E (source_rest s) = Inr n) \<and> ended"
proof -
  note w = with_source_inv [OF assms(2,3)]
  have "same_work E (with_source s) st" using run_ops_work [OF assms(1) _ assms(4)] w by blast
  then have st: "stream_inv st" "stream_clean st = ended" "todo E st (at_cursor st) = skip_node_at E 0 (source_rest s)"
    using w by (simp_all add: same_work_def todo_def with_source_def)
  have "(\<exists>n. unmarshal_ref E (source_rest s) = Inr n) \<longleftrightarrow> skip_node_at E 0 (source_rest s) = Inr ((), [])"
    unfolding skip_node_at_eq [OF assms(1)] unmarshal_ref_def read_node_ref_def
    by (cases "read_node_ref_at E 0 (source_rest s)") (auto simp: rmap_def split: if_splits)
  then show ?thesis using finish_iff [OF assms(1) st(1)] st by simp
qed

theorem stream_finish_matches_tree_witness:
  "finish sample_env (with_source (Plain [248, 1, 1] 0)) = Inr ()"
proof -
  have "unmarshal_ref sample_env [248, 1, 1] = Inr (Node (lit ''xml'') [] None)" by code_simp
  then show ?thesis
    using stream_finish_matches_tree [OF sample_env_ok, of "Plain [248, 1, 1] 0" True "[]" "with_source (Plain [248, 1, 1] 0)"]
    by simp
qed

text \<open>
  C29 (the cursor yields the tree's children). If the bytes of a source that does not fail decode to a
  node with children, then opening the root gives its tag, its attributes and the number of children,
  the following calls of \<open>next_child\<close> give exactly those children in order, each decoded from a
  window that need never have held more than it, and the call after the last gives none.
\<close>

theorem stream_yields_children:
  assumes "source_inv s" and "source_fate s = Inr ended"
    and "unmarshal_ref E (source_rest s) = Inr (Node tg ats (Some (Nodes ns)))" and "ns \<noteq> []"
  shows "\<exists>st st' st''. stream_open E (with_source s) = Inr (Some (tg, ats, Children (length ns)), st) \<and>
    take_children E (length ns) st = Inr (ns, st') \<and> next_child E st' = Inr (None, st'')"
proof -
  note w = with_source_inv [OF assms(1,2)]
  from assms(3) have "read_node_ref_at E 0 (source_rest s) = Inr (Node tg ats (Some (Nodes ns)), [])"
    by (auto simp: unmarshal_ref_def read_node_ref_def bind_res_Inr_iff split: if_splits)
  from tree_head [OF this assms(4)] obtain r where
    r: "read_node_open E (source_rest s) = Inr ((tg, ats, Children (length ns)), r)"
    "rtimes (length ns) (read_node_ref_at E (Suc 0)) r = Inr (ns, [])" by blast
  let ?s1 = "(with_source s)\<lparr>root_done := True\<rparr>"
  have t: "take_slot (with_source s) = (True, ?s1)" by (simp add: take_slot_def settle_def with_source_def)
  have s1: "stream_inv ?s1" "pending ?s1 = 0" "at_cursor ?s1 = source_rest s" "source ?s1 = s" "levels ?s1 = []"
    using w by (auto simp: stream_inv_def with_source_def at_cursor_def)
  from decode_step [OF stable_read_node_open consumes_read_node_open s1(1,2), of E] r(1) s1(3)
  obtain used s' where d: "decode_next s (read_node_open E) = Inr ((tg, ats, Children (length ns)), used, s')"
    "source_inv s'" "source_fate s' = source_fate s" "used \<le> length (source_available s')"
    "drop used (source_rest s') = r" using s1(4) by auto
  let ?st = "?s1\<lparr>source := s', pending := used, levels := [length ns]\<rparr>"
  have o: "stream_open E (with_source s) = Inr (Some (tg, ats, Children (length ns)), ?st)"
    using t d(1) s1 by (simp add: stream_open_def MAX_NODE_DEPTH_def child_count_def)
  have "stream_inv ?st" "at_cursor ?st = r" using d assms(2) by (auto simp: stream_inv_def at_cursor_def)
  from take_children_spec [of ?st "length ns" "[]" E ns "[]"] this r(2) obtain st' where
    c: "take_children E (length ns) ?st = Inr (ns, st')" "levels st' = [0]" by auto
  have "next_child E st' = Inr (None, settle st')" using c(2) by (simp add: next_child_def take_slot_def Let_def)
  with o c(1) show ?thesis by blast
qed

theorem stream_yields_children_witness:
  "\<exists>s st st' st''. s = Inflating (inflate_reader_new
       [ZStep 3 [248, 2, 1, 248] StatusOk, ZStep 3 [1, 248, 1, 2] StreamEnd] 6 100) \<and>
     stream_open sample_env (with_source s) = Inr (Some (lit ''xml'', [], Children 1), st) \<and>
     take_children sample_env 1 st = Inr ([Node (lit ''type'') [] None], st') \<and>
     next_child sample_env st' = Inr (None, st'')"
proof -
  let ?s = "Inflating (inflate_reader_new
       [ZStep 3 [248, 2, 1, 248] StatusOk, ZStep 3 [1, 248, 1, 2] StreamEnd] 6 100)"
  have s: "source_inv ?s" "source_fate ?s = Inr True" "source_rest ?s = [248, 2, 1, 248, 1, 248, 1, 2]"
    by (simp_all add: reader_inv_def reader_fate_def reader_rest_def future_of_def inflate_reader_new_def available_def)
  have "unmarshal_ref sample_env [248, 2, 1, 248, 1, 248, 1, 2] =
      Inr (Node (lit ''xml'') [] (Some (Nodes [Node (lit ''type'') [] None])))" by code_simp
  then show ?thesis
    using stream_yields_children [OF s(1,2), of sample_env "lit ''xml''" "[]" "[Node (lit ''type'') [] None]"] s(3)
    by simp
qed

end
