(* ===== verification/Aes_Gcm.thy ===== *)
theory Aes_Gcm
  imports Prelude
begin

text \<open>
  AES-256-GCM as \<open>wacore/libsignal/src/crypto\<close> assembles it: the counter mode wrapper
  (\<open>aes_ctr.rs\<close>), the incremental GHASH with its sixteen-byte message buffer and the two
  directions (\<open>aes_gcm.rs\<close>), and the calls of the crypto provider built on them
  (\<open>provider.rs\<close>): appending to a vector, in place, and in place under a key prepared once. The
  AES block cipher, the key stream of \<open>ctr::Ctr32BE\<close> and the GHASH field arithmetic are other
  crates: they are the fields of \<open>prims\<close>.
\<close>

section \<open>The primitives of other crates\<close>

text \<open>
  \<open>keystream key iv i\<close> is byte \<open>i\<close> of the key stream that starts at the block \<open>iv\<close>. The GHASH state
  is abstract: \<open>gh_update\<close> absorbs one block, \<open>gh_update_padded\<close> a byte string padded with
  zeros to whole blocks.
\<close>

record 'g prims =
  aes_block :: "bytes \<Rightarrow> bytes \<Rightarrow> bytes"
  keystream :: "bytes \<Rightarrow> bytes \<Rightarrow> nat \<Rightarrow> u8"
  gh_new :: "bytes \<Rightarrow> 'g"
  gh_update :: "'g \<Rightarrow> bytes \<Rightarrow> 'g"
  gh_update_padded :: "'g \<Rightarrow> bytes \<Rightarrow> 'g"
  gh_finalize :: "'g \<Rightarrow> bytes"

datatype crypto_error = InvalidKeySize | InvalidNonceSize | InvalidTag

datatype provider_error = BadInput | AuthFailed | BackendFailed

definition TAG_SIZE :: nat where "TAG_SIZE = 16"
definition NONCE_SIZE :: nat where "NONCE_SIZE = 12"
definition AES_BLOCK_SIZE :: nat where "AES_BLOCK_SIZE = 16"

definition map_err :: "('e \<Rightarrow> 'f) \<Rightarrow> ('e, 'a) result \<Rightarrow> ('f, 'a) result" where
  "map_err f r = (case r of Inl e \<Rightarrow> Inl (f e) | Inr a \<Rightarrow> Inr a)"

lemma map_err_simps [simp]: "map_err f (Inl e) = Inl (f e)" "map_err f (Inr a) = Inr a"
  by (simp_all add: map_err_def)

lemma map_err_Inr_iff [simp]: "map_err f r = Inr a \<longleftrightarrow> r = Inr a"
  by (cases r) auto

definition xor_bytes :: "bytes \<Rightarrow> bytes \<Rightarrow> bytes" where
  "xor_bytes xs ys = map2 (XOR) xs ys"

section \<open>Counter mode\<close>

text \<open>\<open>Aes256Ctr32\<close>: the expanded key, the initial block and the position in the stream, in bytes.\<close>

record ctr32 =
  ctr_key :: bytes
  ctr_iv :: bytes
  ctr_pos :: nat

definition aes256_new_from_slice :: "bytes \<Rightarrow> (crypto_error, bytes) result" where
  "aes256_new_from_slice key = (if length key = 32 then Inr key else Inl InvalidKeySize)"

definition ctr_new :: "bytes \<Rightarrow> bytes \<Rightarrow> u32 \<Rightarrow> (crypto_error, ctr32) result" where
  "ctr_new aes256 nonce init_ctr =
     (if length nonce \<noteq> AES_BLOCK_SIZE - 4 then Inl InvalidNonceSize
      else Inr \<lparr>ctr_key = aes256, ctr_iv = nonce @ replicate 4 0,
                ctr_pos = AES_BLOCK_SIZE * unat init_ctr\<rparr>)"

definition ctr_from_key :: "bytes \<Rightarrow> bytes \<Rightarrow> u32 \<Rightarrow> (crypto_error, ctr32) result" where
  "ctr_from_key key nonce init_ctr =
     bind_res (aes256_new_from_slice key) (\<lambda>aes256. ctr_new aes256 nonce init_ctr)"

definition ctr_process :: "'g prims \<Rightarrow> ctr32 \<Rightarrow> bytes \<Rightarrow> bytes \<times> ctr32" where
  "ctr_process P c buf =
     (xor_bytes buf (map (keystream P (ctr_key c) (ctr_iv c)) [ctr_pos c ..< ctr_pos c + length buf]),
      c\<lparr>ctr_pos := ctr_pos c + length buf\<rparr>)"

section \<open>Incremental GHASH\<close>

record 'g gcm_ghash =
  ghash :: 'g
  ghash_pad :: bytes
  msg_buf :: bytes
  msg_buf_offset :: nat
  ad_len :: nat
  msg_len :: nat

definition from_keyed :: "'g prims \<Rightarrow> 'g \<Rightarrow> bytes \<Rightarrow> bytes \<Rightarrow> 'g gcm_ghash" where
  "from_keyed P gh pad associated_data =
     \<lparr>ghash = gh_update_padded P gh associated_data, ghash_pad = pad,
      msg_buf = replicate TAG_SIZE 0, msg_buf_offset = 0,
      ad_len = length associated_data, msg_len = 0\<rparr>"

definition gcm_ghash_new :: "'g prims \<Rightarrow> bytes \<Rightarrow> bytes \<Rightarrow> bytes \<Rightarrow> 'g gcm_ghash" where
  "gcm_ghash_new P h pad associated_data = from_keyed P (gh_new P h) pad associated_data"

text \<open>The copy \<open>buf[start..start + xs.len()].copy_from_slice(xs)\<close>.\<close>

definition copy_at :: "nat \<Rightarrow> 'a list \<Rightarrow> 'a list \<Rightarrow> 'a list" where
  "copy_at start xs buf = take start buf @ xs @ drop (start + length xs) buf"

text \<open>
  The recursion of the source is at most one call deep: the second call finds an empty buffer. The
  three assertions of the source are the invariant \<open>ghash_wf\<close> below.
\<close>

function gcm_ghash_update :: "'g prims \<Rightarrow> 'g gcm_ghash \<Rightarrow> bytes \<Rightarrow> 'g gcm_ghash" where
  "gcm_ghash_update P s msg =
     (if msg_buf_offset s > 0 then
        let taking = min (length msg) (TAG_SIZE - msg_buf_offset s);
            s = s\<lparr>msg_buf := copy_at (msg_buf_offset s) (take taking msg) (msg_buf s),
                  msg_buf_offset := msg_buf_offset s + taking,
                  msg_len := msg_len s + taking\<rparr>
        in if msg_buf_offset s = TAG_SIZE then
             gcm_ghash_update P
               (s\<lparr>ghash := gh_update P (ghash s) (msg_buf s), msg_buf_offset := 0\<rparr>)
               (drop taking msg)
           else s
      else
        let full_blocks = length msg div 16;
            leftover = length msg - 16 * full_blocks
        in s\<lparr>msg_len := msg_len s + length msg,
             ghash := gh_update_padded P (ghash s) (take (16 * full_blocks) msg),
             msg_buf := copy_at 0 (drop (full_blocks * 16) msg) (msg_buf s),
             msg_buf_offset := leftover\<rparr>)"
  by pat_completeness auto
termination
  by (relation "measure (\<lambda>(P, s, msg). msg_buf_offset s)") auto

declare gcm_ghash_update.simps [simp del]

text \<open>The two lengths of the last block are counted in bits, modulo \<open>2 ^ 64\<close>.\<close>

definition gcm_ghash_finalize :: "'g prims \<Rightarrow> 'g gcm_ghash \<Rightarrow> bytes" where
  "gcm_ghash_finalize P s =
     (let gh = (if msg_buf_offset s > 0
                then gh_update_padded P (ghash s) (take (msg_buf_offset s) (msg_buf s))
                else ghash s);
          final_block = nat_be 8 (8 * ad_len s) @ nat_be 8 (8 * msg_len s);
          hash = gh_finalize P (gh_update P gh final_block)
      in xor_bytes hash (ghash_pad s))"

section \<open>Sealing and opening\<close>

definition setup_gcm ::
  "'g prims \<Rightarrow> bytes \<Rightarrow> bytes \<Rightarrow> bytes \<Rightarrow> (crypto_error, ctr32 \<times> 'g gcm_ghash) result" where
  "setup_gcm P key nonce associated_data =
     (if length nonce \<noteq> NONCE_SIZE then Inl InvalidNonceSize
      else bind_res (aes256_new_from_slice key) (\<lambda>aes256.
        let h = aes_block P aes256 (replicate TAG_SIZE 0)
        in bind_res (ctr_new aes256 nonce 1) (\<lambda>ctr.
          let (pad, ctr) = ctr_process P ctr (replicate 16 0)
          in Inr (ctr, gcm_ghash_new P h pad associated_data))))"

record 'g gcm_key =
  cipher :: bytes
  keyed_ghash :: 'g

definition gcm_key_new :: "'g prims \<Rightarrow> bytes \<Rightarrow> (crypto_error, 'g gcm_key) result" where
  "gcm_key_new P key =
     bind_res (aes256_new_from_slice key) (\<lambda>aes256.
       let h = aes_block P aes256 (replicate TAG_SIZE 0)
       in Inr \<lparr>cipher = aes256, keyed_ghash = gh_new P h\<rparr>)"

definition gcm_key_setup ::
  "'g prims \<Rightarrow> 'g gcm_key \<Rightarrow> bytes \<Rightarrow> bytes \<Rightarrow> (crypto_error, ctr32 \<times> 'g gcm_ghash) result" where
  "gcm_key_setup P k nonce associated_data =
     (if length nonce \<noteq> NONCE_SIZE then Inl InvalidNonceSize
      else bind_res (ctr_new (cipher k) nonce 1) (\<lambda>ctr.
        let (pad, ctr) = ctr_process P ctr (replicate 16 0)
        in Inr (ctr, from_keyed P (keyed_ghash k) pad associated_data)))"

text \<open>
  \<open>Aes256GcmEncryption\<close> and \<open>Aes256GcmDecryption\<close> are the same pair of states; they differ in the
  order in which a buffer meets the key stream and the hash.
\<close>

type_synonym 'g gcm = "ctr32 \<times> 'g gcm_ghash"

definition gcm_encrypt :: "'g prims \<Rightarrow> 'g gcm \<Rightarrow> bytes \<Rightarrow> bytes \<times> 'g gcm" where
  "gcm_encrypt P = (\<lambda>(ctr, gh) buf.
     let (buf, ctr) = ctr_process P ctr buf in (buf, (ctr, gcm_ghash_update P gh buf)))"

definition compute_tag :: "'g prims \<Rightarrow> 'g gcm \<Rightarrow> bytes" where
  "compute_tag P = (\<lambda>(ctr, gh). gcm_ghash_finalize P gh)"

definition gcm_decrypt :: "'g prims \<Rightarrow> 'g gcm \<Rightarrow> bytes \<Rightarrow> bytes \<times> 'g gcm" where
  "gcm_decrypt P = (\<lambda>(ctr, gh) buf.
     let gh = gcm_ghash_update P gh buf; (buf, ctr) = ctr_process P ctr buf in (buf, (ctr, gh)))"

definition verify_tag :: "'g prims \<Rightarrow> 'g gcm \<Rightarrow> bytes \<Rightarrow> (crypto_error, unit) result" where
  "verify_tag P = (\<lambda>(ctr, gh) tag.
     if length tag \<noteq> TAG_SIZE then Inl InvalidTag
     else if tag \<noteq> gcm_ghash_finalize P gh then Inl InvalidTag
     else Inr ())"

section \<open>The provider\<close>

text \<open>Each call gives its verdict and the buffer it leaves behind, also when it fails.\<close>

definition aes_256_gcm_encrypt ::
  "'g prims \<Rightarrow> bytes \<Rightarrow> bytes \<Rightarrow> bytes \<Rightarrow> bytes \<Rightarrow> bytes \<Rightarrow> (provider_error, unit) result \<times> bytes" where
  "aes_256_gcm_encrypt P key nonce aad plaintext out =
     (case setup_gcm P key nonce aad of
        Inl _ \<Rightarrow> (Inl BadInput, out)
      | Inr enc \<Rightarrow>
          let (ct, enc) = gcm_encrypt P enc plaintext
          in (Inr (), out @ ct @ compute_tag P enc))"

definition aes_256_gcm_decrypt ::
  "'g prims \<Rightarrow> bytes \<Rightarrow> bytes \<Rightarrow> bytes \<Rightarrow> bytes \<Rightarrow> bytes \<Rightarrow> (provider_error, unit) result \<times> bytes" where
  "aes_256_gcm_decrypt P key nonce aad ciphertext_with_tag out =
     (if length ciphertext_with_tag < 16 then (Inl BadInput, out)
      else
        let n = length ciphertext_with_tag - 16;
            ct = take n ciphertext_with_tag;
            tag = drop n ciphertext_with_tag
        in case setup_gcm P key nonce aad of
             Inl _ \<Rightarrow> (Inl BadInput, out)
           | Inr dec \<Rightarrow>
               let (pt, dec) = gcm_decrypt P dec ct
               in case verify_tag P dec tag of
                    Inl _ \<Rightarrow> (Inl AuthFailed, out)
                  | Inr _ \<Rightarrow> (Inr (), out @ pt))"

text \<open>Both in-place pairs share their body up to how the state is set up.\<close>

definition encrypt_buffer ::
  "'g prims \<Rightarrow> (crypto_error, 'g gcm) result \<Rightarrow> bytes \<Rightarrow> (provider_error, unit) result \<times> bytes" where
  "encrypt_buffer P setup buffer =
     (case setup of
        Inl _ \<Rightarrow> (Inl BadInput, buffer)
      | Inr enc \<Rightarrow>
          let (ct, enc) = gcm_encrypt P enc buffer
          in (Inr (), ct @ compute_tag P enc))"

definition decrypt_buffer ::
  "'g prims \<Rightarrow> (crypto_error, 'g gcm) result \<Rightarrow> bytes \<Rightarrow> (provider_error, unit) result \<times> bytes" where
  "decrypt_buffer P setup buffer =
     (if length buffer < 16 then (Inl BadInput, buffer)
      else
        let pt_len = length buffer - 16; tag = drop pt_len buffer
        in case setup of
             Inl _ \<Rightarrow> (Inl BadInput, buffer)
           | Inr dec \<Rightarrow>
               let (pt, dec) = gcm_decrypt P dec (take pt_len buffer);
                   buffer = pt @ tag
               in case verify_tag P dec tag of
                    Inl _ \<Rightarrow> (Inl AuthFailed, buffer)
                  | Inr _ \<Rightarrow> (Inr (), take pt_len buffer))"

definition aes_256_gcm_encrypt_in_place ::
  "'g prims \<Rightarrow> bytes \<Rightarrow> bytes \<Rightarrow> bytes \<Rightarrow> bytes \<Rightarrow> (provider_error, unit) result \<times> bytes" where
  "aes_256_gcm_encrypt_in_place P key nonce aad buffer = encrypt_buffer P (setup_gcm P key nonce aad) buffer"

definition aes_256_gcm_decrypt_in_place ::
  "'g prims \<Rightarrow> bytes \<Rightarrow> bytes \<Rightarrow> bytes \<Rightarrow> bytes \<Rightarrow> (provider_error, unit) result \<times> bytes" where
  "aes_256_gcm_decrypt_in_place P key nonce aad buffer = decrypt_buffer P (setup_gcm P key nonce aad) buffer"

text \<open>The transport AEAD: the same two calls under a key prepared once.\<close>

definition transport_aead :: "'g prims \<Rightarrow> bytes \<Rightarrow> (provider_error, 'g gcm_key) result" where
  "transport_aead P key = map_err (\<lambda>_. BadInput) (gcm_key_new P key)"

definition aead_encrypt_in_place ::
  "'g prims \<Rightarrow> 'g gcm_key \<Rightarrow> bytes \<Rightarrow> bytes \<Rightarrow> bytes \<Rightarrow> (provider_error, unit) result \<times> bytes" where
  "aead_encrypt_in_place P k nonce aad buffer = encrypt_buffer P (gcm_key_setup P k nonce aad) buffer"

definition aead_decrypt_in_place ::
  "'g prims \<Rightarrow> 'g gcm_key \<Rightarrow> bytes \<Rightarrow> bytes \<Rightarrow> bytes \<Rightarrow> (provider_error, unit) result \<times> bytes" where
  "aead_decrypt_in_place P k nonce aad buffer = decrypt_buffer P (gcm_key_setup P k nonce aad) buffer"

text \<open>
  The trait's own in-place methods, which a provider without an in-place primitive inherits: they go
  through the appending calls \<open>enc\<close> and \<open>dec\<close> and leave the buffer alone on failure.
\<close>

definition default_encrypt_in_place ::
  "(bytes \<Rightarrow> bytes \<Rightarrow> (provider_error, unit) result \<times> bytes) \<Rightarrow> bytes \<Rightarrow> (provider_error, unit) result \<times> bytes" where
  "default_encrypt_in_place enc buffer =
     (case enc buffer [] of (Inl e, _) \<Rightarrow> (Inl e, buffer) | (Inr _, out) \<Rightarrow> (Inr (), out))"

definition default_decrypt_in_place ::
  "(bytes \<Rightarrow> bytes \<Rightarrow> (provider_error, unit) result \<times> bytes) \<Rightarrow> bytes \<Rightarrow> (provider_error, unit) result \<times> bytes" where
  "default_decrypt_in_place dec buffer =
     (case dec buffer [] of (Inl e, _) \<Rightarrow> (Inl e, buffer) | (Inr _, out) \<Rightarrow> (Inr (), out))"

section \<open>Facts about the key stream\<close>

lemma length_xor_bytes [simp]: "length (xor_bytes xs ys) = min (length xs) (length ys)"
  by (simp add: xor_bytes_def)

lemma xor_bytes_twice:
  "length xs \<le> length ys \<Longrightarrow> xor_bytes (xor_bytes xs ys) ys = xs"
  by (rule nth_equalityI) (auto simp: xor_bytes_def xor.assoc)

lemma length_ctr_process [simp]: "length (fst (ctr_process P c buf)) = length buf"
  by (simp add: ctr_process_def)

lemma ctr_process_twice: "fst (ctr_process P c (fst (ctr_process P c buf))) = buf"
  by (simp add: ctr_process_def xor_bytes_twice)

section \<open>The incremental hash is the hash of the whole message\<close>

text \<open>
  What \<open>universal_hash\<close> documents of \<open>update_padded\<close>: whole blocks are absorbed one by one, and
  nothing is absorbed for an empty string.
\<close>

definition ghash_laws :: "'g prims \<Rightarrow> bool" where
  "ghash_laws P \<longleftrightarrow>
     (\<forall>g. gh_update_padded P g [] = g) \<and>
     (\<forall>g b m. length b = 16 \<longrightarrow> gh_update_padded P g (b @ m) = gh_update_padded P (gh_update P g b) m)"

lemma update_padded_block:
  "ghash_laws P \<Longrightarrow> length b = 16 \<Longrightarrow> gh_update_padded P g b = gh_update P g b"
  unfolding ghash_laws_def by (metis append_Nil2)

lemma update_padded_append:
  assumes laws: "ghash_laws P" and "length a = 16 * n"
  shows "gh_update_padded P g (a @ b) = gh_update_padded P (gh_update_padded P g a) b"
  using assms(2)
proof (induction n arbitrary: a g)
  case 0
  then show ?case using laws by (simp add: ghash_laws_def)
next
  case (Suc n)
  define x y where "x = take 16 a" and "y = drop 16 a"
  have a: "a = x @ y" and x: "length x = 16" and y: "length y = 16 * n"
    using Suc.prems by (simp_all add: x_def y_def)
  have step: "gh_update_padded P g (x @ m) = gh_update_padded P (gh_update P g x) m" for m
    using laws x by (simp add: ghash_laws_def)
  show ?case by (simp add: a step Suc.IH [OF y])
qed

text \<open>
  \<open>absorbed P g s m\<close>: the state \<open>s\<close> has taken in the message \<open>m\<close>, starting from the hash state \<open>g\<close>;
  its whole blocks are in the hash and the rest is in the buffer. This carries the assertions of the
  source: the offset is below the block size.
\<close>

definition absorbed :: "'g prims \<Rightarrow> 'g \<Rightarrow> 'g gcm_ghash \<Rightarrow> bytes \<Rightarrow> bool" where
  "absorbed P g s m \<longleftrightarrow>
     ghash s = gh_update_padded P g (take (16 * (length m div 16)) m) \<and>
     take (msg_buf_offset s) (msg_buf s) = drop (16 * (length m div 16)) m \<and>
     msg_buf_offset s = length m mod 16 \<and> length (msg_buf s) = 16 \<and> msg_len s = length m"

lemma absorbed_start: "ghash_laws P \<Longrightarrow> absorbed P (ghash (from_keyed P g pad aad)) (from_keyed P g pad aad) []"
  by (simp add: absorbed_def from_keyed_def ghash_laws_def TAG_SIZE_def)

lemma absorbed_aligned:
  assumes laws: "ghash_laws P" and s: "absorbed P g s m" and off: "msg_buf_offset s = 0"
  shows "absorbed P g (gcm_ghash_update P s x) (m @ x)"
proof -
  from s off obtain n where m: "length m = 16 * n" by (metis absorbed_def mod_0_imp_dvd dvdE)
  have split: "take (16 * ((length x + 16 * n) div 16)) (m @ x) = m @ take (16 * (length x div 16)) x"
    using m by simp
  show ?thesis
    using s off m
    by (simp add: absorbed_def gcm_ghash_update.simps [of P s x] Let_def copy_at_def split add.commute
        update_padded_append [OF laws m] mult.commute minus_mult_div_eq_mod)
qed

lemma absorbed_update:
  assumes laws: "ghash_laws P" and s: "absorbed P g s m"
  shows "absorbed P g (gcm_ghash_update P s x) (m @ x)"
proof (cases "msg_buf_offset s = 0")
  case True
  then show ?thesis using absorbed_aligned [OF laws s] by simp
next
  case False
  define n r where "n = length m div 16" and "r = msg_buf_offset s"
  have r: "r = length m mod 16" "0 < r" "r < 16" using s False by (auto simp: absorbed_def r_def)
  have m: "length m = 16 * n + r" using r by (simp add: n_def)
  define taking where "taking = min (length x) (16 - r)"
  define t where "t = s\<lparr>msg_buf := copy_at r (take taking x) (msg_buf s),
                         msg_buf_offset := r + taking, msg_len := msg_len s + taking\<rparr>"
  have old: "take r (msg_buf s) = drop (16 * n) m" "length (msg_buf s) = 16"
    using s unfolding absorbed_def n_def r_def by blast+
  have buf: "take (r + taking) (msg_buf t) = drop (16 * n) m @ take taking x"
    using old r(2,3) m by (simp add: t_def copy_at_def taking_def)
  have len: "length (msg_buf t) = 16"
    using s r by (simp add: t_def copy_at_def absorbed_def taking_def)
  show ?thesis
  proof (cases "r + taking = 16")
    case full: True
    define u where "u = t\<lparr>ghash := gh_update P (ghash t) (msg_buf t), msg_buf_offset := 0\<rparr>"
    have block: "msg_buf t = drop (16 * n) m @ take taking x" using buf len full by simp
    have lb: "length (m @ take taking x) = 16 * Suc n" using m full by (simp add: taking_def)
    define w where "w = m @ take taking x"
    have "gh_update_padded P g w = gh_update_padded P (gh_update_padded P g (take (16 * n) m)) (msg_buf t)"
      using update_padded_append [OF laws, of "take (16 * n) m" n g "msg_buf t"] m
      by (simp add: block w_def flip: append_assoc)
    moreover have "ghash t = gh_update_padded P g (take (16 * n) m)" "msg_len t = length m + taking"
      using s unfolding absorbed_def n_def by (simp_all add: t_def)
    moreover have "length w = 16 * Suc n" "length m + taking = 16 * Suc n"
      using lb by (simp_all add: w_def taking_def)
    ultimately have "absorbed P g u w"
      using len unfolding absorbed_def u_def by (simp add: update_padded_block [OF laws])
    then have "absorbed P g u (m @ take taking x)" by (simp only: w_def)
    then have "absorbed P g (gcm_ghash_update P u (drop taking x)) ((m @ take taking x) @ drop taking x)"
      by (rule absorbed_aligned [OF laws]) (simp add: u_def)
    moreover have "gcm_ghash_update P s x = gcm_ghash_update P u (drop taking x)"
      using False full
      by (subst gcm_ghash_update.simps)
         (simp add: Let_def TAG_SIZE_def u_def t_def taking_def [symmetric] r_def [symmetric])
    ultimately show ?thesis by simp
  next
    case part: False
    then have tk: "taking = length x" "r + length x < 16" using r(3) unfolding taking_def by linarith+
    have "gcm_ghash_update P s x = t"
      using False part
      by (subst gcm_ghash_update.simps)
         (simp add: Let_def TAG_SIZE_def t_def taking_def [symmetric] r_def [symmetric])
    moreover have "length (m @ x) div 16 = n" "length (m @ x) mod 16 = r + length x" "16 * n \<le> length m"
      using tk(2) m by (simp_all add: add.assoc)
    moreover have "ghash t = gh_update_padded P g (take (16 * n) m)" "msg_len t = length m + length x"
      using s tk(1) unfolding absorbed_def n_def by (simp_all add: t_def)
    moreover have "msg_buf_offset t = r + length x" using tk(1) by (simp add: t_def)
    ultimately show ?thesis
      using buf len tk(1) unfolding absorbed_def by simp
  qed
qed

lemma update_keeps [simp]:
  "ghash_pad (gcm_ghash_update P s x) = ghash_pad s" "ad_len (gcm_ghash_update P s x) = ad_len s"
  by (induction P s x rule: gcm_ghash_update.induct)
     (subst gcm_ghash_update.simps, simp add: Let_def)+

lemma absorbed_chunks:
  assumes "ghash_laws P" and "absorbed P g s m"
  shows "absorbed P g (fold (\<lambda>x s. gcm_ghash_update P s x) chunks s) (m @ concat chunks)"
  using assms(2) by (induction chunks arbitrary: s m) (auto dest: absorbed_update [OF assms(1)] simp flip: append_assoc)

lemma chunks_keep:
  "ghash_pad (fold (\<lambda>x s. gcm_ghash_update P s x) chunks s) = ghash_pad s \<and>
   ad_len (fold (\<lambda>x s. gcm_ghash_update P s x) chunks s) = ad_len s"
  by (induction chunks arbitrary: s) auto

lemma absorbed_finalize:
  assumes laws: "ghash_laws P" and s: "absorbed P g s m"
  shows "gcm_ghash_finalize P s =
    xor_bytes (gh_finalize P (gh_update P (gh_update_padded P g m)
      (nat_be 8 (8 * ad_len s) @ nat_be 8 (8 * length m)))) (ghash_pad s)"
proof -
  define n where "n = length m div 16"
  have "gh_update_padded P g m = gh_update_padded P (ghash s) (drop (16 * n) m)"
    using update_padded_append [OF laws, of "take (16 * n) m" n g "drop (16 * n) m"] s
    by (simp add: absorbed_def n_def)
  moreover have "drop (16 * n) m = take (msg_buf_offset s) (msg_buf s)" "msg_len s = length m"
    using s unfolding absorbed_def n_def by (metis, blast)
  ultimately show ?thesis
    using laws by (simp add: gcm_ghash_finalize_def Let_def ghash_laws_def)
qed

text \<open>
  C31: Feeding GHASH a message in pieces of any sizes gives the tag of the whole message: the additional
  data and the message, each padded to blocks, then the block of their two bit lengths, masked by
  the pad. The sixteen-byte buffer between two pieces neither loses nor repeats a byte.
\<close>

theorem ghash_streaming:
  assumes "ghash_laws P"
  shows "gcm_ghash_finalize P (fold (\<lambda>x s. gcm_ghash_update P s x) chunks (gcm_ghash_new P h pad aad)) =
    xor_bytes (gh_finalize P (gh_update P
      (gh_update_padded P (gh_update_padded P (gh_new P h) aad) (concat chunks))
      (nat_be 8 (8 * length aad) @ nat_be 8 (8 * length (concat chunks))))) pad"
  using absorbed_finalize [OF assms absorbed_chunks [OF assms absorbed_start [OF assms]]]
  by (simp add: gcm_ghash_new_def chunks_keep) (simp add: from_keyed_def)

text \<open>
  A concrete choice of the primitives, for the examples: a key stream that mixes key, block and
  position, and a hash that remembers what it absorbed.
\<close>

definition sample_prims :: "bytes prims" where
  "sample_prims =
     \<lparr>aes_block = (\<lambda>k b. xor_bytes b k),
      keystream = (\<lambda>k iv i. hd k + foldr (XOR) iv 0 + of_nat i),
      gh_new = (\<lambda>h. h),
      gh_update = (\<lambda>g b. g @ b),
      gh_update_padded = (\<lambda>g m. g @ m @ replicate ((16 - length m mod 16) mod 16) 0),
      gh_finalize = (\<lambda>g. take 16 (rev g @ replicate 16 0))\<rparr>"

lemma sample_prims_laws: "ghash_laws sample_prims"
  by (simp add: ghash_laws_def sample_prims_def)

theorem ghash_streaming_witness:
  "gcm_ghash_finalize sample_prims (fold (\<lambda>x s. gcm_ghash_update sample_prims s x) [[1, 2, 3], [], [4, 5]]
     (gcm_ghash_new sample_prims [7] (replicate 16 9) [8])) =
   xor_bytes (gh_finalize sample_prims (gh_update sample_prims
      (gh_update_padded sample_prims (gh_update_padded sample_prims (gh_new sample_prims [7]) [8]) [1, 2, 3, 4, 5])
      (nat_be 8 8 @ nat_be 8 40))) (replicate 16 9)"
  using ghash_streaming [OF sample_prims_laws, of "[[1, 2, 3], [], [4, 5]]" "[7]" "replicate 16 9" "[8]"]
  by simp

section \<open>Opening accepts exactly what sealing produces\<close>

text \<open>The block type of GHASH has sixteen bytes; this is all the AEAD facts need of the primitives.\<close>

definition prims_ok :: "'g prims \<Rightarrow> bool" where
  "prims_ok P \<longleftrightarrow> (\<forall>g. length (gh_finalize P g) = 16)"

definition pad16 :: "'g gcm \<Rightarrow> bool" where
  "pad16 st \<longleftrightarrow> length (ghash_pad (snd st)) = 16"

lemma compute_tag_length:
  "prims_ok P \<Longrightarrow> pad16 st \<Longrightarrow> length (compute_tag P (snd (gcm_encrypt P st m))) = TAG_SIZE"
  by (auto simp: prims_ok_def pad16_def compute_tag_def gcm_encrypt_def gcm_ghash_finalize_def Let_def
      TAG_SIZE_def split: prod.splits)

lemma gcm_decrypt_encrypt:
  "gcm_decrypt P st (fst (gcm_encrypt P st m)) = (m, snd (gcm_encrypt P st m))"
  using ctr_process_twice [of P "fst st" m]
  by (cases st) (auto simp: gcm_decrypt_def gcm_encrypt_def Let_def ctr_process_def split: prod.splits)

lemma gcm_encrypt_decrypt:
  "gcm_encrypt P st (fst (gcm_decrypt P st c)) = (c, snd (gcm_decrypt P st c))"
  using ctr_process_twice [of P "fst st" c]
  by (cases st) (auto simp: gcm_decrypt_def gcm_encrypt_def Let_def ctr_process_def split: prod.splits)

lemma length_gcm_encrypt [simp]: "length (fst (gcm_encrypt P st m)) = length m"
  by (cases st) (simp add: gcm_encrypt_def ctr_process_def)

lemma length_gcm_decrypt [simp]: "length (fst (gcm_decrypt P st m)) = length m"
  by (cases st) (simp add: gcm_decrypt_def ctr_process_def)

lemma verify_tag_iff:
  "verify_tag P st tag = Inr () \<longleftrightarrow> length tag = TAG_SIZE \<and> tag = compute_tag P st"
  by (cases st) (simp add: verify_tag_def compute_tag_def)

definition seal :: "'g prims \<Rightarrow> 'g gcm \<Rightarrow> bytes \<Rightarrow> bytes" where
  "seal P st m = (let (ct, st) = gcm_encrypt P st m in ct @ compute_tag P st)"

definition unseal :: "'g prims \<Rightarrow> 'g gcm \<Rightarrow> bytes \<Rightarrow> bytes option" where
  "unseal P st c =
     (if length c < 16 then None
      else let (m, st) = gcm_decrypt P st (take (length c - 16) c)
           in if drop (length c - 16) c = compute_tag P st then Some m else None)"

lemma length_seal: "prims_ok P \<Longrightarrow> pad16 st \<Longrightarrow> length (seal P st m) = length m + TAG_SIZE"
  using compute_tag_length [of P st m] by (simp add: seal_def split_def Let_def)

lemma unseal_iff:
  assumes "prims_ok P" and "pad16 st"
  shows "unseal P st c = Some m \<longleftrightarrow> c = seal P st m"
proof
  assume c: "unseal P st c = Some m"
  define n where "n = length c - 16"
  from c have "fst (gcm_decrypt P st (take n c)) = m" "drop n c = compute_tag P (snd (gcm_decrypt P st (take n c)))"
    by (auto simp: unseal_def n_def split: prod.splits if_splits)
  then show "c = seal P st m"
    using gcm_encrypt_decrypt [of P st "take n c"] append_take_drop_id [of n c]
    by (simp add: seal_def)
next
  assume "c = seal P st m"
  moreover define ct tag where "ct = fst (gcm_encrypt P st m)" and "tag = compute_tag P (snd (gcm_encrypt P st m))"
  ultimately have "c = ct @ tag" "length tag = 16"
    using compute_tag_length [OF assms] by (simp_all add: seal_def TAG_SIZE_def split: prod.splits)
  then show "unseal P st c = Some m"
    using gcm_decrypt_encrypt [of P st m] by (simp add: unseal_def ct_def tag_def)
qed

lemma setup_gcm_pad16: "setup_gcm P key nonce aad = Inr st \<Longrightarrow> pad16 st"
  by (auto simp: setup_gcm_def bind_res_Inr_iff ctr_process_def gcm_ghash_new_def from_keyed_def pad16_def
      Let_def split: if_splits)

lemma gcm_key_setup_pad16: "gcm_key_setup P k nonce aad = Inr st \<Longrightarrow> pad16 st"
  by (auto simp: gcm_key_setup_def bind_res_Inr_iff ctr_process_def from_keyed_def pad16_def
      Let_def split: if_splits)

lemma encrypt_buffer_eq:
  "encrypt_buffer P setup buffer =
     (case setup of Inl _ \<Rightarrow> (Inl BadInput, buffer) | Inr st \<Rightarrow> (Inr (), seal P st buffer))"
  by (auto simp: encrypt_buffer_def seal_def split: sum.splits prod.splits)

lemma decrypt_buffer_Inr_iff:
  "decrypt_buffer P setup c = (Inr (), m) \<longleftrightarrow> (\<exists>st. setup = Inr st \<and> unseal P st c = Some m)"
proof (cases "setup")
  case (Inr st)
  define n where "n = length c - 16"
  obtain pt st' where d: "gcm_decrypt P st (take n c) = (pt, st')" by (meson surj_pair)
  then have "length pt = n" using length_gcm_decrypt [of P st "take n c"] by (simp add: n_def)
  moreover have "verify_tag P st' (drop n c) = Inr () \<longleftrightarrow> drop n c = compute_tag P st'" if "16 \<le> length c"
    using that by (simp add: verify_tag_iff n_def TAG_SIZE_def)
  ultimately show ?thesis
    using Inr d
    by (cases "verify_tag P st' (drop n c)")
       (auto simp: decrypt_buffer_def unseal_def Let_def n_def [symmetric] split: if_splits)
qed (simp add: decrypt_buffer_def Let_def)

lemma aes_256_gcm_encrypt_eq:
  "aes_256_gcm_encrypt P key nonce aad m out =
     (case setup_gcm P key nonce aad of Inl _ \<Rightarrow> (Inl BadInput, out) | Inr st \<Rightarrow> (Inr (), out @ seal P st m))"
  by (auto simp: aes_256_gcm_encrypt_def seal_def split: sum.splits prod.splits)

lemma aes_256_gcm_decrypt_eq:
  "aes_256_gcm_decrypt P key nonce aad c out =
     (case decrypt_buffer P (setup_gcm P key nonce aad) c of
        (Inl e, _) \<Rightarrow> (Inl e, out) | (Inr _, m) \<Rightarrow> (Inr (), out @ m))"
proof (cases "setup_gcm P key nonce aad")
  case (Inr st)
  define n where "n = length c - 16"
  obtain pt st' where d: "gcm_decrypt P st (take n c) = (pt, st')" by (meson surj_pair)
  then have "length pt = n" using length_gcm_decrypt [of P st "take n c"] by (simp add: n_def)
  then show ?thesis
    using Inr d
    by (cases "verify_tag P st' (drop n c)")
       (auto simp: aes_256_gcm_decrypt_def decrypt_buffer_def Let_def n_def [symmetric])
qed (simp add: aes_256_gcm_decrypt_def decrypt_buffer_def Let_def)

lemma setup_gcm_ok: "length key = 32 \<Longrightarrow> length nonce = 12 \<Longrightarrow> \<exists>st. setup_gcm P key nonce aad = Inr st"
  by (simp add: setup_gcm_def aes256_new_from_slice_def ctr_new_def NONCE_SIZE_def AES_BLOCK_SIZE_def
      split: prod.splits)

lemma gcm_key_setup_eq:
  "gcm_key_new P key = Inr k \<Longrightarrow> gcm_key_setup P k nonce aad = setup_gcm P key nonce aad"
  by (auto simp: gcm_key_new_def gcm_key_setup_def setup_gcm_def gcm_ghash_new_def aes256_new_from_slice_def
      Let_def split: if_splits)

lemma gcm_open_seal:
  assumes "prims_ok P" and "length key = 32" and "length nonce = 12"
  shows "aes_256_gcm_decrypt P key nonce aad c out = (Inr (), out @ m) \<longleftrightarrow>
         aes_256_gcm_encrypt P key nonce aad m [] = (Inr (), c)"
proof -
  obtain st where st: "setup_gcm P key nonce aad = Inr st" using setup_gcm_ok assms(2,3) by blast
  have "decrypt_buffer P (Inr st) c = (Inr (), m) \<longleftrightarrow> c = seal P st m"
    using unseal_iff [OF assms(1) setup_gcm_pad16 [OF st]] by (simp add: decrypt_buffer_Inr_iff)
  then show ?thesis
    using st by (auto simp: aes_256_gcm_encrypt_eq aes_256_gcm_decrypt_eq split: sum.splits prod.splits)
qed

lemma gcm_open_fails_clean: "aes_256_gcm_decrypt P key nonce aad c out = (Inl e, out') \<Longrightarrow> out' = out"
  by (auto simp: aes_256_gcm_decrypt_eq split: sum.splits prod.splits)

text \<open>
  C19: AES-256-GCM as assembled here is an authenticated cipher in the strong sense: with a 32-byte key and
  a 12-byte nonce, opening accepts a byte string exactly when it is the sealing of some plaintext
  under the same key, nonce and additional data, and then appends that plaintext. Every other input
  is refused and the output vector is left as it was.
\<close>

theorem gcm_open_iff_sealed:
  assumes "prims_ok P" and "length key = 32" and "length nonce = 12"
  shows "(aes_256_gcm_decrypt P key nonce aad c out = (Inr (), out @ m)) =
         (aes_256_gcm_encrypt P key nonce aad m [] = (Inr (), c)) \<and>
         (\<forall>e out'. aes_256_gcm_decrypt P key nonce aad c out = (Inl e, out') \<longrightarrow> out' = out)"
  using gcm_open_seal [OF assms] gcm_open_fails_clean by metis

lemma sample_prims_ok: "prims_ok sample_prims"
  by (auto simp: prims_ok_def sample_prims_def min_def)

theorem gcm_open_iff_sealed_witness:
  "aes_256_gcm_decrypt sample_prims (replicate 32 5) (replicate 12 1) [2]
     (snd (aes_256_gcm_encrypt sample_prims (replicate 32 5) (replicate 12 1) [2] [10, 20] [])) [99] =
   (Inr (), [99, 10, 20])"
proof -
  have "fst (aes_256_gcm_encrypt sample_prims (replicate 32 5) (replicate 12 1) [2] [10, 20] []) = Inr ()"
    using setup_gcm_ok [of "replicate 32 5" "replicate 12 1" sample_prims "[2]"]
    by (auto simp: aes_256_gcm_encrypt_eq)
  then have "aes_256_gcm_encrypt sample_prims (replicate 32 5) (replicate 12 1) [2] [10, 20] [] =
    (Inr (), snd (aes_256_gcm_encrypt sample_prims (replicate 32 5) (replicate 12 1) [2] [10, 20] []))"
    by (metis prod.collapse)
  then show ?thesis
    using gcm_open_iff_sealed [OF sample_prims_ok, of "replicate 32 5" "replicate 12 1" "[2]" _ "[99]" "[10, 20]"]
    by simp
qed

text \<open>
  C30: The four routes to a sealed buffer give the same bytes: appending to an empty vector, in place, in
  place under the key prepared once for a connection, and the trait's default that an out-of-tree
  provider inherits. The same holds of every successful opening, so the two ends of a connection may
  use different routes.
\<close>

theorem gcm_routes_agree:
  assumes "transport_aead P key = Inr k"
  shows "aead_encrypt_in_place P k nonce aad buf = aes_256_gcm_encrypt_in_place P key nonce aad buf \<and>
         default_encrypt_in_place (aes_256_gcm_encrypt P key nonce aad) buf =
           aes_256_gcm_encrypt_in_place P key nonce aad buf \<and>
         aead_decrypt_in_place P k nonce aad buf = aes_256_gcm_decrypt_in_place P key nonce aad buf \<and>
         fst (default_decrypt_in_place (aes_256_gcm_decrypt P key nonce aad) buf) =
           fst (aes_256_gcm_decrypt_in_place P key nonce aad buf) \<and>
         (\<forall>m. default_decrypt_in_place (aes_256_gcm_decrypt P key nonce aad) buf = (Inr (), m) \<longleftrightarrow>
              aes_256_gcm_decrypt_in_place P key nonce aad buf = (Inr (), m))"
proof -
  have "gcm_key_new P key = Inr k" using assms by (simp add: transport_aead_def)
  note k = gcm_key_setup_eq [OF this]
  show ?thesis
    by (auto simp: aead_encrypt_in_place_def aead_decrypt_in_place_def aes_256_gcm_encrypt_in_place_def
        aes_256_gcm_decrypt_in_place_def default_encrypt_in_place_def default_decrypt_in_place_def k
        aes_256_gcm_encrypt_eq aes_256_gcm_decrypt_eq encrypt_buffer_eq split: sum.splits prod.splits)
qed

theorem gcm_routes_agree_witness:
  "transport_aead sample_prims (replicate 32 5) = Inr \<lparr>cipher = replicate 32 5, keyed_ghash = replicate 16 5\<rparr> \<and>
   aead_encrypt_in_place sample_prims \<lparr>cipher = replicate 32 5, keyed_ghash = replicate 16 5\<rparr> (replicate 12 1) [] [3] =
   aes_256_gcm_encrypt_in_place sample_prims (replicate 32 5) (replicate 12 1) [] [3]"
proof -
  have "transport_aead sample_prims (replicate 32 5) = Inr \<lparr>cipher = replicate 32 5, keyed_ghash = replicate 16 5\<rparr>"
    by (simp add: transport_aead_def gcm_key_new_def aes256_new_from_slice_def sample_prims_def TAG_SIZE_def
        xor_bytes_def zip_replicate map_replicate_const)
  then show ?thesis using gcm_routes_agree by blast
qed

end
