(* ===== verification/Noise_State.thy ===== *)
theory Noise_State
  imports Aes_Gcm
begin

text \<open>
  The symmetric half of the Noise protocol (\<open>wacore/noise/src/state.rs\<close>): the transcript hash, the
  chaining key, the cipher key and its message counter during a handshake, and the ciphers of the
  transport once the handshake is split. SHA-256 and HKDF are other crates: with the AES primitives
  they are the fields of \<open>noise_env\<close>. An operation gives its verdict and the state it leaves
  behind, because a failed call may already have spent a counter.
\<close>

section \<open>Operations that may fail and change a state\<close>

type_synonym ('s, 'e, 'a) op = "'s \<Rightarrow> ('e, 'a) result \<times> 's"

definition oret :: "'a \<Rightarrow> ('s, 'e, 'a) op" where
  "oret a s = (Inr a, s)"

definition ofail :: "'e \<Rightarrow> ('s, 'e, 'a) op" where
  "ofail e s = (Inl e, s)"

definition obind :: "('s, 'e, 'a) op \<Rightarrow> ('a \<Rightarrow> ('s, 'e, 'b) op) \<Rightarrow> ('s, 'e, 'b) op" where
  "obind m f s = (case m s of (Inl e, s) \<Rightarrow> (Inl e, s) | (Inr a, s) \<Rightarrow> f a s)"

definition omap_err :: "('e \<Rightarrow> 'f) \<Rightarrow> ('s, 'e, 'a) op \<Rightarrow> ('s, 'f, 'a) op" where
  "omap_err f m s = (case m s of (r, s) \<Rightarrow> (map_err f r, s))"

lemma obind_Inr_iff:
  "obind m f s = (Inr b, s') \<longleftrightarrow> (\<exists>a t. m s = (Inr a, t) \<and> f a t = (Inr b, s'))"
  by (auto simp: obind_def split: prod.splits sum.splits)

lemma oret_iff [simp]: "oret a s = (Inr b, s') \<longleftrightarrow> a = b \<and> s = s'"
  by (simp add: oret_def)

lemma ofail_iff [simp]: "ofail e s \<noteq> (Inr b, s')"
  by (simp add: ofail_def)

lemma omap_err_Inr_iff: "omap_err f m s = (Inr b, s') \<longleftrightarrow> m s = (Inr b, s')"
  by (auto simp: omap_err_def split: prod.splits)

section \<open>Ciphers of the transport\<close>

record 'g noise_env =
  gcm :: "'g prims"
  sha256 :: "bytes \<Rightarrow> bytes"
  hkdf_sha256 :: "bytes \<Rightarrow> bytes \<Rightarrow> nat \<Rightarrow> bytes option"

datatype noise_error =
    InvalidPatternLength nat nat
  | Encrypt provider_error
  | Decrypt provider_error
  | CiphertextTooShort
  | HkdfExpandFailed
  | InvalidKeyLength str nat nat
  | CounterExhausted

definition generate_iv :: "u32 \<Rightarrow> bytes" where
  "generate_iv counter = copy_at 8 (nat_be 4 (unat counter)) (replicate 12 0)"

definition TAG_LEN :: nat where "TAG_LEN = 16"

text \<open>\<open>NoiseCipher\<close> wraps the prepared key of the default provider.\<close>

definition noise_cipher_new :: "'g noise_env \<Rightarrow> bytes \<Rightarrow> (noise_error, 'g gcm_key) result" where
  "noise_cipher_new E key = map_err Encrypt (transport_aead (gcm E) key)"

definition encrypt_with_counter ::
  "'g noise_env \<Rightarrow> 'g gcm_key \<Rightarrow> u32 \<Rightarrow> bytes \<Rightarrow> (noise_error, bytes) result" where
  "encrypt_with_counter E k counter plaintext =
     (case aead_encrypt_in_place (gcm E) k (generate_iv counter) [] plaintext of
        (r, out) \<Rightarrow> map_res (\<lambda>_. out) (map_err Encrypt r))"

definition encrypt_in_place_with_counter ::
  "'g noise_env \<Rightarrow> 'g gcm_key \<Rightarrow> u32 \<Rightarrow> bytes \<Rightarrow> (noise_error, unit) result \<times> bytes" where
  "encrypt_in_place_with_counter E k counter buffer =
     (case aead_encrypt_in_place (gcm E) k (generate_iv counter) [] buffer of
        (r, buffer) \<Rightarrow> (map_err Encrypt r, buffer))"

definition decrypt_in_place_with_counter ::
  "'g noise_env \<Rightarrow> 'g gcm_key \<Rightarrow> u32 \<Rightarrow> bytes \<Rightarrow> (noise_error, unit) result \<times> bytes" where
  "decrypt_in_place_with_counter E k counter buffer =
     (case aead_decrypt_in_place (gcm E) k (generate_iv counter) [] buffer of
        (r, buffer) \<Rightarrow> (map_err Decrypt r, buffer))"

section \<open>The handshake state\<close>

record noise_state =
  ns_hash :: bytes
  ns_salt :: bytes
  ns_key :: bytes
  ns_counter :: u32

definition authenticate :: "'g noise_env \<Rightarrow> bytes \<Rightarrow> noise_state \<Rightarrow> noise_state" where
  "authenticate E data s = s\<lparr>ns_hash := sha256 E (ns_hash s @ data)\<rparr>"

definition noise_state_new :: "'g noise_env \<Rightarrow> bytes \<Rightarrow> bytes \<Rightarrow> (noise_error, noise_state) result" where
  "noise_state_new E pattern prologue =
     (let h = (if length pattern \<le> 32 then copy_at 0 pattern (replicate 32 0) else sha256 E pattern);
          state = \<lparr>ns_hash = h, ns_salt = h, ns_key = h, ns_counter = 0\<rparr>
      in Inr (authenticate E prologue state))"

definition post_increment_counter :: "(noise_state, noise_error, u32) op" where
  "post_increment_counter s =
     (let count = ns_counter s in
      if count = - 1 then (Inl CounterExhausted, s)
      else (Inr count, s\<lparr>ns_counter := count + 1\<rparr>))"

definition noise_encrypt :: "'g noise_env \<Rightarrow> bytes \<Rightarrow> (noise_state, noise_error, bytes) op" where
  "noise_encrypt E plaintext =
     obind post_increment_counter (\<lambda>count s.
       case aes_256_gcm_encrypt (gcm E) (ns_key s) (generate_iv count) (ns_hash s) plaintext [] of
         (Inl e, _) \<Rightarrow> (Inl (Encrypt e), s)
       | (Inr _, out) \<Rightarrow> (Inr out, authenticate E out s))"

text \<open>The \<open>_into\<close> variants append to a vector, which is handed back in every case.\<close>

definition noise_encrypt_into ::
  "'g noise_env \<Rightarrow> bytes \<Rightarrow> bytes \<Rightarrow> noise_state \<Rightarrow> (noise_error, unit) result \<times> bytes \<times> noise_state" where
  "noise_encrypt_into E plaintext out s =
     (case post_increment_counter s of
        (Inl e, s) \<Rightarrow> (Inl e, out, s)
      | (Inr count, s) \<Rightarrow>
          let aad = ns_hash s; start = length out in
          case aes_256_gcm_encrypt (gcm E) (ns_key s) (generate_iv count) aad plaintext out of
            (Inl e, out) \<Rightarrow> (Inl (Encrypt e), out, s)
          | (Inr _, out) \<Rightarrow> (Inr (), out, authenticate E (drop start out) s))"

definition noise_decrypt :: "'g noise_env \<Rightarrow> bytes \<Rightarrow> (noise_state, noise_error, bytes) op" where
  "noise_decrypt E ciphertext s =
     (let aad = ns_hash s in
      obind post_increment_counter (\<lambda>count s.
        case aes_256_gcm_decrypt (gcm E) (ns_key s) (generate_iv count) aad ciphertext [] of
          (Inl e, _) \<Rightarrow> (Inl (Decrypt e), s)
        | (Inr _, out) \<Rightarrow> (Inr out, authenticate E ciphertext s)) s)"

definition noise_decrypt_into ::
  "'g noise_env \<Rightarrow> bytes \<Rightarrow> bytes \<Rightarrow> noise_state \<Rightarrow> (noise_error, unit) result \<times> bytes \<times> noise_state" where
  "noise_decrypt_into E ciphertext out s =
     (if length ciphertext < TAG_LEN then (Inl CiphertextTooShort, out, s)
      else
        let aad = ns_hash s in
        case post_increment_counter s of
          (Inl e, s) \<Rightarrow> (Inl e, out, s)
        | (Inr count, s) \<Rightarrow>
            case aes_256_gcm_decrypt (gcm E) (ns_key s) (generate_iv count) aad ciphertext out of
              (Inl e, out) \<Rightarrow> (Inl (Decrypt e), out, s)
            | (Inr _, out) \<Rightarrow> (Inr (), out, authenticate E ciphertext s))"

definition extract_and_expand ::
  "'g noise_env \<Rightarrow> noise_state \<Rightarrow> bytes option \<Rightarrow> (noise_error, bytes \<times> bytes) result" where
  "extract_and_expand E s ikm =
     (case hkdf_sha256 E (ns_salt s) (case ikm of Some ikm \<Rightarrow> ikm | None \<Rightarrow> []) 64 of
        None \<Rightarrow> Inl HkdfExpandFailed
      | Some okm \<Rightarrow> Inr (take 32 okm, drop 32 okm))"

definition mix_key :: "'g noise_env \<Rightarrow> bytes \<Rightarrow> (noise_state, noise_error, unit) op" where
  "mix_key E input_key_material s =
     (let s = s\<lparr>ns_counter := 0\<rparr> in
      case extract_and_expand E s (Some input_key_material) of
        Inl e \<Rightarrow> (Inl e, s)
      | Inr (new_salt, new_key) \<Rightarrow> (Inr (), s\<lparr>ns_salt := new_salt, ns_key := new_key\<rparr>))"

record 'g noise_keys =
  nk_write :: "'g gcm_key"
  nk_read :: "'g gcm_key"

definition noise_split :: "'g noise_env \<Rightarrow> noise_state \<Rightarrow> (noise_error, 'g noise_keys) result" where
  "noise_split E s =
     bind_res (extract_and_expand E s None) (\<lambda>(write_bytes, read_bytes).
     bind_res (noise_cipher_new E write_bytes) (\<lambda>write.
     bind_res (noise_cipher_new E read_bytes) (\<lambda>read.
       Inr \<lparr>nk_write = write, nk_read = read\<rparr>)))"

section \<open>Widths\<close>

text \<open>What the primitives document of their outputs: SHA-256 gives 32 bytes, HKDF the number asked for.\<close>

definition env_ok :: "'g noise_env \<Rightarrow> bool" where
  "env_ok E \<longleftrightarrow> prims_ok (gcm E) \<and> (\<forall>x. length (sha256 E x) = 32) \<and>
     (\<forall>salt ikm n okm. hkdf_sha256 E salt ikm n = Some okm \<longrightarrow> length okm = n)"

definition noise_wf :: "noise_state \<Rightarrow> bool" where
  "noise_wf s \<longleftrightarrow> length (ns_hash s) = 32 \<and> length (ns_salt s) = 32 \<and> length (ns_key s) = 32"

lemma length_generate_iv [simp]: "length (generate_iv n) = 12"
  by (simp add: generate_iv_def copy_at_def)

lemma generate_iv_inject [simp]: "generate_iv m = generate_iv n \<longleftrightarrow> m = n"
proof
  assume "generate_iv m = generate_iv n"
  then have "be_nat (nat_be 4 (unat m)) = be_nat (nat_be 4 (unat n))"
    by (simp add: generate_iv_def copy_at_def)
  then show "m = n" by (simp add: word_unat_eq_iff)
qed simp

lemma wf_authenticate: "env_ok E \<Longrightarrow> noise_wf s \<Longrightarrow> noise_wf (authenticate E d s)"
  by (simp add: noise_wf_def authenticate_def env_ok_def)

lemma wf_counter: "noise_wf (s\<lparr>ns_counter := n\<rparr>) = noise_wf s"
  by (simp add: noise_wf_def)

lemma wf_post_increment: "noise_wf s \<Longrightarrow> noise_wf (snd (post_increment_counter s))"
  by (simp add: post_increment_counter_def Let_def wf_counter)

lemma wf_noise_encrypt: "env_ok E \<Longrightarrow> noise_wf s \<Longrightarrow> noise_wf (snd (noise_encrypt E p s))"
  by (auto simp: noise_encrypt_def obind_def post_increment_counter_def Let_def wf_counter wf_authenticate
      split: prod.splits sum.splits)

lemma wf_noise_decrypt: "env_ok E \<Longrightarrow> noise_wf s \<Longrightarrow> noise_wf (snd (noise_decrypt E c s))"
  by (auto simp: noise_decrypt_def obind_def post_increment_counter_def Let_def wf_counter wf_authenticate
      split: prod.splits sum.splits)

lemma wf_mix_key: "env_ok E \<Longrightarrow> noise_wf s \<Longrightarrow> noise_wf (snd (mix_key E k s))"
  by (auto simp: mix_key_def Let_def extract_and_expand_def noise_wf_def env_ok_def
      split: option.splits sum.splits)

lemma wf_new: "env_ok E \<Longrightarrow> noise_state_new E pattern prologue = Inr s \<Longrightarrow> noise_wf s"
  by (auto simp: noise_state_new_def Let_def noise_wf_def authenticate_def copy_at_def env_ok_def)

section \<open>Two parties in lock step\<close>

lemma noise_decrypt_iff_encrypt:
  assumes "env_ok E" and "noise_wf s"
  shows "noise_decrypt E c s = (Inr p, s') \<longleftrightarrow> noise_encrypt E p s = (Inr c, s')"
proof -
  define n where "n = ns_counter s"
  have key: "length (ns_key s) = 32" and ok: "prims_ok (gcm E)"
    using assms by (simp_all add: noise_wf_def env_ok_def)
  have "aes_256_gcm_decrypt (gcm E) (ns_key s) (generate_iv n) (ns_hash s) c [] = (Inr (), p) \<longleftrightarrow>
        aes_256_gcm_encrypt (gcm E) (ns_key s) (generate_iv n) (ns_hash s) p [] = (Inr (), c)"
    using gcm_open_seal [OF ok key, of "generate_iv n" "ns_hash s" c "[]" p] by simp
  then show ?thesis
    by (auto simp: noise_decrypt_def noise_encrypt_def obind_def post_increment_counter_def Let_def
        n_def [symmetric] split: prod.splits sum.splits)
qed

text \<open>
  What one party does during a handshake: mix public data or a shared secret, send a payload, or
  receive a ciphertext. A run gives the bytes each message produced, ciphertexts sent and plaintexts
  received; the peer's run is the same list with the directions exchanged.
\<close>

datatype noise_step = Mix_Hash bytes | Mix_Key bytes | Send bytes | Recv bytes

fun noise_run :: "'g noise_env \<Rightarrow> noise_step list \<Rightarrow> (noise_state, noise_error, bytes list) op" where
  "noise_run E [] = oret []"
| "noise_run E (Mix_Hash d # xs) = (\<lambda>s. noise_run E xs (authenticate E d s))"
| "noise_run E (Mix_Key k # xs) = obind (mix_key E k) (\<lambda>_. noise_run E xs)"
| "noise_run E (Send p # xs) = obind (noise_encrypt E p) (\<lambda>c. obind (noise_run E xs) (\<lambda>os. oret (c # os)))"
| "noise_run E (Recv c # xs) = obind (noise_decrypt E c) (\<lambda>p. obind (noise_run E xs) (\<lambda>os. oret (p # os)))"

fun mirror :: "noise_step list \<Rightarrow> bytes list \<Rightarrow> noise_step list" where
  "mirror (Send p # xs) (o' # os) = Recv o' # mirror xs os"
| "mirror (Recv c # xs) (o' # os) = Send o' # mirror xs os"
| "mirror (Mix_Hash d # xs) os = Mix_Hash d # mirror xs os"
| "mirror (Mix_Key k # xs) os = Mix_Key k # mirror xs os"
| "mirror _ _ = []"

fun payloads :: "noise_step list \<Rightarrow> bytes list" where
  "payloads [] = []"
| "payloads (Send p # xs) = p # payloads xs"
| "payloads (Recv c # xs) = c # payloads xs"
| "payloads (_ # xs) = payloads xs"

lemma wf_step:
  assumes "env_ok E" and "noise_wf s"
  shows "mix_key E k s = (r, s') \<Longrightarrow> noise_wf s'"
    and "noise_encrypt E p s = (r', s') \<Longrightarrow> noise_wf s'"
    and "noise_decrypt E c s = (r', s') \<Longrightarrow> noise_wf s'"
  using wf_mix_key [OF assms, of k] wf_noise_encrypt [OF assms, of p] wf_noise_decrypt [OF assms, of c]
  by simp_all

lemma noise_run_wf: "env_ok E \<Longrightarrow> noise_wf s \<Longrightarrow> noise_wf (snd (noise_run E xs s))"
proof (induction E xs arbitrary: s rule: noise_run.induct)
  case (1 E)
  then show ?case by (simp add: oret_def)
next
  case (2 E d xs)
  then show ?case by (simp add: wf_authenticate)
next
  case (3 E k xs)
  then show ?case by (auto simp: obind_def dest: wf_step(1) split: prod.splits sum.splits)
next
  case (4 E p xs)
  then show ?case by (auto simp: obind_def oret_def dest: wf_step(2) split: prod.splits sum.splits) (metis snd_conv wf_step(2))+
next
  case (5 E c xs)
  then show ?case by (auto simp: obind_def oret_def dest: wf_step(3) split: prod.splits sum.splits) (metis snd_conv wf_step(3))+
qed


definition sample_noise :: "bytes noise_env" where
  "sample_noise =
     \<lparr>gcm = sample_prims, sha256 = (\<lambda>x. take 32 (x @ replicate 32 1)),
      hkdf_sha256 = (\<lambda>salt ikm n. Some (take n (ikm @ salt @ replicate n 2)))\<rparr>"

lemma sample_noise_ok: "env_ok sample_noise"
  by (auto simp: env_ok_def sample_noise_def sample_prims_ok)


lemma noise_run_mirror:
  assumes "env_ok E" and "noise_wf s" and "noise_run E xs s = (Inr os, s')"
  shows "noise_run E (mirror xs os) s = (Inr (payloads xs), s')"
  using assms
proof (induction E xs arbitrary: s os rule: noise_run.induct)
  case (1 E)
  then show ?case by simp
next
  case (2 E d xs)
  then show ?case by (simp add: wf_authenticate)
next
  case (3 E k xs)
  then show ?case by (auto simp: obind_Inr_iff dest: wf_step(1))
next
  case (4 E p xs)
  then obtain c t os' where c: "noise_encrypt E p s = (Inr c, t)" "noise_run E xs t = (Inr os', s')" "os = c # os'"
    by (auto simp: obind_Inr_iff)
  have "noise_run E (mirror xs os') t = (Inr (payloads xs), s')"
    using 4 c wf_step(2) by blast
  then show ?case using c noise_decrypt_iff_encrypt [OF 4(2,3)] by (auto simp: obind_Inr_iff)
next
  case (5 E c xs)
  then obtain p t os' where p: "noise_decrypt E c s = (Inr p, t)" "noise_run E xs t = (Inr os', s')" "os = p # os'"
    by (auto simp: obind_Inr_iff)
  have "noise_run E (mirror xs os') t = (Inr (payloads xs), s')"
    using 5 p wf_step(3) by blast
  then show ?case using p noise_decrypt_iff_encrypt [OF 5(2,3)] by (auto simp: obind_Inr_iff)
qed

text \<open>
  C20: The two ends of a handshake stay in lock step. If one party's operations succeed from some state,
  the peer who starts there and performs them with the directions exchanged also succeeds, reads
  exactly the payloads that were sent, emits exactly the ciphertexts that were received, and ends in
  the same state, so both derive the same transport keys. Conversely no other ciphertext would have
  been accepted at any point.
\<close>

theorem noise_lockstep:
  assumes "env_ok E" and "noise_wf s" and "noise_run E xs s = (Inr os, s')"
  shows "noise_run E (mirror xs os) s = (Inr (payloads xs), s') \<and>
         (\<forall>c p t. noise_decrypt E c s' = (Inr p, t) \<longrightarrow> noise_encrypt E p s' = (Inr c, t))"
  using noise_run_mirror [OF assms] noise_decrypt_iff_encrypt [OF assms(1)] noise_run_wf [OF assms(1,2), of xs] assms(3)
  by simp

lemma noise_encrypt_total:
  assumes "noise_wf s" and "ns_counter s \<noteq> - 1"
  shows "\<exists>c. noise_encrypt E p s = (Inr c, authenticate E c (s\<lparr>ns_counter := ns_counter s + 1\<rparr>))"
proof -
  obtain st where "setup_gcm (gcm E) (ns_key s) (generate_iv (ns_counter s)) (ns_hash s) = Inr st"
    using setup_gcm_ok [of "ns_key s" "generate_iv (ns_counter s)" "gcm E" "ns_hash s"] assms(1)
    by (auto simp: noise_wf_def)
  then show ?thesis
    using assms(2)
    by (simp add: noise_encrypt_def obind_def post_increment_counter_def Let_def aes_256_gcm_encrypt_eq)
qed

definition sample_state :: noise_state where
  "sample_state = \<lparr>ns_hash = replicate 32 0, ns_salt = replicate 32 0, ns_key = replicate 32 0, ns_counter = 7\<rparr>"

theorem noise_lockstep_witness:
  "\<exists>os s'. noise_run sample_noise [Mix_Hash [1], Send [3]] sample_state = (Inr os, s') \<and>
           noise_run sample_noise (mirror [Mix_Hash [1], Send [3]] os) sample_state = (Inr [[3]], s')"
proof -
  have wf: "noise_wf sample_state" by (simp add: noise_wf_def sample_state_def)
  have "ns_counter (authenticate sample_noise [1] sample_state) \<noteq> - 1"
    by (simp add: authenticate_def sample_state_def)
  from noise_encrypt_total [OF wf_authenticate [OF sample_noise_ok wf] this]
  obtain c t where "noise_encrypt sample_noise [3] (authenticate sample_noise [1] sample_state) = (Inr c, t)"
    by blast
  then have "noise_run sample_noise [Mix_Hash [1], Send [3]] sample_state = (Inr [c], t)"
    by (simp add: obind_def oret_def)
  then show ?thesis using noise_lockstep [OF sample_noise_ok wf] by fastforce
qed

section \<open>Counters and the buffer variants\<close>

lemma gcm_encrypt_append:
  "aes_256_gcm_encrypt P key nonce aad m out =
     (case aes_256_gcm_encrypt P key nonce aad m [] of (Inl e, _) \<Rightarrow> (Inl e, out) | (Inr _, c) \<Rightarrow> (Inr (), out @ c))"
  by (simp add: aes_256_gcm_encrypt_eq split: sum.splits)

lemma gcm_decrypt_append:
  "aes_256_gcm_decrypt P key nonce aad c out =
     (case aes_256_gcm_decrypt P key nonce aad c [] of (Inl e, _) \<Rightarrow> (Inl e, out) | (Inr _, m) \<Rightarrow> (Inr (), out @ m))"
  by (simp add: aes_256_gcm_decrypt_eq split: sum.splits prod.splits)

lemma noise_encrypt_into_eq:
  "noise_encrypt_into E p out s =
     (case noise_encrypt E p s of (Inl e, s') \<Rightarrow> (Inl e, out, s') | (Inr c, s') \<Rightarrow> (Inr (), out @ c, s'))"
proof (cases "post_increment_counter s")
  case (Pair r t)
  show ?thesis
    using Pair gcm_encrypt_append [of "gcm E" "ns_key t" _ "ns_hash t" p out]
    by (auto simp: noise_encrypt_into_def noise_encrypt_def obind_def Let_def split: sum.splits prod.splits)
qed

lemma noise_decrypt_into_eq:
  "16 \<le> length c \<Longrightarrow> noise_decrypt_into E c out s =
     (case noise_decrypt E c s of (Inl e, s') \<Rightarrow> (Inl e, out, s') | (Inr p, s') \<Rightarrow> (Inr (), out @ p, s'))"
proof (cases "post_increment_counter s")
  case (Pair r t)
  show "16 \<le> length c \<Longrightarrow> ?thesis"
    using Pair gcm_decrypt_append [of "gcm E" "ns_key t" _ "ns_hash s" c out]
    by (auto simp: noise_decrypt_into_def noise_decrypt_def obind_def Let_def TAG_LEN_def split: sum.splits prod.splits)
qed

text \<open>
  The buffer variants do what the allocating ones do: encrypting appends the same ciphertext and
  leaves the same state, and so does decrypting a string of at least sixteen bytes; a failure never
  changes the caller's vector. Below sixteen bytes they differ: \<open>decrypt_into\<close> refuses before it
  touches the counter, whereas \<open>decrypt\<close> has spent one when the cipher refuses the input.
\<close>

theorem into_variants_agree:
  "noise_encrypt_into E p out s =
     (case noise_encrypt E p s of (Inl e, s') \<Rightarrow> (Inl e, out, s') | (Inr c, s') \<Rightarrow> (Inr (), out @ c, s')) \<and>
   noise_decrypt_into E c out s =
     (if length c < 16 then (Inl CiphertextTooShort, out, s)
      else case noise_decrypt E c s of (Inl e, s') \<Rightarrow> (Inl e, out, s') | (Inr p, s') \<Rightarrow> (Inr (), out @ p, s')) \<and>
   noise_decrypt E (take 15 c) s =
     (if ns_counter s = - 1 then (Inl CounterExhausted, s)
      else (Inl (Decrypt BadInput), s\<lparr>ns_counter := ns_counter s + 1\<rparr>))"
proof -
  have d: "noise_decrypt_into E c out s =
     (if length c < 16 then (Inl CiphertextTooShort, out, s)
      else case noise_decrypt E c s of (Inl e, s') \<Rightarrow> (Inl e, out, s') | (Inr p, s') \<Rightarrow> (Inr (), out @ p, s'))"
    using noise_decrypt_into_eq [of c E out s] by (simp add: noise_decrypt_into_def TAG_LEN_def)
  have t: "noise_decrypt E (take 15 c) s =
     (if ns_counter s = - 1 then (Inl CounterExhausted, s)
      else (Inl (Decrypt BadInput), s\<lparr>ns_counter := ns_counter s + 1\<rparr>))"
    by (simp add: noise_decrypt_def obind_def post_increment_counter_def Let_def aes_256_gcm_decrypt_def
        min_less_iff_disj)
  show ?thesis by (intro conjI noise_encrypt_into_eq d t)
qed

text \<open>
  The IVs the cipher is called with along a run; the run goes on after a failure, with the state
  the failed call left.
\<close>

fun ivs_used :: "'g noise_env \<Rightarrow> noise_step list \<Rightarrow> noise_state \<Rightarrow> bytes list" where
  "ivs_used E [] s = []"
| "ivs_used E (Mix_Hash d # xs) s = ivs_used E xs (authenticate E d s)"
| "ivs_used E (Mix_Key k # xs) s = ivs_used E xs (snd (mix_key E k s))"
| "ivs_used E (Send p # xs) s =
     (case fst (post_increment_counter s) of Inl _ \<Rightarrow> [] | Inr n \<Rightarrow> [generate_iv n]) @
     ivs_used E xs (snd (noise_encrypt E p s))"
| "ivs_used E (Recv c # xs) s =
     (case fst (post_increment_counter s) of Inl _ \<Rightarrow> [] | Inr n \<Rightarrow> [generate_iv n]) @
     ivs_used E xs (snd (noise_decrypt E c s))"

fun rekeys :: "noise_step \<Rightarrow> bool" where
  "rekeys (Mix_Key k) = True"
| "rekeys _ = False"

lemma counter_authenticate [simp]: "ns_counter (authenticate E d s) = ns_counter s"
  by (simp add: authenticate_def)

lemma counter_encrypt:
  "ns_counter (snd (noise_encrypt E p s)) = (if ns_counter s = - 1 then - 1 else ns_counter s + 1)"
  by (auto simp: noise_encrypt_def obind_def post_increment_counter_def Let_def split: prod.splits sum.splits)

lemma counter_decrypt:
  "ns_counter (snd (noise_decrypt E c s)) = (if ns_counter s = - 1 then - 1 else ns_counter s + 1)"
  by (auto simp: noise_decrypt_def obind_def post_increment_counter_def Let_def split: prod.splits sum.splits)

lemma unat_next: "(n :: u32) \<noteq> - 1 \<Longrightarrow> unat (n + 1) = Suc (unat n)"
  using unatSuc [of n] by (simp add: add.commute eq_neg_iff_add_eq_0)

lemma ivs_exhausted: "ns_counter s = - 1 \<Longrightarrow> \<not> list_ex rekeys xs \<Longrightarrow> ivs_used E xs s = []"
  by (induction E xs s rule: ivs_used.induct)
     (auto simp: post_increment_counter_def Let_def counter_encrypt counter_decrypt)

lemma ivs_from:
  assumes "\<not> list_ex rekeys xs" and "iv \<in> set (ivs_used E xs s)"
  shows "\<exists>n. iv = generate_iv n \<and> unat (ns_counter s) \<le> unat n \<and> n \<noteq> - 1"
  using assms
proof (induction E xs s rule: ivs_used.induct)
  case (4 E p xs s)
  then show ?case
    by (cases "ns_counter s = - 1")
       (auto simp: post_increment_counter_def Let_def counter_encrypt unat_next ivs_exhausted dest: Suc_leD)
next
  case (5 E c xs s)
  then show ?case
    by (cases "ns_counter s = - 1")
       (auto simp: post_increment_counter_def Let_def counter_decrypt unat_next ivs_exhausted dest: Suc_leD)
qed auto



end
