(* ===== verification/Handshake.thy ===== *)
theory Handshake
  imports Noise_State Rust_Str
begin

text \<open>
  The three Noise handshakes of the client (\<open>wacore/noise/src/handshake.rs\<close>) and the connection
  header (\<open>edge_routing.rs\<close>): XX for the first connection, IK when the server's static key is cached,
  and XXfallback when the server declines IK, with the verification of the server's certificate
  chain. The protobuf codec is generated code, the curve arithmetic is another crate: they are fields
  of \<open>hs_env\<close>. Of a protobuf message only the fields the handshake reads or sets are kept; all others
  are absent in the messages it builds.
\<close>

section \<open>Connection header\<close>

definition WA_CONN_HEADER :: bytes where
  "WA_CONN_HEADER = lit ''WA'' @ [6, 3]"

definition MAX_EDGE_ROUTING_LEN :: nat where "MAX_EDGE_ROUTING_LEN = 0xFFFFFF"

datatype edge_routing_error = RoutingInfoTooLarge

definition build_edge_routing_preintro :: "bytes \<Rightarrow> (edge_routing_error, bytes) result" where
  "build_edge_routing_preintro routing_info =
     (let len = length routing_info in
      if len > MAX_EDGE_ROUTING_LEN then Inl RoutingInfoTooLarge
      else Inr (lit ''ED'' @ [0, 1] @
                [of_nat (drop_bit 16 len), of_nat (drop_bit 8 len), of_nat len] @ routing_info))"

definition build_handshake_header :: "bytes option \<Rightarrow> bytes \<times> bool" where
  "build_handshake_header edge_routing_info =
     (case edge_routing_info of
        None \<Rightarrow> (WA_CONN_HEADER, False)
      | Some routing_info \<Rightarrow>
          (case build_edge_routing_preintro routing_info of
             Inr header \<Rightarrow> (header @ WA_CONN_HEADER, True)
           | Inl _ \<Rightarrow> (WA_CONN_HEADER, False)))"

section \<open>Keys and messages\<close>

datatype curve_error =
    NoKeyTypeIdentifier | BadKeyType u8 | BadKeyLength nat | AgreementFailed provider_error

record key_pair =
  public_key :: bytes
  private_key :: bytes

record client_hello =
  ch_ephemeral :: "bytes option"
  ch_static :: "bytes option"
  ch_payload :: "bytes option"

record server_hello =
  sh_ephemeral :: "bytes option"
  sh_static :: "bytes option"
  sh_payload :: "bytes option"

record client_finish =
  cf_static :: "bytes option"
  cf_payload :: "bytes option"

record handshake_message =
  hm_client_hello :: "client_hello option"
  hm_server_hello :: "server_hello option"
  hm_client_finish :: "client_finish option"

record noise_certificate =
  cert_details :: "bytes option"
  cert_signature :: "bytes option"

record certificate_details =
  cd_serial :: "u32 option"
  cd_issuer_serial :: "u32 option"
  cd_key :: "bytes option"
  cd_not_before :: "u64 option"
  cd_not_after :: "u64 option"

record cert_chain =
  cc_leaf :: "noise_certificate option"
  cc_intermediate :: "noise_certificate option"

datatype decode_error = DecodeError

record 'g hs_env =
  noise_prims :: "'g noise_env"
  clamp_integer :: "bytes \<Rightarrow> bytes"
  x25519_agreement :: "bytes \<Rightarrow> bytes \<Rightarrow> (provider_error, bytes) result"
  xeddsa_verify :: "bytes \<Rightarrow> bytes \<Rightarrow> bytes \<Rightarrow> bool"
  handshake_message_decode :: "bytes \<Rightarrow> (decode_error, handshake_message) result"
  handshake_message_to_vec :: "handshake_message \<Rightarrow> bytes"
  cert_chain_decode :: "bytes \<Rightarrow> (decode_error, cert_chain) result"
  noise_certificate_details_decode :: "bytes \<Rightarrow> (decode_error, certificate_details) result"

text \<open>
  The texts of \<open>HandshakeError::CertVerification\<close> are kept apart by constructors, with the values
  their format strings print.
\<close>

datatype handshake_error =
    ProtoDecode decode_error
  | IncompleteResponse
  | Crypto curve_error
  | CertVerification cert_failure
  | InvalidLength str nat nat
  | HsInvalidKeyLength
  | Noise noise_error
and cert_failure =
    MissingSignature str
  | InvalidIssuerKey str
  | SignatureFailed str
  | MissingIntermediateCert
  | MissingLeafCert
  | MissingIntermediateDetails
  | MissingLeafDetails
  | UnexpectedIssuerSerial u32
  | IntermediateMissingKey
  | IntermediateKeyNot32
  | LeafIssuerMismatch "u32 option" "u32 option"
  | CertKeyMismatch
  | AcceptedWithoutSignatures
  | ErrorParsingServerHello handshake_error
  | ErrorVerifyingServerCert handshake_error

definition private_key_deserialize :: "'g hs_env \<Rightarrow> bytes \<Rightarrow> (curve_error, bytes) result" where
  "private_key_deserialize H value' =
     (if length value' \<noteq> 32 then Inl (BadKeyLength (length value')) else Inr (clamp_integer H value'))"

definition from_djb_public_key_bytes :: "bytes \<Rightarrow> (curve_error, bytes) result" where
  "from_djb_public_key_bytes bs = (if length bs = 32 then Inr bs else Inl (BadKeyLength (length bs)))"

definition calculate_agreement :: "'g hs_env \<Rightarrow> bytes \<Rightarrow> bytes \<Rightarrow> (curve_error, bytes) result" where
  "calculate_agreement H key their_key = map_err AgreementFailed (x25519_agreement H key their_key)"

definition verify_signature :: "'g hs_env \<Rightarrow> bytes \<Rightarrow> bytes \<Rightarrow> bytes \<Rightarrow> bool" where
  "verify_signature H pub_key message signature =
     (if length signature = 64 then xeddsa_verify H pub_key message signature else False)"

section \<open>Certificates\<close>

datatype cert_policy = Strict | DangerSkipCertChainVerify

fun skip_signature_check :: "cert_policy \<Rightarrow> bool" where
  "skip_signature_check Strict = False"
| "skip_signature_check DangerSkipCertChainVerify = True"

fun reuse_cached_chain :: "cert_policy \<Rightarrow> bool" where
  "reuse_cached_chain Strict = True"
| "reuse_cached_chain DangerSkipCertChainVerify = False"

definition WA_CERT_ISSUER_SERIAL :: int where "WA_CERT_ISSUER_SERIAL = 0"

definition WA_CERT_PUB_KEY :: bytes where
  "WA_CERT_PUB_KEY =
     [0x14, 0x23, 0x75, 0x57, 0x4d, 0x0a, 0x58, 0x71, 0x66, 0xaa, 0xe7, 0x1e, 0xbe, 0x51, 0x64, 0x37,
      0xc4, 0xa2, 0x8b, 0x73, 0xe3, 0x69, 0x5c, 0x6c, 0xe1, 0xf7, 0xf9, 0x54, 0x5d, 0xa8, 0xee, 0x6b]"

definition verify_cert_step ::
  "'g hs_env \<Rightarrow> bytes \<Rightarrow> bytes \<Rightarrow> bytes option \<Rightarrow> str \<Rightarrow> cert_policy \<Rightarrow> (handshake_error, unit) result" where
  "verify_cert_step H issuer_key details signature label policy =
     (if skip_signature_check policy then Inr ()
      else
        bind_res (ok_or (CertVerification (MissingSignature label)) signature) (\<lambda>signature.
        bind_res (map_err (\<lambda>_. CertVerification (InvalidIssuerKey label)) (from_djb_public_key_bytes issuer_key)) (\<lambda>pk.
          if verify_signature H pk details signature then Inr ()
          else Inl (CertVerification (SignatureFailed label)))))"

record verified_chain =
  intermediate_key :: bytes
  intermediate_not_before :: int
  intermediate_not_after :: int
  leaf_key :: bytes
  leaf_not_before :: int
  leaf_not_after :: int

datatype chain_acceptance = Trusted verified_chain | Untrusted

text \<open>\<open>as i64\<close> on a \<open>u64\<close> that may be absent.\<close>

definition as_i64_or_0 :: "u64 option \<Rightarrow> int" where
  "as_i64_or_0 t = sint (case t of Some t \<Rightarrow> t | None \<Rightarrow> 0)"

definition verify_chain ::
  "'g hs_env \<Rightarrow> bytes \<Rightarrow> bytes \<Rightarrow> cert_policy \<Rightarrow> (handshake_error, chain_acceptance) result" where
  "verify_chain H cert_decrypted static_decrypted policy =
     bind_res (map_err ProtoDecode (cert_chain_decode H cert_decrypted)) (\<lambda>chain.
     bind_res (ok_or (CertVerification MissingIntermediateCert) (cc_intermediate chain)) (\<lambda>intermediate.
     bind_res (ok_or (CertVerification MissingLeafCert) (cc_leaf chain)) (\<lambda>leaf.
     bind_res (ok_or (CertVerification MissingIntermediateDetails) (cert_details intermediate)) (\<lambda>intermediate_bytes.
     bind_res (map_err ProtoDecode (noise_certificate_details_decode H intermediate_bytes)) (\<lambda>intermediate_details.
     let issuer_serial = (case cd_issuer_serial intermediate_details of Some n \<Rightarrow> n | None \<Rightarrow> 0) in
     if uint issuer_serial \<noteq> WA_CERT_ISSUER_SERIAL then
       Inl (CertVerification (UnexpectedIssuerSerial issuer_serial))
     else
     let pk_bytes = (case cd_key intermediate_details of Some k \<Rightarrow> k | None \<Rightarrow> []) in
     if pk_bytes = [] then Inl (CertVerification IntermediateMissingKey)
     else if length pk_bytes \<noteq> 32 then Inl (CertVerification IntermediateKeyNot32)
     else
     bind_res (verify_cert_step H WA_CERT_PUB_KEY intermediate_bytes (cert_signature intermediate)
                 (lit ''intermediate'') policy) (\<lambda>_.
     bind_res (ok_or (CertVerification MissingLeafDetails) (cert_details leaf)) (\<lambda>leaf_bytes.
     bind_res (map_err ProtoDecode (noise_certificate_details_decode H leaf_bytes)) (\<lambda>leaf_details.
     if cd_issuer_serial leaf_details \<noteq> cd_serial intermediate_details then
       Inl (CertVerification (LeafIssuerMismatch (cd_issuer_serial leaf_details) (cd_serial intermediate_details)))
     else if (case cd_key leaf_details of Some k \<Rightarrow> k | None \<Rightarrow> []) \<noteq> static_decrypted then
       Inl (CertVerification CertKeyMismatch)
     else
     bind_res (verify_cert_step H pk_bytes leaf_bytes (cert_signature leaf) (lit ''leaf'') policy) (\<lambda>_.
     let verified = \<lparr>intermediate_key = pk_bytes,
                     intermediate_not_before = as_i64_or_0 (cd_not_before intermediate_details),
                     intermediate_not_after = as_i64_or_0 (cd_not_after intermediate_details),
                     leaf_key = static_decrypted,
                     leaf_not_before = as_i64_or_0 (cd_not_before leaf_details),
                     leaf_not_after = as_i64_or_0 (cd_not_after leaf_details)\<rparr>
     in if skip_signature_check policy then Inr Untrusted else Inr (Trusted verified))))))))))"

definition verify_server_cert ::
  "'g hs_env \<Rightarrow> bytes \<Rightarrow> bytes \<Rightarrow> (handshake_error, verified_chain) result" where
  "verify_server_cert H cert_decrypted static_decrypted =
     (case verify_chain H cert_decrypted static_decrypted Strict of
        Inr (Trusted chain) \<Rightarrow> Inr chain
      | Inr Untrusted \<Rightarrow> Inl (CertVerification AcceptedWithoutSignatures)
      | Inl err \<Rightarrow> Inl err)"

section \<open>Building and parsing messages\<close>

definition build_client_hello :: "bytes \<Rightarrow> handshake_message" where
  "build_client_hello ephemeral_key =
     \<lparr>hm_client_hello = Some \<lparr>ch_ephemeral = Some ephemeral_key, ch_static = None, ch_payload = None\<rparr>,
      hm_server_hello = None, hm_client_finish = None\<rparr>"

definition build_ik_client_hello :: "bytes \<Rightarrow> bytes \<Rightarrow> bytes \<Rightarrow> handshake_message" where
  "build_ik_client_hello ephemeral_key encrypted_static encrypted_payload =
     \<lparr>hm_client_hello = Some \<lparr>ch_ephemeral = Some ephemeral_key, ch_static = Some encrypted_static,
                              ch_payload = Some encrypted_payload\<rparr>,
      hm_server_hello = None, hm_client_finish = None\<rparr>"

definition build_client_finish :: "bytes \<Rightarrow> bytes \<Rightarrow> handshake_message" where
  "build_client_finish encrypted_pubkey encrypted_payload =
     \<lparr>hm_client_hello = None, hm_server_hello = None,
      hm_client_finish = Some \<lparr>cf_static = Some encrypted_pubkey, cf_payload = Some encrypted_payload\<rparr>\<rparr>"

definition parse_server_hello_body :: "'g hs_env \<Rightarrow> bytes \<Rightarrow> (handshake_error, server_hello) result" where
  "parse_server_hello_body H response =
     bind_res (map_err ProtoDecode (handshake_message_decode H response)) (\<lambda>msg.
     bind_res (ok_or IncompleteResponse (hm_server_hello msg)) (\<lambda>hello.
       case sh_ephemeral hello of
         Some ephemeral \<Rightarrow>
           if length ephemeral \<noteq> 32
           then Inl (InvalidLength (lit ''server ephemeral key'') 32 (length ephemeral))
           else Inr hello
       | None \<Rightarrow> Inr hello))"

definition parse_server_hello :: "'g hs_env \<Rightarrow> bytes \<Rightarrow> (handshake_error, bytes \<times> bytes \<times> bytes) result" where
  "parse_server_hello H response =
     bind_res (parse_server_hello_body H response) (\<lambda>hello.
     bind_res (ok_or IncompleteResponse (sh_ephemeral hello)) (\<lambda>server_ephemeral.
     bind_res (ok_or IncompleteResponse (sh_static hello)) (\<lambda>server_static.
     bind_res (ok_or IncompleteResponse (sh_payload hello)) (\<lambda>certificate.
       Inr (server_ephemeral, server_static, certificate)))))"

section \<open>The handshake object\<close>

text \<open>\<open>NoiseHandshake\<close> is a \<open>NoiseState\<close> whose errors are wrapped, with the key agreement added.\<close>

definition hs_new :: "'g hs_env \<Rightarrow> str \<Rightarrow> bytes \<Rightarrow> (handshake_error, noise_state) result" where
  "hs_new H pattern header = map_err Noise (noise_state_new (noise_prims H) pattern header)"

definition hs_authenticate :: "'g hs_env \<Rightarrow> bytes \<Rightarrow> (noise_state, handshake_error, unit) op" where
  "hs_authenticate H data s = (Inr (), authenticate (noise_prims H) data s)"

definition hs_encrypt :: "'g hs_env \<Rightarrow> bytes \<Rightarrow> (noise_state, handshake_error, bytes) op" where
  "hs_encrypt H plaintext = omap_err Noise (noise_encrypt (noise_prims H) plaintext)"

definition hs_decrypt :: "'g hs_env \<Rightarrow> bytes \<Rightarrow> (noise_state, handshake_error, bytes) op" where
  "hs_decrypt H ciphertext = omap_err Noise (noise_decrypt (noise_prims H) ciphertext)"

definition mix_into_key :: "'g hs_env \<Rightarrow> bytes \<Rightarrow> (noise_state, handshake_error, unit) op" where
  "mix_into_key H data = omap_err Noise (mix_key (noise_prims H) data)"

definition shared_secret :: "'g hs_env \<Rightarrow> bytes \<Rightarrow> bytes \<Rightarrow> (curve_error, bytes) result" where
  "shared_secret H priv_key_bytes pub_key_bytes =
     bind_res (private_key_deserialize H priv_key_bytes) (\<lambda>our_private_key.
     bind_res (from_djb_public_key_bytes pub_key_bytes) (\<lambda>their_public_key.
       calculate_agreement H our_private_key their_public_key))"

definition mix_shared_secret :: "'g hs_env \<Rightarrow> bytes \<Rightarrow> bytes \<Rightarrow> (noise_state, handshake_error, unit) op" where
  "mix_shared_secret H priv_key_bytes pub_key_bytes s =
     (case shared_secret H priv_key_bytes pub_key_bytes of
        Inl e \<Rightarrow> (Inl (Crypto e), s)
      | Inr secret \<Rightarrow> mix_into_key H secret s)"

definition hs_finish :: "'g hs_env \<Rightarrow> noise_state \<Rightarrow> (handshake_error, 'g gcm_key \<times> 'g gcm_key) result" where
  "hs_finish H s = map_res (\<lambda>keys. (nk_write keys, nk_read keys)) (map_err Noise (noise_split (noise_prims H) s))"

section \<open>XX\<close>

definition NOISE_PATTERN_XX :: str where
  "NOISE_PATTERN_XX = lit ''Noise_XX_25519_AESGCM_SHA256'' @ replicate 4 0"

definition NOISE_PATTERN_IK :: str where
  "NOISE_PATTERN_IK = lit ''Noise_IK_25519_AESGCM_SHA256'' @ replicate 4 0"

definition NOISE_PATTERN_XXFALLBACK :: str where
  "NOISE_PATTERN_XXFALLBACK = lit ''Noise_XXfallback_25519_AESGCM_SHA256''"

record 'g xx_outcome =
  write_cipher :: "'g gcm_key"
  read_cipher :: "'g gcm_key"
  server_cert_chain :: "verified_chain option"

record xx_state =
  xx_noise :: noise_state
  xx_ephemeral :: key_pair
  xx_static :: key_pair
  xx_payload :: bytes
  xx_policy :: cert_policy
  xx_chain :: "chain_acceptance option"

text \<open>The ephemeral key pair is generated by the operating system's generator: it is an argument.\<close>

definition xx_new_with_cert_policy ::
  "'g hs_env \<Rightarrow> key_pair \<Rightarrow> key_pair \<Rightarrow> bytes \<Rightarrow> bytes \<Rightarrow> cert_policy \<Rightarrow> (handshake_error, xx_state) result" where
  "xx_new_with_cert_policy H ephemeral_kp static_kp client_payload prologue policy =
     bind_res (hs_new H NOISE_PATTERN_XX prologue) (\<lambda>noise.
       Inr \<lparr>xx_noise = authenticate (noise_prims H) (public_key ephemeral_kp) noise,
            xx_ephemeral = ephemeral_kp, xx_static = static_kp, xx_payload = client_payload,
            xx_policy = policy, xx_chain = None\<rparr>)"

definition xx_build_client_hello :: "'g hs_env \<Rightarrow> xx_state \<Rightarrow> bytes" where
  "xx_build_client_hello H s = handshake_message_to_vec H (build_client_hello (public_key (xx_ephemeral s)))"

text \<open>
  The core shared by XX and XXfallback works on the Noise state and the caller's slot for the
  verdict on the chain. \<open>on_fst\<close> runs a Noise operation beside that slot.
\<close>

definition on_fst :: "('n, 'e, 'a) op \<Rightarrow> ('n \<times> 'c, 'e, 'a) op" where
  "on_fst m = (\<lambda>(n, c). case m n of (r, n) \<Rightarrow> (r, (n, c)))"

definition process_xx_server_hello_into ::
  "'g hs_env \<Rightarrow> key_pair \<Rightarrow> key_pair \<Rightarrow> bytes \<Rightarrow> bytes \<Rightarrow> bytes \<Rightarrow> bytes \<Rightarrow> cert_policy \<Rightarrow>
   (noise_state \<times> chain_acceptance option, handshake_error, bytes) op" where
  "process_xx_server_hello_into H ephemeral_kp static_kp payload server_ephemeral server_static certificate policy =
     obind (on_fst (hs_authenticate H server_ephemeral)) (\<lambda>_.
     obind (on_fst (mix_shared_secret H (private_key ephemeral_kp) server_ephemeral)) (\<lambda>_.
     obind (on_fst (hs_decrypt H server_static)) (\<lambda>static_decrypted.
     if length static_decrypted \<noteq> 32 then ofail HsInvalidKeyLength
     else
     obind (on_fst (mix_shared_secret H (private_key ephemeral_kp) static_decrypted)) (\<lambda>_.
     obind (on_fst (hs_decrypt H certificate)) (\<lambda>cert_decrypted.
     case verify_chain H cert_decrypted static_decrypted policy of
       Inl e \<Rightarrow> ofail (CertVerification (ErrorVerifyingServerCert e))
     | Inr chain \<Rightarrow>
     obind (\<lambda>(n, _). (Inr (), (n, Some chain))) (\<lambda>_.
     obind (on_fst (hs_encrypt H (public_key static_kp))) (\<lambda>encrypted_pubkey.
     obind (on_fst (mix_shared_secret H (private_key static_kp) server_ephemeral)) (\<lambda>_.
     obind (on_fst (hs_encrypt H payload)) (\<lambda>encrypted_payload.
       oret (handshake_message_to_vec H (build_client_finish encrypted_pubkey encrypted_payload)))))))))))"

definition read_hello_and_build_finish ::
  "'g hs_env \<Rightarrow> key_pair \<Rightarrow> key_pair \<Rightarrow> bytes \<Rightarrow> cert_policy \<Rightarrow> bytes \<Rightarrow>
   (noise_state \<times> chain_acceptance option, handshake_error, bytes) op" where
  "read_hello_and_build_finish H ephemeral_kp static_kp payload policy response s =
     (case parse_server_hello H response of
        Inl e \<Rightarrow> (Inl (CertVerification (ErrorParsingServerHello e)), s)
      | Inr (server_ephemeral, server_static, certificate) \<Rightarrow>
          if length server_ephemeral \<noteq> 32 then (Inl HsInvalidKeyLength, s)
          else process_xx_server_hello_into H ephemeral_kp static_kp payload server_ephemeral
                 server_static certificate policy s)"

definition xx_read_server_hello_and_build_client_finish ::
  "'g hs_env \<Rightarrow> bytes \<Rightarrow> (xx_state, handshake_error, bytes) op" where
  "xx_read_server_hello_and_build_client_finish H response s =
     (case read_hello_and_build_finish H (xx_ephemeral s) (xx_static s) (xx_payload s) (xx_policy s) response
             (xx_noise s, xx_chain s) of
        (r, (n, c)) \<Rightarrow> (r, s\<lparr>xx_noise := n, xx_chain := c\<rparr>))"

definition finish_xx_outcome ::
  "'g hs_env \<Rightarrow> noise_state \<Rightarrow> chain_acceptance option \<Rightarrow> (handshake_error, 'g xx_outcome) result" where
  "finish_xx_outcome H noise chain =
     bind_res (case chain of Some (Trusted chain) \<Rightarrow> Inr (Some chain) | Some Untrusted \<Rightarrow> Inr None
               | None \<Rightarrow> Inl IncompleteResponse) (\<lambda>server_chain.
     bind_res (hs_finish H noise) (\<lambda>(write, read).
       Inr \<lparr>write_cipher = write, read_cipher = read, server_cert_chain = server_chain\<rparr>))"

definition xx_finish :: "'g hs_env \<Rightarrow> xx_state \<Rightarrow> (handshake_error, 'g xx_outcome) result" where
  "xx_finish H s = finish_xx_outcome H (xx_noise s) (xx_chain s)"

section \<open>IK\<close>

record ik_state =
  ik_noise :: noise_state
  ik_ephemeral :: key_pair
  ik_static :: key_pair
  ik_server_static :: bytes
  ik_payload :: bytes

definition ik_new ::
  "'g hs_env \<Rightarrow> key_pair \<Rightarrow> key_pair \<Rightarrow> bytes \<Rightarrow> bytes \<Rightarrow> bytes \<Rightarrow> (handshake_error, ik_state) result" where
  "ik_new H ephemeral_kp static_kp server_static_pub client_payload prologue =
     bind_res (hs_new H NOISE_PATTERN_IK prologue) (\<lambda>noise.
       Inr \<lparr>ik_noise = noise, ik_ephemeral = ephemeral_kp, ik_static = static_kp,
            ik_server_static = server_static_pub, ik_payload = client_payload\<rparr>)"

definition on_ik :: "(noise_state, 'e, 'a) op \<Rightarrow> (ik_state, 'e, 'a) op" where
  "on_ik m s = (case m (ik_noise s) of (r, n) \<Rightarrow> (r, s\<lparr>ik_noise := n\<rparr>))"

definition ik_build_client_hello :: "'g hs_env \<Rightarrow> (ik_state, handshake_error, bytes) op" where
  "ik_build_client_hello H s =
     on_ik (obind (hs_authenticate H (ik_server_static s)) (\<lambda>_.
       let ephemeral_pub = public_key (ik_ephemeral s) in
       obind (hs_authenticate H ephemeral_pub) (\<lambda>_.
       obind (mix_shared_secret H (private_key (ik_ephemeral s)) (ik_server_static s)) (\<lambda>_.
       obind (hs_encrypt H (public_key (ik_static s))) (\<lambda>encrypted_static.
       obind (mix_shared_secret H (private_key (ik_static s)) (ik_server_static s)) (\<lambda>_.
       obind (hs_encrypt H (ik_payload s)) (\<lambda>encrypted_payload.
         oret (handshake_message_to_vec H
           (build_ik_client_hello ephemeral_pub encrypted_static encrypted_payload))))))))) s"

record fallback_inputs =
  fb_ephemeral :: key_pair
  fb_static :: key_pair
  fb_payload :: bytes
  fb_server_hello :: bytes

datatype 'g ik_outcome = Continue "'g gcm_key" "'g gcm_key" | Fallback fallback_inputs

definition ik_read_server_hello :: "'g hs_env \<Rightarrow> bytes \<Rightarrow> ik_state \<Rightarrow> (handshake_error, 'g ik_outcome) result" where
  "ik_read_server_hello H response s =
     bind_res (parse_server_hello_body H response) (\<lambda>hello.
       if sh_static hello \<noteq> None then
         Inr (Fallback \<lparr>fb_ephemeral = ik_ephemeral s, fb_static = ik_static s,
                        fb_payload = ik_payload s, fb_server_hello = response\<rparr>)
       else
       bind_res (ok_or IncompleteResponse (sh_ephemeral hello)) (\<lambda>server_ephemeral.
       bind_res (ok_or IncompleteResponse (sh_payload hello)) (\<lambda>cert_payload.
       if length server_ephemeral \<noteq> 32 then Inl HsInvalidKeyLength
       else
       case obind (hs_authenticate H server_ephemeral) (\<lambda>_.
            obind (mix_shared_secret H (private_key (ik_ephemeral s)) server_ephemeral) (\<lambda>_.
            obind (mix_shared_secret H (private_key (ik_static s)) server_ephemeral) (\<lambda>_.
              hs_decrypt H cert_payload))) (ik_noise s) of
         (Inl e, _) \<Rightarrow> Inl e
       | (Inr _, noise) \<Rightarrow> map_res (\<lambda>(write, read). Continue write read) (hs_finish H noise))))"

section \<open>XXfallback\<close>

record fallback_state =
  fs_noise :: noise_state
  fs_ephemeral :: key_pair
  fs_static :: key_pair
  fs_payload :: bytes
  fs_server_hello :: bytes
  fs_policy :: cert_policy
  fs_chain :: "chain_acceptance option"

definition from_ik_failure_with_cert_policy ::
  "'g hs_env \<Rightarrow> fallback_inputs \<Rightarrow> bytes \<Rightarrow> cert_policy \<Rightarrow> (handshake_error, fallback_state) result" where
  "from_ik_failure_with_cert_policy H inputs prologue policy =
     bind_res (hs_new H NOISE_PATTERN_XXFALLBACK prologue) (\<lambda>noise.
       Inr \<lparr>fs_noise = authenticate (noise_prims H) (public_key (fb_ephemeral inputs)) noise,
            fs_ephemeral = fb_ephemeral inputs, fs_static = fb_static inputs, fs_payload = fb_payload inputs,
            fs_server_hello = fb_server_hello inputs, fs_policy = policy, fs_chain = None\<rparr>)"

definition fallback_build_client_finish :: "'g hs_env \<Rightarrow> (fallback_state, handshake_error, bytes) op" where
  "fallback_build_client_finish H s =
     (case read_hello_and_build_finish H (fs_ephemeral s) (fs_static s) (fs_payload s) (fs_policy s)
             (fs_server_hello s) (fs_noise s, fs_chain s) of
        (r, (n, c)) \<Rightarrow> (r, s\<lparr>fs_noise := n, fs_chain := c\<rparr>))"

definition fallback_finish :: "'g hs_env \<Rightarrow> fallback_state \<Rightarrow> (handshake_error, 'g xx_outcome) result" where
  "fallback_finish H s = finish_xx_outcome H (fs_noise s) (fs_chain s)"

section \<open>What a trusted chain proves\<close>

text \<open>
  \<open>chain_signed H cert key v\<close>: the bytes \<open>cert\<close> decode to an intermediate certificate signed by the
  WhatsApp root and a leaf signed by that intermediate, the leaf certifies \<open>key\<close>, and \<open>v\<close> is what
  the two say.
\<close>

definition signed_by :: "'g hs_env \<Rightarrow> bytes \<Rightarrow> bytes \<Rightarrow> noise_certificate \<Rightarrow> certificate_details \<Rightarrow> bool" where
  "signed_by H issuer details cert cd \<longleftrightarrow>
     cert_details cert = Some details \<and>
     noise_certificate_details_decode H details = Inr cd \<and>
     (\<exists>sig. cert_signature cert = Some sig \<and> length sig = 64 \<and> xeddsa_verify H issuer details sig)"

definition chain_signed :: "'g hs_env \<Rightarrow> bytes \<Rightarrow> bytes \<Rightarrow> verified_chain \<Rightarrow> bool" where
  "chain_signed H cert key v \<longleftrightarrow>
     (\<exists>inter leaf ib id lb ld ik.
        cert_chain_decode H cert = Inr \<lparr>cc_leaf = Some leaf, cc_intermediate = Some inter\<rparr> \<and>
        signed_by H WA_CERT_PUB_KEY ib inter id \<and> signed_by H ik lb leaf ld \<and>
        cd_issuer_serial id \<in> {None, Some 0} \<and> cd_issuer_serial ld = cd_serial id \<and>
        cd_key id = Some ik \<and> length ik = 32 \<and> cd_key ld = Some key \<and>
        v = \<lparr>intermediate_key = ik, intermediate_not_before = as_i64_or_0 (cd_not_before id),
             intermediate_not_after = as_i64_or_0 (cd_not_after id), leaf_key = key,
             leaf_not_before = as_i64_or_0 (cd_not_before ld), leaf_not_after = as_i64_or_0 (cd_not_after ld)\<rparr>)"

lemma ok_or_Inr_iff [simp]: "ok_or e x = Inr a \<longleftrightarrow> x = Some a"
  by (cases x) auto

lemma length_WA_CERT_PUB_KEY [simp]: "length WA_CERT_PUB_KEY = 32"
  by (simp add: WA_CERT_PUB_KEY_def)

lemma verify_cert_step_Strict:
  "length issuer = 32 \<Longrightarrow> verify_cert_step H issuer details sig label Strict = Inr () \<longleftrightarrow>
     (\<exists>sg. sig = Some sg \<and> length sg = 64 \<and> xeddsa_verify H issuer details sg)"
  by (auto simp: verify_cert_step_def bind_res_Inr_iff from_djb_public_key_bytes_def verify_signature_def
      split: if_splits)

lemma verify_cert_step_skip [simp]:
  "verify_cert_step H issuer details sig label DangerSkipCertChainVerify = Inr ()"
  by (simp add: verify_cert_step_def)

lemma verify_chain_skip: "verify_chain H cert key DangerSkipCertChainVerify = Inr a \<Longrightarrow> a = Untrusted"
  by (auto simp: verify_chain_def bind_res_Inr_iff Let_def split: if_splits)

lemma verify_chain_Strict: "verify_chain H cert key Strict \<noteq> Inr Untrusted"
  by (auto simp: verify_chain_def bind_res_Inr_iff Let_def split: if_splits)

lemma opt_bytes: "(case x of Some k \<Rightarrow> k | None \<Rightarrow> []) = y \<Longrightarrow> y \<noteq> [] \<Longrightarrow> x = Some y"
  by (cases x) auto

lemma issuer_root_iff:
  "uint (case x of Some n \<Rightarrow> n | None \<Rightarrow> (0 :: u32)) = WA_CERT_ISSUER_SERIAL \<longleftrightarrow> x \<in> {None, Some 0}"
  by (cases x) (auto simp: WA_CERT_ISSUER_SERIAL_def uint_0_iff)

lemma verify_chain_signed:
  assumes key: "length key = 32" and v: "verify_chain H cert key Strict = Inr (Trusted v)"
  shows "chain_signed H cert key v"
proof -
  from v obtain chain inter leaf ib id lb ld where
    d: "cert_chain_decode H cert = Inr chain" "cc_intermediate chain = Some inter" "cc_leaf chain = Some leaf"
       "cert_details inter = Some ib" "noise_certificate_details_decode H ib = Inr id"
       "cert_details leaf = Some lb" "noise_certificate_details_decode H lb = Inr ld" and
    s: "uint (case cd_issuer_serial id of Some n \<Rightarrow> n | None \<Rightarrow> 0) = WA_CERT_ISSUER_SERIAL"
       "cd_issuer_serial ld = cd_serial id" and
    k: "(case cd_key id of Some k \<Rightarrow> k | None \<Rightarrow> []) \<noteq> []" "length (case cd_key id of Some k \<Rightarrow> k | None \<Rightarrow> []) = 32"
       "(case cd_key ld of Some k \<Rightarrow> k | None \<Rightarrow> []) = key" and
    c: "verify_cert_step H WA_CERT_PUB_KEY ib (cert_signature inter) (lit ''intermediate'') Strict = Inr ()"
       "verify_cert_step H (case cd_key id of Some k \<Rightarrow> k | None \<Rightarrow> []) lb (cert_signature leaf) (lit ''leaf'') Strict = Inr ()" and
    veq: "v = \<lparr>intermediate_key = (case cd_key id of Some k \<Rightarrow> k | None \<Rightarrow> []),
        intermediate_not_before = as_i64_or_0 (cd_not_before id),
        intermediate_not_after = as_i64_or_0 (cd_not_after id), leaf_key = key,
        leaf_not_before = as_i64_or_0 (cd_not_before ld), leaf_not_after = as_i64_or_0 (cd_not_after ld)\<rparr>"
    unfolding verify_chain_def by (auto simp: bind_res_Inr_iff Let_def split: if_splits)
  define ik where "ik = (case cd_key id of Some k \<Rightarrow> k | None \<Rightarrow> [])"
  have keys: "cd_key id = Some ik" "length ik = 32" "cd_key ld = Some key"
    using k key by (auto simp: ik_def intro!: opt_bytes)
  have "chain = \<lparr>cc_leaf = Some leaf, cc_intermediate = Some inter\<rparr>" using d by (cases chain) simp
  moreover have "signed_by H WA_CERT_PUB_KEY ib inter id" "signed_by H ik lb leaf ld"
    using d c keys(2) by (auto simp: signed_by_def verify_cert_step_Strict ik_def [symmetric])
  moreover have "cd_issuer_serial id \<in> {None, Some 0}" using s(1) by (simp only: issuer_root_iff)
  ultimately show ?thesis
    unfolding chain_signed_def using d(1) s(2) keys veq by (auto simp: ik_def [symmetric])
qed

lemma verify_chain_complete:
  assumes "chain_signed H cert key v"
  shows "verify_chain H cert key Strict = Inr (Trusted v)"
proof -
  from assms obtain inter leaf ib id lb ld ik where
    c: "cert_chain_decode H cert = Inr \<lparr>cc_leaf = Some leaf, cc_intermediate = Some inter\<rparr>"
       "signed_by H WA_CERT_PUB_KEY ib inter id" "signed_by H ik lb leaf ld"
       "cd_issuer_serial id \<in> {None, Some 0}" "cd_issuer_serial ld = cd_serial id"
       "cd_key id = Some ik" "length ik = 32" "cd_key ld = Some key"
       "v = \<lparr>intermediate_key = ik, intermediate_not_before = as_i64_or_0 (cd_not_before id),
             intermediate_not_after = as_i64_or_0 (cd_not_after id), leaf_key = key,
             leaf_not_before = as_i64_or_0 (cd_not_before ld), leaf_not_after = as_i64_or_0 (cd_not_after ld)\<rparr>"
    unfolding chain_signed_def by blast
  have steps: "verify_cert_step H WA_CERT_PUB_KEY ib (cert_signature inter) l Strict = Inr ()"
       "verify_cert_step H ik lb (cert_signature leaf) l Strict = Inr ()" for l
    using c(2,3,7) by (auto simp: signed_by_def verify_cert_step_Strict)
  have root: "uint (case cd_issuer_serial id of Some n \<Rightarrow> n | None \<Rightarrow> 0) = WA_CERT_ISSUER_SERIAL"
    using c(4) by (simp only: issuer_root_iff)
  have ne: "ik \<noteq> []" using c(7) by auto
  show ?thesis
    using c root ne by (simp add: verify_chain_def signed_by_def Let_def steps del: lit_Cons)
qed

text \<open>
  C7: Certificate verification hands out trust exactly when it is due. A chain is accepted as trusted if
  and only if the policy is strict and the bytes decode to an intermediate signed by the WhatsApp
  root key and a leaf signed by that intermediate whose key is the server's static key, with the
  serial numbers linked; the verdict then carries the keys and validity windows of those two
  certificates. Under the bypass policy nothing is ever trusted.
\<close>

theorem chain_trusted_iff_signed:
  assumes "length key = 32"
  shows "verify_chain H cert key policy = Inr (Trusted v) \<longleftrightarrow> policy = Strict \<and> chain_signed H cert key v"
  using verify_chain_signed [OF assms] verify_chain_complete verify_chain_skip [of H cert key "Trusted v"]
  by (cases policy) auto

definition sample_chain :: cert_chain where
  "sample_chain =
     \<lparr>cc_leaf = Some \<lparr>cert_details = Some [2], cert_signature = Some (replicate 64 7)\<rparr>,
      cc_intermediate = Some \<lparr>cert_details = Some [1], cert_signature = Some (replicate 64 0x14)\<rparr>\<rparr>"

text \<open>A signature is 64 copies of the signer's first byte; message 1 details the intermediate, message 2 the leaf.\<close>

definition sample_hs :: "bytes hs_env" where
  "sample_hs =
     \<lparr>noise_prims = sample_noise, clamp_integer = (\<lambda>k. k),
      x25519_agreement = (\<lambda>k p. Inr (xor_bytes k p)),
      xeddsa_verify = (\<lambda>k m sg. sg = replicate 64 (hd k)),
      handshake_message_decode = (\<lambda>m. Inl DecodeError),
      handshake_message_to_vec = (\<lambda>m. []),
      cert_chain_decode = (\<lambda>b. Inr sample_chain),
      noise_certificate_details_decode = (\<lambda>b.
        Inr (if b = [1] then \<lparr>cd_serial = Some 5, cd_issuer_serial = None, cd_key = Some (replicate 32 7),
                              cd_not_before = Some 10, cd_not_after = Some 20\<rparr>
             else \<lparr>cd_serial = Some 6, cd_issuer_serial = Some 5, cd_key = Some (replicate 32 9),
                   cd_not_before = Some 11, cd_not_after = Some 30\<rparr>))\<rparr>"

theorem chain_trusted_iff_signed_witness:
  "verify_chain sample_hs [] (replicate 32 9) Strict =
     Inr (Trusted \<lparr>intermediate_key = replicate 32 7, intermediate_not_before = 10, intermediate_not_after = 20,
                   leaf_key = replicate 32 9, leaf_not_before = 11, leaf_not_after = 30\<rparr>)"
proof -
  have "chain_signed sample_hs [] (replicate 32 9)
     \<lparr>intermediate_key = replicate 32 7, intermediate_not_before = 10, intermediate_not_after = 20,
      leaf_key = replicate 32 9, leaf_not_before = 11, leaf_not_after = 30\<rparr>"
    by (simp add: chain_signed_def signed_by_def sample_hs_def sample_chain_def WA_CERT_PUB_KEY_def as_i64_or_0_def)
  then show ?thesis
    using chain_trusted_iff_signed [of "replicate 32 9" sample_hs "[]" Strict] by simp
qed

section \<open>The handshakes follow their Noise patterns\<close>

lemma on_fst_Inr_iff: "on_fst m (n, c) = (Inr a, s') \<longleftrightarrow> (\<exists>n'. m n = (Inr a, n') \<and> s' = (n', c))"
  by (auto simp: on_fst_def split: prod.splits)

lemma hs_simps:
  "hs_authenticate H d n = (Inr u, n') \<longleftrightarrow> n' = authenticate (noise_prims H) d n"
  "hs_encrypt H p n = (Inr c, n') \<longleftrightarrow> noise_encrypt (noise_prims H) p n = (Inr c, n')"
  "hs_decrypt H c n = (Inr p, n') \<longleftrightarrow> noise_decrypt (noise_prims H) c n = (Inr p, n')"
  "mix_shared_secret H priv pub n = (Inr u, n') \<longleftrightarrow>
     (\<exists>secret. shared_secret H priv pub = Inr secret \<and> mix_key (noise_prims H) secret n = (Inr (), n'))"
  by (auto simp: hs_authenticate_def hs_encrypt_def hs_decrypt_def mix_shared_secret_def mix_into_key_def
      omap_err_Inr_iff split: sum.splits)

lemma obind_on_fst_iff:
  "obind (on_fst m) f (n, c) = (Inr b, s') \<longleftrightarrow> (\<exists>a n'. m n = (Inr a, n') \<and> f a (n', c) = (Inr b, s'))"
  "obind (\<lambda>(n, _). (Inr (), (n, x))) g (n, c) = g () (n, x)"
  by (auto simp: obind_def on_fst_def split: prod.splits sum.splits)

lemma op_branch_Inr_iff:
  "(if b then ofail e else m) s = (Inr a, s') \<longleftrightarrow> \<not> b \<and> m s = (Inr a, s')"
  "(case r of Inl e \<Rightarrow> ofail (g e) | Inr x \<Rightarrow> k x) s = (Inr a, s') \<longleftrightarrow> (\<exists>x. r = Inr x \<and> k x s = (Inr a, s'))"
  by (auto split: sum.splits)

lemma process_xx_run:
  assumes "process_xx_server_hello_into H e s payload se sct cct policy (n, c) = (Inr f, (n', c'))"
  shows "\<exists>rs cert ct1 ct2 ee es se' chain.
    shared_secret H (private_key e) se = Inr ee \<and> shared_secret H (private_key e) rs = Inr es \<and>
    shared_secret H (private_key s) se = Inr se' \<and> length rs = 32 \<and>
    verify_chain H cert rs policy = Inr chain \<and> c' = Some chain \<and>
    f = handshake_message_to_vec H (build_client_finish ct1 ct2) \<and>
    noise_run (noise_prims H) [Mix_Hash se, Mix_Key ee, Recv sct, Mix_Key es, Recv cct,
       Send (public_key s), Mix_Key se', Send payload] n = (Inr [rs, cert, ct1, ct2], n')"
proof -
  let ?E = "noise_prims H"
  from assms have "\<exists>ee n1 rs n2 es n3 cert n4 chain ct1 n5 se' n6 ct2.
      shared_secret H (private_key e) se = Inr ee \<and> mix_key ?E ee (authenticate ?E se n) = (Inr (), n1) \<and>
      noise_decrypt ?E sct n1 = (Inr rs, n2) \<and> length rs = 32 \<and>
      shared_secret H (private_key e) rs = Inr es \<and> mix_key ?E es n2 = (Inr (), n3) \<and>
      noise_decrypt ?E cct n3 = (Inr cert, n4) \<and> verify_chain H cert rs policy = Inr chain \<and>
      noise_encrypt ?E (public_key s) n4 = (Inr ct1, n5) \<and>
      shared_secret H (private_key s) se = Inr se' \<and> mix_key ?E se' n5 = (Inr (), n6) \<and>
      noise_encrypt ?E payload n6 = (Inr ct2, n') \<and> c' = Some chain \<and>
      f = handshake_message_to_vec H (build_client_finish ct1 ct2)"
    unfolding process_xx_server_hello_into_def
    by (simp only: obind_on_fst_iff hs_simps op_branch_Inr_iff oret_iff prod.inject not_not) blast
  then obtain ee n1 rs n2 es n3 cert n4 chain ct1 n5 se' n6 ct2 where r:
      "shared_secret H (private_key e) se = Inr ee" "mix_key ?E ee (authenticate ?E se n) = (Inr (), n1)"
      "noise_decrypt ?E sct n1 = (Inr rs, n2)" "length rs = 32"
      "shared_secret H (private_key e) rs = Inr es" "mix_key ?E es n2 = (Inr (), n3)"
      "noise_decrypt ?E cct n3 = (Inr cert, n4)" "verify_chain H cert rs policy = Inr chain"
      "noise_encrypt ?E (public_key s) n4 = (Inr ct1, n5)"
      "shared_secret H (private_key s) se = Inr se'" "mix_key ?E se' n5 = (Inr (), n6)"
      "noise_encrypt ?E payload n6 = (Inr ct2, n')" "c' = Some chain"
      "f = handshake_message_to_vec H (build_client_finish ct1 ct2)"
    by blast
  then have "noise_run ?E [Mix_Hash se, Mix_Key ee, Recv sct, Mix_Key es, Recv cct,
       Send (public_key s), Mix_Key se', Send payload] n = (Inr [rs, cert, ct1, ct2], n')"
    by (simp add: obind_def oret_def)
  with r show ?thesis by blast
qed

lemma read_hello_run:
  assumes "read_hello_and_build_finish H e s payload policy response (n, c) = (Inr f, (n', c'))"
  obtains se sct cct where "parse_server_hello H response = Inr (se, sct, cct)" "length se = 32"
    "process_xx_server_hello_into H e s payload se sct cct policy (n, c) = (Inr f, (n', c'))"
  using assms by (auto simp: read_hello_and_build_finish_def split: sum.splits if_splits)

lemma xx_read_run:
  assumes "xx_read_server_hello_and_build_client_finish H response x = (Inr f, x')"
  obtains c where
    "read_hello_and_build_finish H (xx_ephemeral x) (xx_static x) (xx_payload x) (xx_policy x) response
       (xx_noise x, xx_chain x) = (Inr f, (xx_noise x', c))" "xx_chain x' = c"
  using assms by (auto simp: xx_read_server_hello_and_build_client_finish_def split: prod.splits)

text \<open>
  C8: The XX handshake is the Noise XX pattern. If the client reaches its ClientFinish, then a server that
  starts from the same protocol name and prologue, runs
  the pattern \<open>-> e; <- e, ee, s, es; -> s, se\<close> with the same three shared secrets, and answered with the ServerHello the client read, receives
  from the ClientFinish exactly the client's static key and payload, and both hold the same Noise
  state, from which the transport keys are derived.
\<close>

theorem xx_handshake_agreement:
  assumes ok: "env_ok (noise_prims H)"
    and new: "xx_new_with_cert_policy H e s payload prologue policy = Inr x"
    and read: "xx_read_server_hello_and_build_client_finish H response x = (Inr f, x')"
  shows "\<exists>n0 se sct cct rs cert ct1 ct2 ee es se'.
    noise_state_new (noise_prims H) NOISE_PATTERN_XX prologue = Inr n0 \<and>
    parse_server_hello H response = Inr (se, sct, cct) \<and>
    f = handshake_message_to_vec H (build_client_finish ct1 ct2) \<and>
    shared_secret H (private_key e) se = Inr ee \<and> shared_secret H (private_key e) rs = Inr es \<and>
    shared_secret H (private_key s) se = Inr se' \<and>
    noise_run (noise_prims H) [Mix_Hash (public_key e), Mix_Hash se, Mix_Key ee, Send rs, Mix_Key es, Send cert,
       Recv ct1, Mix_Key se', Recv ct2] n0 = (Inr [sct, cct, public_key s, payload], xx_noise x')"
proof -
  from new obtain n0 where n0: "noise_state_new (noise_prims H) NOISE_PATTERN_XX prologue = Inr n0"
    and x: "x = \<lparr>xx_noise = authenticate (noise_prims H) (public_key e) n0, xx_ephemeral = e, xx_static = s,
        xx_payload = payload, xx_policy = policy, xx_chain = None\<rparr>"
    by (auto simp: xx_new_with_cert_policy_def hs_new_def bind_res_Inr_iff)
  obtain c where "read_hello_and_build_finish H e s payload policy response
      (authenticate (noise_prims H) (public_key e) n0, None) = (Inr f, (xx_noise x', c))"
    using xx_read_run [OF read] x by auto
  from read_hello_run [OF this] obtain se sct cct where p: "parse_server_hello H response = Inr (se, sct, cct)"
    "process_xx_server_hello_into H e s payload se sct cct policy
      (authenticate (noise_prims H) (public_key e) n0, None) = (Inr f, (xx_noise x', c))" by blast
  from process_xx_run [OF p(2)] obtain rs cert ct1 ct2 ee es se' where r:
    "shared_secret H (private_key e) se = Inr ee" "shared_secret H (private_key e) rs = Inr es"
    "shared_secret H (private_key s) se = Inr se'" "f = handshake_message_to_vec H (build_client_finish ct1 ct2)"
    "noise_run (noise_prims H) [Mix_Hash se, Mix_Key ee, Recv sct, Mix_Key es, Recv cct,
       Send (public_key s), Mix_Key se', Send payload] (authenticate (noise_prims H) (public_key e) n0) =
       (Inr [rs, cert, ct1, ct2], xx_noise x')" by blast
  have "noise_wf (authenticate (noise_prims H) (public_key e) n0)"
    using wf_new [OF ok n0] by (rule wf_authenticate [OF ok])
  from noise_run_mirror [OF ok this r(5)] show ?thesis using n0 p(1) r(1-4) by simp blast
qed

section \<open>An honest server gets the handshake to its end\<close>

definition hkdf_total :: "'g noise_env \<Rightarrow> bool" where
  "hkdf_total E \<longleftrightarrow> (\<forall>salt ikm. hkdf_sha256 E salt ikm 64 \<noteq> None)"

lemma mix_key_total:
  "hkdf_total E \<Longrightarrow> \<exists>n'. mix_key E k n = (Inr (), n') \<and> ns_counter n' = 0"
  by (fastforce simp: hkdf_total_def mix_key_def extract_and_expand_def Let_def split: option.splits)

lemma noise_cipher_new_total: "length key = 32 \<Longrightarrow> \<exists>k. noise_cipher_new E key = Inr k"
  by (simp add: noise_cipher_new_def transport_aead_def gcm_key_new_def aes256_new_from_slice_def)

lemma noise_split_total:
  assumes "env_ok E" and "hkdf_total E"
  shows "\<exists>keys. noise_split E n = Inr keys"
proof -
  obtain okm where okm: "hkdf_sha256 E (ns_salt n) [] 64 = Some okm" using assms(2) by (auto simp: hkdf_total_def)
  then have "length okm = 64" using assms(1) by (auto simp: env_ok_def)
  then obtain w r where "noise_cipher_new E (take 32 okm) = Inr w" "noise_cipher_new E (drop 32 okm) = Inr r"
    using noise_cipher_new_total [of "take 32 okm" E] noise_cipher_new_total [of "drop 32 okm" E] by auto
  then show ?thesis using okm by (simp add: noise_split_def extract_and_expand_def)
qed

lemma process_xx_completes:
  assumes ok: "env_ok (noise_prims H)" and hk: "hkdf_total (noise_prims H)" and wf: "noise_wf n"
    and dh: "shared_secret H (private_key e) se = Inr ee" "shared_secret H (private_key e) rs = Inr es"
            "shared_secret H (private_key s) se = Inr se'"
    and rs: "length rs = 32" and chain: "verify_chain H cert rs policy = Inr chain"
    and server: "noise_run (noise_prims H) [Mix_Hash se, Mix_Key ee, Send rs, Mix_Key es, Send cert] n = (Inr [sct, cct], n4)"
  shows "\<exists>f n'. process_xx_server_hello_into H e s payload se sct cct policy (n, c) = (Inr f, (n', Some chain))"
proof -
  let ?E = "noise_prims H"
  have "noise_run ?E [Mix_Hash se, Mix_Key ee, Recv sct, Mix_Key es, Recv cct] n = (Inr [rs, cert], n4)"
    using noise_run_mirror [OF ok wf server] by simp
  then obtain n1 n2 n3 where client: "mix_key ?E ee (authenticate ?E se n) = (Inr (), n1)"
      "noise_decrypt ?E sct n1 = (Inr rs, n2)" "mix_key ?E es n2 = (Inr (), n3)"
      "noise_decrypt ?E cct n3 = (Inr cert, n4)"
    by (auto simp: obind_Inr_iff)
  have "ns_counter n3 = 0" using client(3) mix_key_total [OF hk, of es n2] by auto
  then have cnt: "ns_counter n4 \<noteq> - 1" using counter_decrypt [of ?E cct n3] client(4) by simp
  have wf4: "noise_wf n4" using noise_run_wf [OF ok wf] server by (metis snd_conv)
  obtain ct1 n5 where enc1: "noise_encrypt ?E (public_key s) n4 = (Inr ct1, n5)"
    using noise_encrypt_total [OF wf4 cnt] by blast
  obtain n6 where mix: "mix_key ?E se' n5 = (Inr (), n6)" "ns_counter n6 = 0" using mix_key_total [OF hk] by blast
  have "noise_wf n6" using wf_step [OF ok] wf4 enc1 mix(1) by blast
  then obtain ct2 n7 where enc2: "noise_encrypt ?E payload n6 = (Inr ct2, n7)"
    using noise_encrypt_total [of n6 ?E payload] mix(2) by auto
  have steps: "mix_shared_secret H (private_key e) se (authenticate ?E se n) = (Inr (), n1)"
      "hs_decrypt H sct n1 = (Inr rs, n2)" "mix_shared_secret H (private_key e) rs n2 = (Inr (), n3)"
      "hs_decrypt H cct n3 = (Inr cert, n4)" "hs_encrypt H (public_key s) n4 = (Inr ct1, n5)"
      "mix_shared_secret H (private_key s) se n5 = (Inr (), n6)" "hs_encrypt H payload n6 = (Inr ct2, n7)"
    using client enc1 mix(1) enc2 dh by (simp_all add: hs_simps)
  have "process_xx_server_hello_into H e s payload se sct cct policy (n, c) =
      (Inr (handshake_message_to_vec H (build_client_finish ct1 ct2)), (n7, Some chain))"
    using steps rs chain
    by (simp add: process_xx_server_hello_into_def obind_def on_fst_def hs_authenticate_def oret_def)
  then show ?thesis by blast
qed

lemma xx_completes:
  assumes ok: "env_ok (noise_prims H)" and hk: "hkdf_total (noise_prims H)"
    and n0: "noise_state_new (noise_prims H) NOISE_PATTERN_XX prologue = Inr n0"
    and parse: "parse_server_hello H response = Inr (se, sct, cct)" "length se = 32"
    and dh: "shared_secret H (private_key e) se = Inr ee" "shared_secret H (private_key e) rs = Inr es"
            "shared_secret H (private_key s) se = Inr se'"
    and cert: "length rs = 32" "verify_chain H cert rs policy = Inr chain"
    and server: "noise_run (noise_prims H) [Mix_Hash (public_key e), Mix_Hash se, Mix_Key ee, Send rs, Mix_Key es,
                   Send cert] n0 = (Inr [sct, cct], n4)"
  shows "\<exists>x f x' out. xx_new_with_cert_policy H e s payload prologue policy = Inr x \<and>
    xx_read_server_hello_and_build_client_finish H response x = (Inr f, x') \<and> xx_finish H x' = Inr out"
proof -
  let ?n = "authenticate (noise_prims H) (public_key e) n0"
  have wf: "noise_wf ?n" using wf_new [OF ok n0] by (rule wf_authenticate [OF ok])
  have run: "noise_run (noise_prims H) [Mix_Hash se, Mix_Key ee, Send rs, Mix_Key es, Send cert] ?n = (Inr [sct, cct], n4)"
    using server by simp
  from process_xx_completes [OF ok hk wf dh cert run, of payload None]
  obtain f n' where f: "process_xx_server_hello_into H e s payload se sct cct policy (?n, None) = (Inr f, (n', Some chain))"
    by blast
  obtain keys where "noise_split (noise_prims H) n' = Inr keys" using noise_split_total [OF ok hk] by blast
  then have "\<exists>out. finish_xx_outcome H n' (Some chain) = Inr out"
    by (cases chain) (simp_all add: finish_xx_outcome_def hs_finish_def)
  then show ?thesis
    using n0 parse f
    by (simp add: xx_new_with_cert_policy_def hs_new_def xx_read_server_hello_and_build_client_finish_def
        read_hello_and_build_finish_def xx_finish_def)
qed

text \<open>
  C22: An honest server brings the client to the end of the XX handshake. If the server's own run of the
  pattern produced the ServerHello, with the shared secrets the client computes too, and its
  certificate passes the client's policy, then the client builds its ClientFinish and derives its
  transport ciphers; no counter runs out and no step can fail on the way.
\<close>

theorem xx_handshake_completes:
  assumes ok: "env_ok (noise_prims H)" and hk: "hkdf_total (noise_prims H)"
    and n0: "noise_state_new (noise_prims H) NOISE_PATTERN_XX prologue = Inr n0"
    and parse: "parse_server_hello H response = Inr (se, sct, cct)" "length se = 32"
    and dh: "shared_secret H (private_key e) se = Inr ee" "shared_secret H (private_key e) rs = Inr es"
            "shared_secret H (private_key s) se = Inr se'"
    and cert: "length rs = 32" "verify_chain H cert rs policy = Inr chain"
    and server: "noise_run (noise_prims H) [Mix_Hash (public_key e), Mix_Hash se, Mix_Key ee, Send rs, Mix_Key es,
                   Send cert] n0 = (Inr [sct, cct], n4)"
  shows "\<exists>x f x' out. xx_new_with_cert_policy H e s payload prologue policy = Inr x \<and>
    xx_read_server_hello_and_build_client_finish H response x = (Inr f, x') \<and> xx_finish H x' = Inr out"
  using xx_completes [OF assms] .

lemma hello_run_total:
  assumes ok: "env_ok E" and hk: "hkdf_total E" and wf: "noise_wf n"
  shows "\<exists>sct cct n'. noise_run E [Mix_Hash a, Mix_Hash b, Mix_Key k, Send p, Mix_Key k', Send q] n = (Inr [sct, cct], n')"
proof -
  let ?n = "authenticate E b (authenticate E a n)"
  have w0: "noise_wf ?n" by (intro wf_authenticate ok wf)
  obtain n1 where m1: "mix_key E k ?n = (Inr (), n1)" "ns_counter n1 = 0" using mix_key_total [OF hk] by blast
  have w1: "noise_wf n1" using wf_step(1) [OF ok w0 m1(1)] .
  then obtain c1 n2 where e1: "noise_encrypt E p n1 = (Inr c1, n2)"
    using noise_encrypt_total [of n1 E p] m1(2) by auto
  have w2: "noise_wf n2" using wf_step(2) [OF ok w1 e1] .
  obtain n3 where m2: "mix_key E k' n2 = (Inr (), n3)" "ns_counter n3 = 0" using mix_key_total [OF hk] by blast
  have "noise_wf n3" using wf_step(1) [OF ok w2 m2(1)] .
  then obtain c2 n4 where "noise_encrypt E q n3 = (Inr c2, n4)"
    using noise_encrypt_total [of n3 E q] m2(2) by auto
  then show ?thesis using m1 e1 m2 by (simp add: obind_def oret_def)
qed

text \<open>The sample server answers every message with the hello whose two ciphertexts it computed.\<close>

definition sample_server :: "bytes \<Rightarrow> bytes \<Rightarrow> bytes hs_env" where
  "sample_server sct cct = sample_hs\<lparr>handshake_message_decode := (\<lambda>_. Inr
     \<lparr>hm_client_hello = None,
      hm_server_hello = Some \<lparr>sh_ephemeral = Some (replicate 32 3), sh_static = Some sct, sh_payload = Some cct\<rparr>,
      hm_client_finish = None\<rparr>)\<rparr>"

definition sample_ephemeral :: key_pair where
  "sample_ephemeral = \<lparr>public_key = replicate 32 1, private_key = replicate 32 2\<rparr>"

definition sample_static :: key_pair where
  "sample_static = \<lparr>public_key = replicate 32 4, private_key = replicate 32 5\<rparr>"

definition sample_secret :: "bytes \<Rightarrow> bytes \<Rightarrow> bytes" where
  "sample_secret k p = xor_bytes k p"

lemma sample_server_simps [simp]:
  "noise_prims (sample_server sct cct) = sample_noise"
  "parse_server_hello (sample_server sct cct) response = Inr (replicate 32 3, sct, cct)"
  "length k = 32 \<Longrightarrow> length p = 32 \<Longrightarrow> shared_secret (sample_server sct cct) k p = Inr (sample_secret k p)"
  by (simp_all add: sample_server_def sample_hs_def parse_server_hello_def parse_server_hello_body_def
      shared_secret_def private_key_deserialize_def from_djb_public_key_bytes_def calculate_agreement_def
      sample_secret_def)

lemma sample_hkdf_total: "hkdf_total sample_noise"
  by (simp add: hkdf_total_def sample_noise_def)

lemma sample_chain_trusted: "\<exists>chain. verify_chain (sample_server sct cct) [] (replicate 32 9) Strict = Inr chain"
proof -
  have "chain_signed (sample_server sct cct) [] (replicate 32 9)
     \<lparr>intermediate_key = replicate 32 7, intermediate_not_before = 10, intermediate_not_after = 20,
      leaf_key = replicate 32 9, leaf_not_before = 11, leaf_not_after = 30\<rparr>"
    by (simp add: chain_signed_def signed_by_def sample_server_def sample_hs_def sample_chain_def
        WA_CERT_PUB_KEY_def as_i64_or_0_def)
  then show ?thesis using verify_chain_complete by blast
qed

lemma sample_server_run:
  "\<exists>n0 sct cct n4. noise_state_new sample_noise NOISE_PATTERN_XX WA_CONN_HEADER = Inr n0 \<and>
     noise_run sample_noise [Mix_Hash (public_key sample_ephemeral), Mix_Hash (replicate 32 3),
       Mix_Key (sample_secret (replicate 32 2) (replicate 32 3)), Send (replicate 32 9),
       Mix_Key (sample_secret (replicate 32 2) (replicate 32 9)), Send []] n0 = (Inr [sct, cct], n4)"
proof -
  obtain n0 where n0: "noise_state_new sample_noise NOISE_PATTERN_XX WA_CONN_HEADER = Inr n0"
    by (simp add: noise_state_new_def Let_def)
  then show ?thesis
    using hello_run_total [OF sample_noise_ok sample_hkdf_total wf_new [OF sample_noise_ok n0]] by blast
qed

lemma sample_completes:
  "\<exists>sct cct x f x' out.
     xx_new_with_cert_policy (sample_server sct cct) sample_ephemeral sample_static [8] WA_CONN_HEADER Strict = Inr x \<and>
     xx_read_server_hello_and_build_client_finish (sample_server sct cct) [] x = (Inr f, x') \<and>
     xx_finish (sample_server sct cct) x' = Inr out"
proof -
  obtain n0 sct cct n4 where r: "noise_state_new sample_noise NOISE_PATTERN_XX WA_CONN_HEADER = Inr n0"
    "noise_run sample_noise [Mix_Hash (public_key sample_ephemeral), Mix_Hash (replicate 32 3),
       Mix_Key (sample_secret (replicate 32 2) (replicate 32 3)), Send (replicate 32 9),
       Mix_Key (sample_secret (replicate 32 2) (replicate 32 9)), Send []] n0 = (Inr [sct, cct], n4)"
    using sample_server_run by blast
  obtain chain where c: "verify_chain (sample_server sct cct) [] (replicate 32 9) Strict = Inr chain"
    using sample_chain_trusted by blast
  show ?thesis
    using xx_completes [where H = "sample_server sct cct" and prologue = WA_CONN_HEADER and response = "[]"
        and e = sample_ephemeral and s = sample_static and payload = "[8]" and rs = "replicate 32 9"
        and se = "replicate 32 3" and ee = "sample_secret (replicate 32 2) (replicate 32 3)"
        and es = "sample_secret (replicate 32 2) (replicate 32 9)"
        and se' = "sample_secret (replicate 32 5) (replicate 32 3)", OF _ _ _ _ _ _ _ _ _ c] r
      sample_noise_ok sample_hkdf_total
    by (simp add: sample_ephemeral_def sample_static_def) blast
qed

theorem xx_handshake_completes_witness:
  "\<exists>sct cct x f x' out.
     xx_new_with_cert_policy (sample_server sct cct) sample_ephemeral sample_static [8] WA_CONN_HEADER Strict = Inr x \<and>
     xx_read_server_hello_and_build_client_finish (sample_server sct cct) [] x = (Inr f, x') \<and>
     xx_finish (sample_server sct cct) x' = Inr out"
proof -
  obtain n0 sct cct n4 where r: "noise_state_new sample_noise NOISE_PATTERN_XX WA_CONN_HEADER = Inr n0"
    "noise_run sample_noise [Mix_Hash (public_key sample_ephemeral), Mix_Hash (replicate 32 3),
       Mix_Key (sample_secret (replicate 32 2) (replicate 32 3)), Send (replicate 32 9),
       Mix_Key (sample_secret (replicate 32 2) (replicate 32 9)), Send []] n0 = (Inr [sct, cct], n4)"
    using sample_server_run by blast
  obtain chain where c: "verify_chain (sample_server sct cct) [] (replicate 32 9) Strict = Inr chain"
    using sample_chain_trusted by blast
  show ?thesis
    using xx_handshake_completes [where H = "sample_server sct cct" and prologue = WA_CONN_HEADER and response = "[]"
        and e = sample_ephemeral and s = sample_static and payload = "[8]" and rs = "replicate 32 9"
        and se = "replicate 32 3" and ee = "sample_secret (replicate 32 2) (replicate 32 3)"
        and es = "sample_secret (replicate 32 2) (replicate 32 9)"
        and se' = "sample_secret (replicate 32 5) (replicate 32 3)", OF _ _ _ _ _ _ _ _ _ c] r
      sample_noise_ok sample_hkdf_total
    by (simp add: sample_ephemeral_def sample_static_def) blast
qed

theorem xx_handshake_agreement_witness:
  "\<exists>sct cct x f x' n0 rs cert ct1 ct2 ee es se'.
     xx_new_with_cert_policy (sample_server sct cct) sample_ephemeral sample_static [8] WA_CONN_HEADER Strict = Inr x \<and>
     xx_read_server_hello_and_build_client_finish (sample_server sct cct) [] x = (Inr f, x') \<and>
     noise_run sample_noise [Mix_Hash (public_key sample_ephemeral), Mix_Hash (replicate 32 3), Mix_Key ee, Send rs,
       Mix_Key es, Send cert, Recv ct1, Mix_Key se', Recv ct2] n0 =
       (Inr [sct, cct, public_key sample_static, [8]], xx_noise x')"
proof -
  obtain sct cct x f x' where x:
    "xx_new_with_cert_policy (sample_server sct cct) sample_ephemeral sample_static [8] WA_CONN_HEADER Strict = Inr x"
    "xx_read_server_hello_and_build_client_finish (sample_server sct cct) [] x = (Inr f, x')"
    using sample_completes by blast
  have "env_ok (noise_prims (sample_server sct cct))" by (simp add: sample_noise_ok)
  from xx_handshake_agreement [OF this x] obtain n0 rs cert ct1 ct2 ee es se' where
    "noise_run sample_noise [Mix_Hash (public_key sample_ephemeral), Mix_Hash (replicate 32 3), Mix_Key ee, Send rs,
       Mix_Key es, Send cert, Recv ct1, Mix_Key se', Recv ct2] n0 =
       (Inr [sct, cct, public_key sample_static, [8]], xx_noise x')"
    unfolding sample_server_simps by blast
  with x show ?thesis by blast
qed

end
