(* ===== verification/Framing.thy ===== *)
theory Framing
  imports Prelude
begin

text \<open>
  The framing layer of the transport (\<open>wacore/noise/src/framing.rs\<close>): a frame is a 24-bit length and
  that many bytes, the decoder accumulates reads of any size and splits frames out of them. How much
  memory \<open>bytes::BytesMut\<close> really holds after a growth or a split is not under this repository, so
  the three functions that give a capacity are parameters, the fields of \<open>alloc\<close>.
\<close>

section \<open>Encoding\<close>

definition FRAME_LENGTH_SIZE :: nat where "FRAME_LENGTH_SIZE = 3"
definition FRAME_MAX_SIZE :: nat where "FRAME_MAX_SIZE = 2 ^ 24"

datatype frame_error = FrameTooLarge nat

text \<open>The output buffer is passed in and handed back, also when the call fails.\<close>

definition append_frame_header_into ::
  "nat \<Rightarrow> bytes option \<Rightarrow> bytes \<Rightarrow> (frame_error, unit) result \<times> bytes" where
  "append_frame_header_into payload_len header out =
     (if payload_len \<ge> FRAME_MAX_SIZE then (Inl (FrameTooLarge payload_len), out)
      else
        let out = out @ (case header of Some header_data \<Rightarrow> header_data | None \<Rightarrow> []);
            n = of_nat payload_len :: u32
        in (Inr (), out @ [ucast (drop_bit 16 n), ucast (drop_bit 8 n), ucast n]))"

definition append_frame_into ::
  "bytes \<Rightarrow> bytes option \<Rightarrow> bytes \<Rightarrow> (frame_error, unit) result \<times> bytes" where
  "append_frame_into payload header out =
     (case append_frame_header_into (length payload) header out of
        (Inl e, out) \<Rightarrow> (Inl e, out)
      | (Inr _, out) \<Rightarrow> (Inr (), out @ payload))"

definition encode_frame_into ::
  "bytes \<Rightarrow> bytes option \<Rightarrow> bytes \<Rightarrow> (frame_error, unit) result \<times> bytes" where
  "encode_frame_into payload header out = append_frame_into payload header []"

definition encode_frame :: "bytes \<Rightarrow> bytes option \<Rightarrow> (frame_error, bytes) result" where
  "encode_frame payload header =
     (case encode_frame_into payload header [] of (r, data) \<Rightarrow> map_res (\<lambda>_. data) r)"

section \<open>Decoding\<close>

definition CHUNK_SIZE :: nat where "CHUNK_SIZE = 1024"
definition MAX_IDLE_CAPACITY :: nat where "MAX_IDLE_CAPACITY = 64 * 1024"
definition MAX_EAGER_RESERVE :: nat where "MAX_EAGER_RESERVE = 64 * 1024"

text \<open>
  \<open>with_capacity n\<close> and \<open>reserve capacity len additional\<close> give the capacity of the resulting buffer,
  \<open>split capacity n\<close> the capacity left after \<open>n\<close> bytes are split off the front.
\<close>

record alloc =
  with_capacity :: "nat \<Rightarrow> nat"
  reserve :: "nat \<Rightarrow> nat \<Rightarrow> nat \<Rightarrow> nat"
  split_off :: "nat \<Rightarrow> nat \<Rightarrow> nat"

record frame_decoder =
  fd_buffer :: bytes
  fd_capacity :: nat
  grew_oversized :: bool

definition frame_decoder_new :: "alloc \<Rightarrow> frame_decoder" where
  "frame_decoder_new A =
     \<lparr>fd_buffer = [], fd_capacity = with_capacity A CHUNK_SIZE, grew_oversized = False\<rparr>"

definition reserve_for :: "alloc \<Rightarrow> nat \<Rightarrow> frame_decoder \<Rightarrow> frame_decoder" where
  "reserve_for A incoming d =
     (if fd_capacity d - length (fd_buffer d) < incoming then
        let cap = reserve A (fd_capacity d) (length (fd_buffer d)) (max incoming CHUNK_SIZE)
        in d\<lparr>fd_capacity := cap, grew_oversized := grew_oversized d \<or> cap > MAX_IDLE_CAPACITY\<rparr>
      else d)"

definition feed :: "alloc \<Rightarrow> bytes \<Rightarrow> frame_decoder \<Rightarrow> frame_decoder" where
  "feed A data d = (let d = reserve_for A (length data) d in d\<lparr>fd_buffer := fd_buffer d @ data\<rparr>)"

text \<open>\<open>owned\<close> is the capacity of the read's buffer when nothing else holds it (\<open>try_into_mut\<close>).\<close>

definition feed_owned :: "alloc \<Rightarrow> bytes \<Rightarrow> nat option \<Rightarrow> frame_decoder \<Rightarrow> frame_decoder" where
  "feed_owned A data owned d =
     (if fd_buffer d = [] \<and> length data \<ge> CHUNK_SIZE then
        (case owned of
           Some cap \<Rightarrow> d\<lparr>grew_oversized := grew_oversized d \<or> cap > MAX_IDLE_CAPACITY,
                           fd_buffer := data, fd_capacity := cap\<rparr>
         | None \<Rightarrow> feed A data d)
      else feed A data d)"

definition decode_frame :: "alloc \<Rightarrow> frame_decoder \<Rightarrow> bytes option \<times> frame_decoder" where
  "decode_frame A d =
     (case fd_buffer d of
        b0 # b1 # b2 # rest \<Rightarrow>
          (let frame_len = unat (push_bit 16 (ucast b0) OR push_bit 8 (ucast b1) OR (ucast b2 :: u64)) in
           if length (fd_buffer d) < FRAME_LENGTH_SIZE + frame_len then
             (let missing = FRAME_LENGTH_SIZE + frame_len - length (fd_buffer d)
              in (None, reserve_for A (min missing MAX_EAGER_RESERVE) d))
           else
             let d = d\<lparr>fd_buffer := drop frame_len rest,
                       fd_capacity := split_off A (split_off A (fd_capacity d) FRAME_LENGTH_SIZE) frame_len\<rparr>;
                 d = (if (grew_oversized d \<or> fd_capacity d > MAX_IDLE_CAPACITY) \<and>
                         length (fd_buffer d) \<le> CHUNK_SIZE
                      then d\<lparr>fd_capacity := with_capacity A CHUNK_SIZE, grew_oversized := False\<rparr>
                      else d)
             in (Some (take frame_len rest), d))
      | _ \<Rightarrow> (None, d))"

definition buffered_len :: "frame_decoder \<Rightarrow> nat" where
  "buffered_len d = length (fd_buffer d)"

definition clear :: "frame_decoder \<Rightarrow> frame_decoder" where
  "clear d = d\<lparr>fd_buffer := []\<rparr>"

lemma reserve_for_buffer [simp]: "fd_buffer (reserve_for A n d) = fd_buffer d"
  by (simp add: reserve_for_def Let_def)

lemma feed_buffer [simp]: "fd_buffer (feed A data d) = fd_buffer d @ data"
  by (simp add: feed_def Let_def)

lemma feed_owned_buffer [simp]: "fd_buffer (feed_owned A data owned d) = fd_buffer d @ data"
  by (auto simp: feed_owned_def split: option.splits)

lemma decode_frame_shorter:
  assumes "decode_frame A d = (Some f, d')"
  shows "length (fd_buffer d') < length (fd_buffer d)"
  using assms by (auto simp: decode_frame_def Let_def split: list.splits if_splits)

text \<open>The loop of the reader task: split out frames until none is complete.\<close>

function decode_frames :: "alloc \<Rightarrow> frame_decoder \<Rightarrow> bytes list \<times> frame_decoder" where
  "decode_frames A d =
     (case decode_frame A d of
        (None, d') \<Rightarrow> ([], d')
      | (Some f, d') \<Rightarrow> (let (fs, d'') = decode_frames A d' in (f # fs, d'')))"
  by pat_completeness auto
termination
  by (relation "measure (\<lambda>(A, d). length (fd_buffer d))") (auto dest: decode_frame_shorter [OF sym])

declare decode_frames.simps [simp del]

text \<open>A connection: reads arrive one after the other, each adopted or copied, and are drained at once.\<close>

fun receive :: "alloc \<Rightarrow> (bytes \<times> nat option) list \<Rightarrow> frame_decoder \<Rightarrow> bytes list \<times> frame_decoder" where
  "receive A [] d = ([], d)"
| "receive A ((data, owned) # reads) d =
     (let (fs, d) = decode_frames A (feed_owned A data owned d);
          (gs, d) = receive A reads d
      in (fs @ gs, d))"

section \<open>Reference\<close>

text \<open>What a byte stream means: the frames complete in it and the bytes after them.\<close>

definition frame_len_of :: "bytes \<Rightarrow> nat" where
  "frame_len_of bs =
     unat (push_bit 16 (ucast (bs ! 0)) OR push_bit 8 (ucast (bs ! 1)) OR (ucast (bs ! 2) :: u64))"

definition first_frame :: "bytes \<Rightarrow> (bytes \<times> bytes) option" where
  "first_frame bs =
     (if length bs < 3 \<or> length bs < 3 + frame_len_of bs then None
      else Some (take (frame_len_of bs) (drop 3 bs), drop (3 + frame_len_of bs) bs))"

lemma first_frame_shorter: "first_frame bs = Some (f, r) \<Longrightarrow> length r < length bs"
  by (auto simp: first_frame_def split: if_splits)

function frames_of :: "bytes \<Rightarrow> bytes list \<times> bytes" where
  "frames_of bs =
     (case first_frame bs of
        None \<Rightarrow> ([], bs)
      | Some (f, r) \<Rightarrow> (let (fs, r') = frames_of r in (f # fs, r')))"
  by pat_completeness auto
termination
  by (relation "measure length") (auto dest: first_frame_shorter)

declare frames_of.simps [simp del]

lemma decode_frame_first:
  "fst (decode_frame A d) = map_option fst (first_frame (fd_buffer d))"
  "fd_buffer (snd (decode_frame A d)) =
     (case first_frame (fd_buffer d) of None \<Rightarrow> fd_buffer d | Some (f, r) \<Rightarrow> r)"
  by (auto simp: decode_frame_def first_frame_def frame_len_of_def Let_def FRAME_LENGTH_SIZE_def numeral_3_eq_3
      split: list.splits)
lemma decode_frames_eq:
  "fst (decode_frames A d) = fst (frames_of (fd_buffer d)) \<and>
   fd_buffer (snd (decode_frames A d)) = snd (frames_of (fd_buffer d))"
proof (induction A d rule: decode_frames.induct)
  case (1 A d)
  obtain o' d' where o: "decode_frame A d = (o', d')" by fastforce
  note first = decode_frame_first [of A d]
  show ?case
  proof (cases o')
    case None
    then have "first_frame (fd_buffer d) = None" using o first(1) by simp
    with None o first(2) show ?thesis by (simp add: decode_frames.simps [of A d] frames_of.simps [of "fd_buffer d"])
  next
    case (Some f)
    then obtain r where r: "first_frame (fd_buffer d) = Some (f, r)" using o first(1)
      by (cases "first_frame (fd_buffer d)") auto
    with o first(2) have "fd_buffer d' = r" by simp
    with 1 [OF o [symmetric] Some] Some o r show ?thesis
      by (simp add: decode_frames.simps [of A d] frames_of.simps [of "fd_buffer d"] case_prod_beta Let_def)
  qed
qed

lemma first_frame_append: "first_frame xs = Some (f, r) \<Longrightarrow> first_frame (xs @ ys) = Some (f, r @ ys)"
  by (auto simp: first_frame_def frame_len_of_def nth_append split: if_splits)

lemma frames_of_append:
  "frames_of (xs @ ys) =
     (fst (frames_of xs) @ fst (frames_of (snd (frames_of xs) @ ys)), snd (frames_of (snd (frames_of xs) @ ys)))"
proof (induction xs rule: frames_of.induct)
  case (1 xs)
  show ?case
  proof (cases "first_frame xs")
    case None
    then show ?thesis by (simp add: frames_of.simps [of xs])
  next
    case (Some fr)
    obtain f r where fr: "fr = (f, r)" by (cases fr)
    from 1 [OF Some fr [symmetric]] first_frame_append [of xs f r ys] Some fr show ?thesis
      by (simp add: frames_of.simps [of xs] frames_of.simps [of "xs @ ys"] case_prod_beta Let_def)
  qed
qed

lemma frames_of_rest: "first_frame (snd (frames_of xs)) = None"
proof (induction xs rule: frames_of.induct)
  case (1 xs)
  then show ?case
    by (cases "first_frame xs") (auto simp: frames_of.simps [of xs] case_prod_beta Let_def)
qed

lemma receive_frames_of:
  assumes "first_frame (fd_buffer d) = None"
  shows "fst (receive A reads d) = fst (frames_of (fd_buffer d @ concat (map fst reads))) \<and>
    fd_buffer (snd (receive A reads d)) = snd (frames_of (fd_buffer d @ concat (map fst reads)))"
  using assms
proof (induction reads arbitrary: d)
  case Nil
  then show ?case by (simp add: frames_of.simps [of "fd_buffer d"])
next
  case (Cons rd reads)
  obtain data owned where rd: "rd = (data, owned)" by (cases rd)
  let ?d = "feed_owned A data owned d"
  note dr = decode_frames_eq [of A ?d]
  have "first_frame (fd_buffer (snd (decode_frames A ?d))) = None" using dr frames_of_rest by simp
  from Cons.IH [OF this] dr show ?case
    by (simp add: rd case_prod_beta Let_def frames_of_append [of "fd_buffer d @ data", simplified])
qed

section \<open>Frames on the wire\<close>

definition frame :: "bytes \<Rightarrow> bytes" where
  "frame p = (let n = of_nat (length p) :: u32 in [ucast (drop_bit 16 n), ucast (drop_bit 8 n), ucast n] @ p)"

lemma encode_frame_eq:
  "encode_frame p header =
     (if length p < FRAME_MAX_SIZE then Inr ((case header of None \<Rightarrow> [] | Some h \<Rightarrow> h) @ frame p)
      else Inl (FrameTooLarge (length p)))"
  by (simp add: encode_frame_def encode_frame_into_def append_frame_into_def append_frame_header_into_def
      frame_def Let_def)

lemma frame_len_frame:
  assumes "length p < FRAME_MAX_SIZE"
  shows "frame_len_of (frame p @ rest) = length p"
proof -
  let ?l = "length p"
  let ?n = "of_nat ?l :: u32"
  have l: "?l < 2 ^ 24" using assms by (simp add: FRAME_MAX_SIZE_def)
  then have nb: "bit ?l k \<Longrightarrow> k < 24" for k
    by (metis bit_take_bit_iff take_bit_nat_eq_self)
  have "push_bit 16 (ucast (ucast (drop_bit 16 ?n) :: u8)) OR push_bit 8 (ucast (ucast (drop_bit 8 ?n) :: u8))
      OR ucast (ucast ?n :: u8) = (of_nat ?l :: u64)" (is "?w = _")
  proof (rule bit_word_eqI)
    fix k assume k: "k < LENGTH(64)"
    have "k < 8 \<or> (\<exists>m < 8. k = 8 + m) \<or> (\<exists>m < 8. k = 16 + m) \<or> 24 \<le> k" by presburger
    then consider "k < 8" | m where "m < 8" "k = 8 + m" | m where "m < 8" "k = 16 + m" | "24 \<le> k" by blast
    then show "bit ?w k \<longleftrightarrow> bit (of_nat ?l :: u64) k"
      using k nb [of k] by cases (auto simp: bit_simps)
  qed
  moreover have "unat (of_nat ?l :: u64) = ?l" using l by (simp add: unat_of_nat)
  ultimately show ?thesis by (simp add: frame_len_of_def frame_def Let_def)
qed

lemma frame_len_bound: "frame_len_of bs < 2 ^ 24"
proof -
  let ?w = "push_bit 16 (ucast (bs ! 0)) OR push_bit 8 (ucast (bs ! 1)) OR (ucast (bs ! 2) :: u64)"
  have byte: "bit (b :: u8) k \<Longrightarrow> k < 8" for b k using bit_imp_le_length [of b k] by simp
  have "bit ?w k \<Longrightarrow> k < 24" for k
    using byte [of "bs ! 0" "k - 16"] byte [of "bs ! 1" "k - 8"] byte [of "bs ! 2" k] by (auto simp: bit_simps)
  then have "take_bit 24 ?w = ?w"
    by (intro bit_word_eqI) (auto simp only: bit_take_bit_iff)
  from arg_cong [OF this, of unat] have "take_bit 24 (unat ?w) = unat ?w" by (simp only: unsigned_take_bit_eq)
  then show ?thesis unfolding frame_len_of_def using take_bit_nat_less_exp [of 24 "unat ?w"] by simp
qed

lemma first_frame_frame:
  assumes "length p < FRAME_MAX_SIZE"
  shows "first_frame (frame p @ rest) = Some (p, rest)"
proof -
  have "length (frame p) = 3 + length p" "drop 3 (frame p @ rest) = p @ rest"
    by (simp_all add: frame_def Let_def numeral_3_eq_3)
  then show ?thesis
    by (simp add: first_frame_def frame_len_frame [OF assms] add.commute [of 3] drop_drop [symmetric] del: drop_drop)
qed

lemma frames_of_frames:
  "list_all (\<lambda>p. length p < FRAME_MAX_SIZE) ps \<Longrightarrow> frames_of (concat (map frame ps) @ rest) =
     (ps @ fst (frames_of rest), snd (frames_of rest))"
proof (induction ps)
  case (Cons p ps)
  then show ?case
    using first_frame_frame [of p "concat (map frame ps) @ rest"]
    by (subst frames_of.simps) (simp add: case_prod_beta Let_def)
qed simp

section \<open>Retained memory\<close>

text \<open>
  What the decoder relies on: a fresh buffer asked for one chunk is no larger than the idle limit,
  and splitting bytes off does not add capacity.
\<close>

definition alloc_ok :: "alloc \<Rightarrow> bool" where
  "alloc_ok A \<longleftrightarrow> with_capacity A CHUNK_SIZE \<le> MAX_IDLE_CAPACITY \<and> (\<forall>cap n. split_off A cap n \<le> cap)"

text \<open>An oversized buffer is remembered.\<close>

definition decoder_inv :: "frame_decoder \<Rightarrow> bool" where
  "decoder_inv d \<longleftrightarrow> (fd_capacity d > MAX_IDLE_CAPACITY \<longrightarrow> grew_oversized d)"

lemma inv_reserve_for: "decoder_inv d \<Longrightarrow> decoder_inv (reserve_for A n d)"
  by (simp add: decoder_inv_def reserve_for_def Let_def)

lemma inv_feed: "decoder_inv d \<Longrightarrow> decoder_inv (feed A data d)"
  using inv_reserve_for [of d A "length data"] by (simp add: decoder_inv_def feed_def Let_def)

lemma inv_feed_owned: "decoder_inv d \<Longrightarrow> decoder_inv (feed_owned A data owned d)"
  using inv_feed [of d A data] by (auto simp: feed_owned_def decoder_inv_def split: option.splits)

lemma split_le:
  assumes "alloc_ok A"
  shows "split_off A (split_off A cap a) b \<le> cap"
  using assms unfolding alloc_ok_def by (meson le_trans)

lemma inv_decode_frame:
  assumes "alloc_ok A" and "decoder_inv d"
  shows "decoder_inv (snd (decode_frame A d))"
proof -
  note cap = split_le [OF assms(1), of "fd_capacity d" FRAME_LENGTH_SIZE]
  have fresh: "with_capacity A CHUNK_SIZE \<le> MAX_IDLE_CAPACITY" using assms(1) by (simp add: alloc_ok_def)
  have "split_off A (split_off A (fd_capacity d) FRAME_LENGTH_SIZE) n > MAX_IDLE_CAPACITY \<Longrightarrow> grew_oversized d" for n
    using assms(2) cap [of n] by (auto simp: decoder_inv_def)
  then show ?thesis
    using fresh assms(2) inv_reserve_for [OF assms(2)]
    by (auto simp: decode_frame_def Let_def split: list.splits) (auto simp: decoder_inv_def)
qed

lemma inv_decode_frames:
  assumes "alloc_ok A" and "decoder_inv d"
  shows "decoder_inv (snd (decode_frames A d))"
  using assms
proof (induction A d rule: decode_frames.induct)
  case (1 A d)
  obtain o' d' where o: "decode_frame A d = (o', d')" by fastforce
  with inv_decode_frame [OF "1.prems"] have "decoder_inv d'" by simp
  with 1 o show ?case
    by (cases o') (simp_all add: decode_frames.simps [of A d] case_prod_beta Let_def)
qed

lemma inv_receive:
  assumes "alloc_ok A"
  shows "decoder_inv d \<Longrightarrow> decoder_inv (snd (receive A reads d))"
proof (induction reads arbitrary: d)
  case (Cons rd reads)
  obtain data owned where rd: "rd = (data, owned)" by (cases rd)
  have "decoder_inv (snd (decode_frames A (feed_owned A data owned d)))"
    by (intro inv_decode_frames [OF assms] inv_feed_owned Cons.prems)
  from Cons.IH [OF this] show ?case by (simp add: rd case_prod_beta Let_def)
qed simp

lemma decode_frame_releases:
  assumes "alloc_ok A" and "decoder_inv d" and "decode_frame A d = (Some f, d')" and "length (fd_buffer d') \<le> CHUNK_SIZE"
  shows "fd_capacity d' \<le> MAX_IDLE_CAPACITY \<and> \<not> grew_oversized d'"
proof -
  have "with_capacity A CHUNK_SIZE \<le> MAX_IDLE_CAPACITY" using assms(1) by (simp add: alloc_ok_def)
  with assms(3,4) show ?thesis
    by (auto simp: decode_frame_def Let_def not_less split: list.splits if_splits)
qed

section \<open>Properties\<close>

text \<open>
  C26 (frames survive any segmentation). However the transport cuts the concatenation of frames into
  reads, and whichever reads it hands over outright, a connection yields exactly the payloads that
  were framed, in order, and leaves nothing buffered.
\<close>

theorem frame_stream_roundtrip:
  assumes "map (\<lambda>p. encode_frame p None) ps = map Inr frames"
    and "concat (map fst reads) = concat frames"
  shows "fst (receive A reads (frame_decoder_new A)) = ps \<and>
    buffered_len (snd (receive A reads (frame_decoder_new A))) = 0"
proof -
  from assms(1) have "list_all (\<lambda>p. length p < FRAME_MAX_SIZE) ps \<and> frames = map frame ps"
  proof (induction ps arbitrary: frames)
    case (Cons p ps)
    then show ?case by (cases frames) (auto simp: encode_frame_eq split: if_splits)
  qed simp
  then have ps: "list_all (\<lambda>p. length p < FRAME_MAX_SIZE) ps" "frames = map frame ps" by auto
  have nil: "first_frame [] = None" "frames_of [] = ([], [])"
    by (simp_all add: first_frame_def frames_of.simps [of "[]"])
  have d: "fd_buffer (frame_decoder_new A) = []" by (simp add: frame_decoder_new_def)
  have "first_frame (fd_buffer (frame_decoder_new A)) = None" using d nil by simp
  from receive_frames_of [OF this, of A reads] frames_of_frames [OF ps(1), of "[]"] show ?thesis
    by (simp add: d nil assms(2) ps(2) buffered_len_def)
qed

definition sample_alloc :: alloc where
  "sample_alloc = \<lparr>with_capacity = (\<lambda>n. n), reserve = (\<lambda>cap len add. max cap (len + add)), split_off = (-)\<rparr>"

theorem frame_stream_roundtrip_witness:
  "fst (receive sample_alloc [([0, 0], None), ([2, 7], Some 9), ([8, 0, 0, 0], None)]
     (frame_decoder_new sample_alloc)) = [[7, 8], []] \<and>
   buffered_len (snd (receive sample_alloc [([0, 0], None), ([2, 7], Some 9), ([8, 0, 0, 0], None)]
     (frame_decoder_new sample_alloc))) = 0"
  by (rule frame_stream_roundtrip [of _ "[[0, 0, 2, 7, 8], [0, 0, 0]]"])
    (simp_all add: encode_frame_eq frame_def Let_def FRAME_MAX_SIZE_def)

text \<open>
  C10 (segmentation is invisible). On any byte stream, well formed or not, the frames delivered and the
  bytes left over depend only on the concatenation of the reads: not on where the reads were cut,
  which of them were adopted without a copy, or how the allocator sized the buffers.
\<close>

theorem segmentation_irrelevant:
  assumes "concat (map fst reads) = concat (map fst reads')"
  shows "fst (receive A reads (frame_decoder_new A)) = fst (receive B reads' (frame_decoder_new B)) \<and>
    fd_buffer (snd (receive A reads (frame_decoder_new A))) =
    fd_buffer (snd (receive B reads' (frame_decoder_new B)))"
proof -
  have "first_frame (fd_buffer (frame_decoder_new C)) = None" "fd_buffer (frame_decoder_new C) = []" for C
    by (simp_all add: frame_decoder_new_def first_frame_def)
  with receive_frames_of [of "frame_decoder_new A" A reads] receive_frames_of [of "frame_decoder_new B" B reads']
    assms show ?thesis by simp
qed

theorem segmentation_irrelevant_witness:
  "fst (receive sample_alloc [([0], None), ([0, 1, 5, 9], None)] (frame_decoder_new sample_alloc)) =
   fst (receive sample_alloc [([0, 0, 1], Some 3), ([5], None), ([9], None)] (frame_decoder_new sample_alloc))"
  using segmentation_irrelevant [of "[([0], None), ([0, 1, 5, 9], None)]" "[([0, 0, 1], Some 3), ([5], None), ([9], None)]"]
  by simp

text \<open>
  Oversized frames are refused whole. Framing fails exactly for a payload of \<open>FRAME_MAX_SIZE\<close> bytes or
  more, and then the output buffer is exactly what it was; otherwise header, length and payload are
  appended to it.
\<close>

theorem append_frame_refuses_iff:
  "append_frame_into payload header out =
     (if length payload < FRAME_MAX_SIZE
      then (Inr (), out @ (case header of None \<Rightarrow> [] | Some h \<Rightarrow> h) @ frame payload)
      else (Inl (FrameTooLarge (length payload)), out)) \<and>
   (length payload < FRAME_MAX_SIZE \<longleftrightarrow> first_frame (frame payload) = Some (payload, []))"
proof -
  have "first_frame (frame payload) \<noteq> Some (payload, [])" if big: "\<not> length payload < FRAME_MAX_SIZE"
  proof
    assume "first_frame (frame payload) = Some (payload, [])"
    then have "payload = take (frame_len_of (frame payload)) (drop 3 (frame payload))"
      unfolding first_frame_def by (metis Pair_inject option.distinct(1) option.inject)
    then have "length payload \<le> frame_len_of (frame payload)" by (metis length_take min.cobounded2)
    moreover have "frame_len_of (frame payload) < 2 ^ 24" by (rule frame_len_bound)
    ultimately show False using big by (simp add: FRAME_MAX_SIZE_def)
  qed
  then show ?thesis
    using first_frame_frame [of payload "[]"]
    by (auto simp: append_frame_into_def append_frame_header_into_def frame_def Let_def)
qed

text \<open>
  C39 (no pinned oversized buffer). On every connection whose buffers are allocated as
  \<open>alloc_ok\<close> says, an oversized accumulation buffer is always remembered; so as soon as a frame is
  split out and at most one chunk is left behind, the buffer is back within the idle limit and the
  memory of an oversized one is gone.
\<close>

theorem oversized_buffer_released:
  assumes "alloc_ok A" and "d = snd (receive A reads (frame_decoder_new A))"
    and "decode_frame A (feed_owned A data owned d) = (Some f, d')" and "buffered_len d' \<le> CHUNK_SIZE"
  shows "decoder_inv d \<and> fd_capacity d' \<le> MAX_IDLE_CAPACITY \<and> \<not> grew_oversized d'"
proof -
  have "decoder_inv (frame_decoder_new A)"
    using assms(1) by (simp add: decoder_inv_def frame_decoder_new_def alloc_ok_def)
  then have d: "decoder_inv d" unfolding assms(2) by (rule inv_receive [OF assms(1)])
  show ?thesis
    using decode_frame_releases [OF assms(1) inv_feed_owned [OF d] assms(3)] assms(4) d by (simp add: buffered_len_def)
qed

theorem oversized_buffer_released_witness:
  "\<exists>d'. decode_frame sample_alloc (feed_owned sample_alloc [0, 0, 1, 5] None (frame_decoder_new sample_alloc)) =
     (Some [5], d') \<and> fd_capacity d' \<le> MAX_IDLE_CAPACITY \<and> \<not> grew_oversized d'"
proof -
  have ok: "alloc_ok sample_alloc"
    by (simp add: alloc_ok_def sample_alloc_def CHUNK_SIZE_def MAX_IDLE_CAPACITY_def)
  let ?d = "feed_owned sample_alloc [0, 0, 1, 5] None (frame_decoder_new sample_alloc)"
  have "fd_buffer ?d = [0, 0, 1, 5]" by (simp add: frame_decoder_new_def)
  then have "first_frame (fd_buffer ?d) = Some ([5], [])" by (simp add: first_frame_def frame_len_of_def)
  with decode_frame_first [of sample_alloc ?d] obtain d' where
    d': "decode_frame sample_alloc ?d = (Some [5], d')" "buffered_len d' \<le> CHUNK_SIZE"
    by (cases "decode_frame sample_alloc ?d") (auto simp: buffered_len_def)
  show ?thesis
    using d' oversized_buffer_released [OF ok, of "frame_decoder_new sample_alloc" "[]" "[0, 0, 1, 5]" None "[5]" d']
    by simp
qed

end
