(* ===== verification/Negotiate.thy ===== *)
theory Negotiate
  imports Handshake Framing Jid
begin

text \<open>
  Running a handshake over a transport (\<open>wacore/src/handshake/runner.rs\<close>) and what a client keeps
  from it (\<open>src/handshake.rs\<close>): the choice between XX and IK, the exchange of frames, the fallback,
  the cached certificate chain and the count of failed resumptions. The transport is its input, a
  list of what arrives, with the expiry of the twenty-second timer among it and the end of the list
  for a closed channel, and a predicate that says which writes succeed.
\<close>

section \<open>Errors\<close>

datatype runner_error =
    TransportError
  | Core handshake_error
  | Timeout
  | StreamClosed
  | Disconnected
  | UnexpectedEvent str

fun is_timeout :: "runner_error \<Rightarrow> bool" where
  "is_timeout Timeout = True"
| "is_timeout _ = False"

fun is_transient :: "runner_error \<Rightarrow> bool" where
  "is_transient TransportError = True"
| "is_transient Timeout = True"
| "is_transient Disconnected = True"
| "is_transient StreamClosed = True"
| "is_transient _ = False"

fun is_crypto_fatal :: "runner_error \<Rightarrow> bool" where
  "is_crypto_fatal (Core (Noise (Decrypt _))) = True"
| "is_crypto_fatal (Core (Noise CiphertextTooShort)) = True"
| "is_crypto_fatal (Core (Noise (InvalidKeyLength _ _ _))) = True"
| "is_crypto_fatal (Core (CertVerification _)) = True"
| "is_crypto_fatal (Core IncompleteResponse) = True"
| "is_crypto_fatal (Core (InvalidLength _ _ _)) = True"
| "is_crypto_fatal (Core HsInvalidKeyLength) = True"
| "is_crypto_fatal (Core (ProtoDecode _)) = True"
| "is_crypto_fatal (Core (Crypto _)) = False"
| "is_crypto_fatal (Core (Noise (Encrypt _))) = False"
| "is_crypto_fatal (Core (Noise HkdfExpandFailed)) = False"
| "is_crypto_fatal (Core (Noise (InvalidPatternLength _ _))) = False"
| "is_crypto_fatal (Core (Noise CounterExhausted)) = False"
| "is_crypto_fatal TransportError = False"
| "is_crypto_fatal Timeout = False"
| "is_crypto_fatal StreamClosed = False"
| "is_crypto_fatal Disconnected = False"
| "is_crypto_fatal (UnexpectedEvent _) = False"

section \<open>What a device remembers of the server\<close>

record cached_cert =
  cached_key :: bytes
  not_before :: int
  not_after :: int

record cached_chain =
  intermediate :: cached_cert
  leaf :: cached_cert
  signature_verified :: bool

definition cached_from_verified :: "verified_chain \<Rightarrow> cached_chain" where
  "cached_from_verified v =
     \<lparr>intermediate = \<lparr>cached_key = intermediate_key v, not_before = intermediate_not_before v,
                      not_after = intermediate_not_after v\<rparr>,
      leaf = \<lparr>cached_key = leaf_key v, not_before = leaf_not_before v, not_after = leaf_not_after v\<rparr>,
      signature_verified = True\<rparr>"

text \<open>
  The fields of a device the handshake reads; \<open>dev_payload\<close> is the encoded client payload, which other
  fields of the device determine.
\<close>

record device =
  dev_pn :: "jid option"
  dev_noise_key :: key_pair
  dev_payload :: bytes
  dev_edge_routing :: "bytes option"
  dev_cert_chain :: "cached_chain option"

definition is_registered :: "device \<Rightarrow> bool" where
  "is_registered d \<longleftrightarrow> dev_pn d \<noteq> None"

datatype handshake_pattern = Xx | Ik bytes

definition IK_FAILURE_THRESHOLD :: u32 where "IK_FAILURE_THRESHOLD = 1"

definition select_pattern :: "device \<Rightarrow> u32 \<Rightarrow> int \<Rightarrow> cert_policy \<Rightarrow> handshake_pattern" where
  "select_pattern d ik_failures now policy =
     (if \<not> reuse_cached_chain policy then Xx
      else if \<not> is_registered d then Xx
      else if ik_failures \<ge> IK_FAILURE_THRESHOLD then Xx
      else case dev_cert_chain d of
        None \<Rightarrow> Xx
      | Some chain \<Rightarrow>
          if \<not> signature_verified chain then Xx
          else if now < not_before (leaf chain) \<or> now < not_before (intermediate chain) \<or>
                  now \<ge> not_after (leaf chain) \<or> now \<ge> not_after (intermediate chain) then Xx
          else Ik (cached_key (leaf chain)))"

section \<open>The transport\<close>

datatype incoming =
    Connected
  | DataReceived bytes "nat option"
  | DisconnectedEvent
  | Elapsed

record io =
  io_in :: "incoming list"
  io_out :: "bytes list"
  io_up :: "nat \<Rightarrow> bool"

definition transport_send :: "bytes \<Rightarrow> (io, runner_error, unit) op" where
  "transport_send data io =
     (if io_up io (length (io_out io)) then (Inr (), io\<lparr>io_out := io_out io @ [data]\<rparr>)
      else (Inl TransportError, io))"

definition olift :: "('e, 'a) result \<Rightarrow> ('s, 'e, 'a) op" where
  "olift r s = (r, s)"

definition send_first_handshake_message :: "device \<Rightarrow> bytes \<Rightarrow> (io, runner_error, unit) op" where
  "send_first_handshake_message d payload =
     (let (header, used_edge_routing) = build_handshake_header (dev_edge_routing d) in
      obind (olift (map_err (\<lambda>_. TransportError) (encode_frame payload (Some header)))) transport_send)"

text \<open>The decoder is the caller's; it is handed back with what the loop left in it.\<close>

fun recv_loop :: "alloc \<Rightarrow> frame_decoder \<Rightarrow> incoming list \<Rightarrow>
    (runner_error, bytes) result \<times> frame_decoder \<times> incoming list" where
  "recv_loop A d [] = (Inl StreamClosed, d, [])"
| "recv_loop A d (DataReceived data owned # es) =
     (case decode_frame A (feed_owned A data owned d) of
        (Some resp, d) \<Rightarrow> (Inr resp, d, es)
      | (None, d) \<Rightarrow> recv_loop A d es)"
| "recv_loop A d (Connected # es) = recv_loop A d es"
| "recv_loop A d (DisconnectedEvent # es) = (Inl Disconnected, d, es)"
| "recv_loop A d (Elapsed # es) = (Inl Timeout, d, es)"

definition recv_frame :: "alloc \<Rightarrow> frame_decoder \<Rightarrow> (io, runner_error, bytes) op" where
  "recv_frame A d io = (case recv_loop A d (io_in io) of (r, _, es) \<Rightarrow> (r, io\<lparr>io_in := es\<rparr>))"

section \<open>Running a handshake\<close>

record 'g handshake_success =
  success_write :: "'g gcm_key"
  success_read :: "'g gcm_key"
  success_chain :: "verified_chain option"

definition success_of :: "'g xx_outcome \<Rightarrow> 'g handshake_success" where
  "success_of out = \<lparr>success_write = write_cipher out, success_read = read_cipher out,
                     success_chain = server_cert_chain out\<rparr>"

text \<open>The last step of XX and of XXfallback: frame the ClientFinish, send it, derive the ciphers.\<close>

definition send_finish :: "bytes \<Rightarrow> (io, runner_error, unit) op" where
  "send_finish client_finish =
     obind (olift (map_err (\<lambda>_. TransportError) (encode_frame client_finish None))) transport_send"

definition run_xx_handshake ::
  "'g hs_env \<Rightarrow> alloc \<Rightarrow> key_pair \<Rightarrow> device \<Rightarrow> cert_policy \<Rightarrow> (io, runner_error, 'g handshake_success) op" where
  "run_xx_handshake H A e d policy =
     obind (olift (map_err Core (xx_new_with_cert_policy H e (dev_noise_key d) (dev_payload d) WA_CONN_HEADER policy))) (\<lambda>x.
     obind (send_first_handshake_message d (xx_build_client_hello H x)) (\<lambda>_.
     obind (recv_frame A (frame_decoder_new A)) (\<lambda>resp.
     case xx_read_server_hello_and_build_client_finish H resp x of
       (Inl err, _) \<Rightarrow> ofail (Core err)
     | (Inr client_finish, x) \<Rightarrow>
         obind (send_finish client_finish) (\<lambda>_.
         olift (map_res success_of (map_err Core (xx_finish H x)))))))"

text \<open>The second part of the state is \<open>fallback_taken\<close>.\<close>

definition run_ik_handshake ::
  "'g hs_env \<Rightarrow> alloc \<Rightarrow> key_pair \<Rightarrow> device \<Rightarrow> bytes \<Rightarrow> cert_policy \<Rightarrow> (io \<times> bool, runner_error, 'g handshake_success) op" where
  "run_ik_handshake H A e d server_static_pub policy =
     obind (olift (map_err Core (ik_new H e (dev_noise_key d) server_static_pub (dev_payload d) WA_CONN_HEADER))) (\<lambda>ik.
     case ik_build_client_hello H ik of
       (Inl err, _) \<Rightarrow> ofail (Core err)
     | (Inr client_hello, ik) \<Rightarrow>
     obind (on_fst (send_first_handshake_message d client_hello)) (\<lambda>_.
     obind (on_fst (recv_frame A (frame_decoder_new A))) (\<lambda>resp.
     case ik_read_server_hello H resp ik of
       Inl err \<Rightarrow> ofail (Core err)
     | Inr (Continue write read) \<Rightarrow>
         oret \<lparr>success_write = write, success_read = read, success_chain = None\<rparr>
     | Inr (Fallback inputs) \<Rightarrow>
         obind (\<lambda>(io, _). (Inr (), (io, True))) (\<lambda>_.
         obind (olift (map_err Core (from_ik_failure_with_cert_policy H inputs WA_CONN_HEADER policy))) (\<lambda>fb.
         case fallback_build_client_finish H fb of
           (Inl err, _) \<Rightarrow> ofail (Core err)
         | (Inr client_finish, fb) \<Rightarrow>
             obind (on_fst (send_finish client_finish)) (\<lambda>_.
             olift (map_res success_of (map_err Core (fallback_finish H fb)))))))))"

section \<open>A connection attempt\<close>

record client =
  cl_device :: device
  ik_handshake_failures :: u32

definition should_persist_cert_chain :: "device \<Rightarrow> bool" where
  "should_persist_cert_chain d = is_registered d"

datatype device_command = SetServerCertChain cached_chain | ClearServerCertChain

fun apply_command_to_device :: "device_command \<Rightarrow> device \<Rightarrow> device" where
  "apply_command_to_device (SetServerCertChain chain) d = d\<lparr>dev_cert_chain := Some chain\<rparr>"
| "apply_command_to_device ClearServerCertChain d = d\<lparr>dev_cert_chain := None\<rparr>"

definition run_selected ::
  "'g hs_env \<Rightarrow> alloc \<Rightarrow> key_pair \<Rightarrow> device \<Rightarrow> cert_policy \<Rightarrow> handshake_pattern \<Rightarrow> io \<Rightarrow>
   (runner_error, 'g handshake_success) result \<times> io \<times> bool" where
  "run_selected H A e d policy pattern io =
     (case pattern of
        Xx \<Rightarrow> (case run_xx_handshake H A e d policy io of (r, io) \<Rightarrow> (r, io, False))
      | Ik server_static_pub \<Rightarrow> run_ik_handshake H A e d server_static_pub policy (io, False))"

text \<open>
  One attempt: the ephemeral key pair \<open>e\<close> and the clock \<open>now\<close> are inputs, and the result comes with the
  client's state and the transport after it.
\<close>

definition negotiate ::
  "'g hs_env \<Rightarrow> alloc \<Rightarrow> key_pair \<Rightarrow> int \<Rightarrow> cert_policy \<Rightarrow> client \<Rightarrow> io \<Rightarrow>
   (runner_error, 'g gcm_key \<times> 'g gcm_key) result \<times> client \<times> io" where
  "negotiate H A e now policy c io =
     (let d = cl_device c;
          pattern = select_pattern d (ik_handshake_failures c) now policy;
          (result, io, fallback_taken) = run_selected H A e d policy pattern io
      in case result of
           Inr success \<Rightarrow>
             let d = (case success_chain success of
                        Some chain \<Rightarrow>
                          if should_persist_cert_chain d
                          then apply_command_to_device (SetServerCertChain (cached_from_verified chain)) d
                          else d
                      | None \<Rightarrow> d)
             in (Inr (success_write success, success_read success),
                 c\<lparr>cl_device := d, ik_handshake_failures := 0\<rparr>, io)
         | Inl e \<Rightarrow>
             if (case pattern of Ik _ \<Rightarrow> True | Xx \<Rightarrow> False) \<and> \<not> fallback_taken \<and> is_crypto_fatal e
             then (Inl e, c\<lparr>ik_handshake_failures := ik_handshake_failures c + 1,
                            cl_device := apply_command_to_device ClearServerCertChain d\<rparr>, io)
             else (Inl e, c, io))"

section \<open>The first frame\<close>

abbreviation arrivals :: "(bytes \<times> nat option) list \<Rightarrow> incoming list" where
  "arrivals reads \<equiv> map (\<lambda>(data, owned). DataReceived data owned) reads"

lemma recv_loop_first:
  assumes "first_frame (fd_buffer d) = None"
    and "first_frame (fd_buffer d @ concat (map fst reads)) = Some (p, rest)"
  shows "\<exists>k d' lost. k \<le> length reads \<and>
    recv_loop A d (arrivals reads @ es) = (Inr p, d', arrivals (drop k reads) @ es) \<and> fd_buffer d' = lost \<and>
    first_frame (fd_buffer d @ concat (map fst (take k reads))) = Some (p, lost) \<and>
    rest = lost @ concat (map fst (drop k reads))"
  using assms
proof (induction reads arbitrary: d)
  case Nil
  then show ?case by simp
next
  case (Cons rd reads)
  obtain data owned where rd: "rd = (data, owned)" by (cases rd)
  let ?d = "feed_owned A data owned d"
  obtain o' d' where o: "decode_frame A ?d = (o', d')" by fastforce
  show ?case
  proof (cases "first_frame (fd_buffer d @ data)")
    case None
    then have "o' = None" "fd_buffer d' = fd_buffer d @ data"
      using o decode_frame_first [of A ?d] by simp_all
    moreover obtain k d'' lost where "k \<le> length reads" "fd_buffer d'' = lost"
      "recv_loop A d' (arrivals reads @ es) = (Inr p, d'', arrivals (drop k reads) @ es)"
      "first_frame (fd_buffer d' @ concat (map fst (take k reads))) = Some (p, lost)"
      "rest = lost @ concat (map fst (drop k reads))"
      using Cons.IH [of d'] Cons.prems None \<open>fd_buffer d' = _\<close> rd by auto
    ultimately show ?thesis using o rd by (intro exI [of _ "Suc k"]) auto
  next
    case (Some fr)
    then obtain f r where fr: "first_frame (fd_buffer d @ data) = Some (f, r)" by (cases fr) auto
    from first_frame_append [OF this, of "concat (map fst reads)"] Cons.prems(2) rd
    have "p = f" "rest = r @ concat (map fst reads)" by simp_all
    moreover have "o' = Some f" "fd_buffer d' = r" using o fr decode_frame_first [of A ?d] by simp_all
    ultimately show ?thesis using o rd fr by (intro exI [of _ "Suc 0"]) auto
  qed
qed

text \<open>
  C38: However the server's first frame is cut into reads, the handshake receives exactly that frame, and
  stops reading there. Bytes of later frames that arrived in the same read as its end are then
  neither in the transport nor given to anyone: the decoder that holds them is dropped.
\<close>

theorem recv_frame_first:
  assumes "length p < FRAME_MAX_SIZE" and "concat (map fst reads) = frame p @ rest"
    and "io_in io = arrivals reads @ es"
  shows "\<exists>k lost. recv_frame A (frame_decoder_new A) io = (Inr p, io\<lparr>io_in := arrivals (drop k reads) @ es\<rparr>) \<and>
    concat (map fst (take k reads)) = frame p @ lost \<and> rest = lost @ concat (map fst (drop k reads))"
proof -
  have start: "fd_buffer (frame_decoder_new A) = []" by (simp add: frame_decoder_new_def)
  then have "first_frame (fd_buffer (frame_decoder_new A)) = None" by (simp add: first_frame_def)
  moreover have "first_frame (fd_buffer (frame_decoder_new A) @ concat (map fst reads)) = Some (p, rest)"
    using start assms(2) first_frame_frame [OF assms(1)] by simp
  ultimately obtain k d' lost where k: "recv_loop A (frame_decoder_new A) (arrivals reads @ es) =
      (Inr p, d', arrivals (drop k reads) @ es)" "rest = lost @ concat (map fst (drop k reads))"
    using recv_loop_first [of "frame_decoder_new A" reads p rest A es] by blast
  have "concat (map fst (take k reads)) @ concat (map fst (drop k reads)) = frame p @ rest"
    using assms(2) by (simp flip: concat_append map_append)
  with k(2) have "concat (map fst (take k reads)) = frame p @ lost" by (simp flip: append_assoc)
  with k assms(3) show ?thesis by (auto simp: recv_frame_def)
qed

theorem recv_frame_first_witness:
  "\<exists>k lost. recv_frame sample_alloc (frame_decoder_new sample_alloc)
      \<lparr>io_in = [DataReceived [0, 0] None, DataReceived [1, 9, 0, 0, 0] None], io_out = [], io_up = (\<lambda>_. True)\<rparr> =
      (Inr [9], \<lparr>io_in = arrivals (drop k [([0, 0], None), ([1, 9, 0, 0, 0], None)]), io_out = [], io_up = (\<lambda>_. True)\<rparr>) \<and>
    concat (map fst (take k [([0, 0], None :: nat option), ([1, 9, 0, 0, 0], None)])) = frame [9] @ lost"
proof -
  have f: "frame [9] = [0, 0, 1, 9]" by (simp add: frame_def)
  show ?thesis
    using recv_frame_first [of "[9]" "[([0, 0], None), ([1, 9, 0, 0, 0], None)]" "[0, 0, 0]"
        "\<lparr>io_in = [DataReceived [0, 0] None, DataReceived [1, 9, 0, 0, 0] None], io_out = [], io_up = (\<lambda>_. True)\<rparr>"
        "[]" sample_alloc] f
    by (fastforce simp: FRAME_MAX_SIZE_def)
qed

section \<open>Only signed chains are remembered\<close>

definition signed_chain :: "'g hs_env \<Rightarrow> verified_chain \<Rightarrow> bool" where
  "signed_chain H v \<longleftrightarrow> (\<exists>cert. chain_signed H cert (leaf_key v) v)"

lemma chain_signed_leaf: "chain_signed H cert key v \<Longrightarrow> leaf_key v = key"
  by (auto simp: chain_signed_def)

lemma verify_chain_trust:
  assumes "length key = 32" and "verify_chain H cert key policy = Inr (Trusted v)"
  shows "policy = Strict \<and> signed_chain H v"
proof (cases policy)
  case Strict
  with assms have "chain_signed H cert key v" by (auto intro: verify_chain_signed)
  then have "signed_chain H v" using chain_signed_leaf signed_chain_def by metis
  with Strict show ?thesis by simp
next
  case DangerSkipCertChainVerify
  with assms verify_chain_skip [of H cert key "Trusted v"] show ?thesis by simp
qed

lemma finish_xx_trust:
  "finish_xx_outcome H n c = Inr out \<Longrightarrow> server_cert_chain out = Some v \<Longrightarrow> c = Some (Trusted v)"
  by (auto simp: finish_xx_outcome_def bind_res_Inr_iff split: option.splits chain_acceptance.splits)

lemma read_hello_trust:
  assumes "read_hello_and_build_finish H e s payload policy response (n, c) = (Inr f, (n', Some (Trusted v)))"
  shows "policy = Strict \<and> signed_chain H v"
proof -
  obtain se sct cct where
    "process_xx_server_hello_into H e s payload se sct cct policy (n, c) = (Inr f, (n', Some (Trusted v)))"
    using read_hello_run [OF assms] by blast
  from process_xx_run [OF this] show ?thesis using verify_chain_trust by blast
qed

lemma op_case_Inr_iff:
  "(case p of (Inl e, _) \<Rightarrow> ofail (g e) | (Inr a, x) \<Rightarrow> k a x) s = (Inr b, s') \<longleftrightarrow>
     (\<exists>a x. p = (Inr a, x) \<and> k a x s = (Inr b, s'))"
  "(case i of Continue w r \<Rightarrow> m w r | Fallback f \<Rightarrow> n f) s = (Inr b, s') \<longleftrightarrow>
     (\<exists>w r. i = Continue w r \<and> m w r s = (Inr b, s')) \<or> (\<exists>f. i = Fallback f \<and> n f s = (Inr b, s'))"
  "olift q s = (Inr b, s') \<longleftrightarrow> q = Inr b \<and> s = s'"
  by (auto simp: olift_def split: prod.splits sum.splits ik_outcome.splits)

lemma run_xx_trust:
  assumes "run_xx_handshake H A e d policy io = (Inr s, io')" and "success_chain s = Some v"
  shows "policy = Strict \<and> signed_chain H v"
proof -
  from assms obtain x resp f x' out where
    x: "xx_new_with_cert_policy H e (dev_noise_key d) (dev_payload d) WA_CONN_HEADER policy = Inr x"
    and read: "xx_read_server_hello_and_build_client_finish H resp x = (Inr f, x')"
    and fin: "xx_finish H x' = Inr out" "server_cert_chain out = Some v"
    unfolding run_xx_handshake_def
    by (simp only: obind_Inr_iff op_case_Inr_iff map_res_Inr_iff map_err_Inr_iff) (auto simp: success_of_def)
  have "xx_chain x' = Some (Trusted v)" using finish_xx_trust fin by (auto simp: xx_finish_def)
  moreover have "xx_policy x = policy" using x by (auto simp: xx_new_with_cert_policy_def bind_res_Inr_iff)
  ultimately show ?thesis using xx_read_run [OF read] read_hello_trust by metis
qed

lemma run_ik_trust:
  assumes "run_ik_handshake H A e d key policy (io, t) = (Inr s, io')" and "success_chain s = Some v"
  shows "policy = Strict \<and> signed_chain H v"
proof -
  from assms obtain fb inputs f fb' out where
    fb: "from_ik_failure_with_cert_policy H inputs WA_CONN_HEADER policy = Inr fb"
    and build: "fallback_build_client_finish H fb = (Inr f, fb')"
    and fin: "fallback_finish H fb' = Inr out" "server_cert_chain out = Some v"
    unfolding run_ik_handshake_def
    by (simp only: obind_Inr_iff op_case_Inr_iff op_branch_Inr_iff map_res_Inr_iff map_err_Inr_iff)
       (auto simp: success_of_def)
  have chain: "fs_chain fb' = Some (Trusted v)" using finish_xx_trust fin by (auto simp: fallback_finish_def)
  have "fs_policy fb = policy" using fb by (auto simp: from_ik_failure_with_cert_policy_def bind_res_Inr_iff)
  with build chain show ?thesis
    by (auto simp: fallback_build_client_finish_def dest!: read_hello_trust split: prod.splits)
qed

text \<open>
  \<open>cache_ok H d\<close>: a chain the device holds as verified was signed up to the root. It holds of a new
  device, and of one whose cache predates the flag.
\<close>

definition cache_ok :: "'g hs_env \<Rightarrow> device \<Rightarrow> bool" where
  "cache_ok H d \<longleftrightarrow>
     (\<forall>ch. dev_cert_chain d = Some ch \<and> signature_verified ch \<longrightarrow> (\<exists>v. signed_chain H v \<and> ch = cached_from_verified v))"

lemma run_selected_trust:
  assumes "run_selected H A e d policy pattern io = (Inr s, io', t)" and "success_chain s = Some v"
  shows "policy = Strict \<and> signed_chain H v"
proof (cases pattern)
  case Xx
  with assms(1) have "run_xx_handshake H A e d policy io = (Inr s, io')"
    by (simp add: run_selected_def split: prod.splits)
  from run_xx_trust [OF this assms(2)] show ?thesis .
next
  case (Ik k)
  with assms(1) have "run_ik_handshake H A e d k policy (io, False) = (Inr s, (io', t))"
    by (simp add: run_selected_def)
  from run_ik_trust [OF this assms(2)] show ?thesis .
qed

lemma negotiate_cases:
  assumes "negotiate H A e now policy c io = (r, c', io')"
  obtains (failed) err where "r = Inl err" "c' = c"
  | (cleared) err k where "r = Inl err" "is_crypto_fatal err"
      "select_pattern (cl_device c) (ik_handshake_failures c) now policy = Ik k"
      "c' = c\<lparr>ik_handshake_failures := ik_handshake_failures c + 1,
              cl_device := (cl_device c)\<lparr>dev_cert_chain := None\<rparr>\<rparr>"
  | (kept) keys where "r = Inr keys" "cl_device c' = cl_device c" "ik_handshake_failures c' = 0"
  | (stored) keys v where "r = Inr keys" "policy = Strict" "signed_chain H v" "ik_handshake_failures c' = 0"
      "cl_device c' = (cl_device c)\<lparr>dev_cert_chain := Some (cached_from_verified v)\<rparr>"
proof -
  define pattern where "pattern = select_pattern (cl_device c) (ik_handshake_failures c) now policy"
  obtain r' io'' t where run: "run_selected H A e (cl_device c) policy pattern io = (r', io'', t)"
    by (metis prod_cases3)
  note n = assms [unfolded negotiate_def Let_def, folded pattern_def, unfolded run split_conv]
  show ?thesis
  proof (cases r')
    case (Inl err)
    show ?thesis
    proof (cases "(case pattern of Ik _ \<Rightarrow> True | Xx \<Rightarrow> False) \<and> \<not> t \<and> is_crypto_fatal err")
      case True
      then obtain k where "pattern = Ik k" by (cases pattern) auto
      with True n Inl show ?thesis by (intro cleared [of err k]) (simp_all add: pattern_def)
    next
      case False
      then have "(Inl err, c, io'') = (r, c', io')" using n unfolding Inl sum.case if_not_P [OF False] by simp
      then show ?thesis by (intro failed [of err]) simp_all
    qed
  next
    case (Inr s)
    define d' where "d' = (case success_chain s of None \<Rightarrow> cl_device c
      | Some chain \<Rightarrow> if should_persist_cert_chain (cl_device c)
                      then apply_command_to_device (SetServerCertChain (cached_from_verified chain)) (cl_device c)
                      else cl_device c)"
    from n Inr have out: "r = Inr (success_write s, success_read s)" "cl_device c' = d'" "ik_handshake_failures c' = 0"
      by (auto simp: d'_def)
    show ?thesis
    proof (cases "success_chain s \<noteq> None \<and> should_persist_cert_chain (cl_device c)")
      case True
      then obtain v where v: "success_chain s = Some v" by auto
      with True out(2) have "cl_device c' = (cl_device c)\<lparr>dev_cert_chain := Some (cached_from_verified v)\<rparr>"
        by (simp add: d'_def)
      with run_selected_trust [OF run [unfolded Inr] v] out show ?thesis by (intro stored [of _ v]) auto
    next
      case False
      then have "d' = cl_device c" by (auto simp: d'_def split: option.splits)
      with out show ?thesis by (intro kept) auto
    qed
  qed
qed

lemma cache_ok_negotiate:
  assumes "cache_ok H (cl_device c)" and "negotiate H A e now policy c io = (r, c', io')"
  shows "cache_ok H (cl_device c')"
  using assms(2)
proof (cases rule: negotiate_cases)
  case failed
  then show ?thesis using assms(1) by simp
next
  case cleared
  then show ?thesis by (simp add: cache_ok_def)
next
  case kept
  then show ?thesis using assms(1) by simp
next
  case stored
  then show ?thesis by (auto simp: cache_ok_def)
qed

lemma negotiate_bypass:
  assumes "negotiate H A e now DangerSkipCertChainVerify c io = (r, c', io')"
  shows "cl_device c' = cl_device c"
  using assms by (cases rule: negotiate_cases) (auto simp: select_pattern_def)

text \<open>A client's life: attempts one after the other, each with its key, clock, policy and transport.\<close>

fun attempts :: "'g hs_env \<Rightarrow> alloc \<Rightarrow> (key_pair \<times> int \<times> cert_policy \<times> io) list \<Rightarrow> client \<Rightarrow> client" where
  "attempts H A [] c = c"
| "attempts H A ((e, now, policy, io) # as) c = attempts H A as (fst (snd (negotiate H A e now policy c io)))"

lemma attempts_cache_ok: "cache_ok H (cl_device c) \<Longrightarrow> cache_ok H (cl_device (attempts H A as c))"
proof (induction H A as c rule: attempts.induct)
  case (2 H A e now policy io as c)
  obtain r c' io' where n: "negotiate H A e now policy c io = (r, c', io')" by (metis prod_cases3)
  with 2 cache_ok_negotiate [OF 2(2) n] show ?case by simp
qed simp

lemma attempts_bypass:
  "list_all (\<lambda>(e, now, policy, io). policy = DangerSkipCertChainVerify) as \<Longrightarrow>
   cl_device (attempts H A as c) = cl_device c"
proof (induction H A as c rule: attempts.induct)
  case (2 H A e now policy io as c)
  obtain r c' io' where n: "negotiate H A e now policy c io = (r, c', io')" by (metis prod_cases3)
  with 2 negotiate_bypass show ?case by auto
qed simp

lemma select_Ik:
  assumes "select_pattern d fails now policy = Ik k"
  obtains ch where "dev_cert_chain d = Some ch" "signature_verified ch" "cached_key (leaf ch) = k" "policy = Strict"
    "is_registered d" "fails = 0" "not_before (leaf ch) \<le> now" "now < not_after (leaf ch)"
    "not_before (intermediate ch) \<le> now" "now < not_after (intermediate ch)"
proof -
  have "fails = 0" if "\<not> 1 \<le> fails" using that by (simp add: not_le unsigned_eq_0_iff word_less_nat_alt)
  with assms that show thesis
    by (cases policy) (auto simp: select_pattern_def IK_FAILURE_THRESHOLD_def split: if_splits option.splits)
qed

text \<open>
  C6: Resumption rests on signatures only. Whatever a client goes through, any number of attempts under
  any policies, against any server and transport, if it then chooses IK, the policy is strict and
  the server key it resumes with is the leaf key of a chain that was signed up to the WhatsApp root
  and whose two certificates are valid at that moment. Attempts under the bypass policy leave the
  device as it was.
\<close>

theorem resume_needs_signed_chain:
  assumes "cache_ok H (cl_device c)" and "c' = attempts H A as c"
  shows "(select_pattern (cl_device c') (ik_handshake_failures c') now policy = Ik k \<longrightarrow>
           policy = Strict \<and>
           (\<exists>v. signed_chain H v \<and> leaf_key v = k \<and> leaf_not_before v \<le> now \<and> now < leaf_not_after v \<and>
                intermediate_not_before v \<le> now \<and> now < intermediate_not_after v)) \<and>
         (list_all (\<lambda>(e, now, policy, io). policy = DangerSkipCertChainVerify) as \<longrightarrow> cl_device c' = cl_device c)"
proof (intro conjI impI)
  assume "select_pattern (cl_device c') (ik_handshake_failures c') now policy = Ik k"
  then obtain ch where ch: "dev_cert_chain (cl_device c') = Some ch" "signature_verified ch" "cached_key (leaf ch) = k"
    "policy = Strict" "not_before (leaf ch) \<le> now" "now < not_after (leaf ch)"
    "not_before (intermediate ch) \<le> now" "now < not_after (intermediate ch)"
    by (rule select_Ik) blast
  have "cache_ok H (cl_device c')" using attempts_cache_ok [OF assms(1)] assms(2) by simp
  then obtain v where "signed_chain H v" "ch = cached_from_verified v" using ch(1,2) by (auto simp: cache_ok_def)
  with ch show "\<exists>v. signed_chain H v \<and> leaf_key v = k \<and> leaf_not_before v \<le> now \<and> now < leaf_not_after v \<and>
      intermediate_not_before v \<le> now \<and> now < intermediate_not_after v"
    by (auto simp: cached_from_verified_def)
next
  assume "select_pattern (cl_device c') (ik_handshake_failures c') now policy = Ik k"
  then show "policy = Strict" by (rule select_Ik)
next
  assume "list_all (\<lambda>(e, now, policy, io). policy = DangerSkipCertChainVerify) as"
  then show "cl_device c' = cl_device c" using attempts_bypass assms(2) by simp
qed

definition sample_verified :: verified_chain where
  "sample_verified =
     \<lparr>intermediate_key = replicate 32 7, intermediate_not_before = 10, intermediate_not_after = 20,
      leaf_key = replicate 32 9, leaf_not_before = 11, leaf_not_after = 30\<rparr>"

definition sample_device :: device where
  "sample_device =
     \<lparr>dev_pn = Some \<lparr>user = [49], server = Pn, agent = 0, device = 0, integrator = 0\<rparr>,
      dev_noise_key = sample_static, dev_payload = [8], dev_edge_routing = None,
      dev_cert_chain = Some (cached_from_verified sample_verified)\<rparr>"

definition sample_client :: client where
  "sample_client = \<lparr>cl_device = sample_device, ik_handshake_failures = 0\<rparr>"

lemma sample_signed: "signed_chain sample_hs sample_verified"
  unfolding signed_chain_def
  by (rule exI [of _ "[]"])
     (simp add: sample_verified_def chain_signed_def signed_by_def sample_hs_def sample_chain_def
        WA_CERT_PUB_KEY_def as_i64_or_0_def)

lemma sample_cache_ok: "cache_ok sample_hs (cl_device sample_client)"
  using sample_signed by (auto simp: cache_ok_def sample_client_def sample_device_def)

lemma sample_selects: "select_pattern sample_device 0 15 Strict = Ik (replicate 32 9)"
  by (simp add: select_pattern_def is_registered_def sample_device_def IK_FAILURE_THRESHOLD_def
      cached_from_verified_def sample_verified_def)

theorem resume_needs_signed_chain_witness:
  "select_pattern (cl_device (attempts sample_hs sample_alloc [] sample_client))
     (ik_handshake_failures (attempts sample_hs sample_alloc [] sample_client)) 15 Strict = Ik (replicate 32 9) \<and>
   (\<exists>v. signed_chain sample_hs v \<and> leaf_key v = replicate 32 9)"
  using resume_needs_signed_chain [OF sample_cache_ok, of _ sample_alloc "[]" 15 Strict "replicate 32 9"] sample_selects
  by (auto simp: sample_client_def)

section \<open>What a failed attempt changes\<close>


lemma ik_build_total:
  assumes ok: "env_ok (noise_prims H)" and hk: "hkdf_total (noise_prims H)" and wf: "noise_wf (ik_noise i)"
    and dh: "shared_secret H (private_key (ik_ephemeral i)) (ik_server_static i) = Inr es"
            "shared_secret H (private_key (ik_static i)) (ik_server_static i) = Inr ss"
  shows "\<exists>m i'. ik_build_client_hello H i = (Inr (handshake_message_to_vec H m), i')"
proof -
  obtain c1 c2 n' where "noise_run (noise_prims H) [Mix_Hash (ik_server_static i),
      Mix_Hash (public_key (ik_ephemeral i)), Mix_Key es, Send (public_key (ik_static i)), Mix_Key ss,
      Send (ik_payload i)] (ik_noise i) = (Inr [c1, c2], n')"
    using hello_run_total [OF ok hk wf] by blast
  then obtain n1 n2 n3 where "mix_key (noise_prims H) es (authenticate (noise_prims H)
      (public_key (ik_ephemeral i)) (authenticate (noise_prims H) (ik_server_static i) (ik_noise i))) = (Inr (), n1)"
      "noise_encrypt (noise_prims H) (public_key (ik_static i)) n1 = (Inr c1, n2)"
      "mix_key (noise_prims H) ss n2 = (Inr (), n3)" "noise_encrypt (noise_prims H) (ik_payload i) n3 = (Inr c2, n')"
    by (auto simp: obind_Inr_iff)
  then show ?thesis
    using dh by (simp add: ik_build_client_hello_def on_ik_def obind_def hs_authenticate_def hs_encrypt_def
        mix_shared_secret_def mix_into_key_def omap_err_def oret_def Let_def) blast
qed

definition sample_io :: io where
  "sample_io = \<lparr>io_in = [Connected, DataReceived [0, 0, 1, 9] None], io_out = [], io_up = (\<lambda>_. True)\<rparr>"

lemma sample_recv: "recv_frame sample_alloc (frame_decoder_new sample_alloc) (sample_io\<lparr>io_out := out\<rparr>) =
    (Inr [9], sample_io\<lparr>io_in := [], io_out := out\<rparr>)"
  by (simp add: recv_frame_def sample_io_def decode_frame_def feed_owned_def feed_def reserve_for_def
      frame_decoder_new_def CHUNK_SIZE_def FRAME_LENGTH_SIZE_def Let_def)

lemma sample_resume_fails:
  "\<exists>io'. negotiate sample_hs sample_alloc sample_ephemeral 15 Strict sample_client sample_io =
     (Inl (Core (ProtoDecode DecodeError)),
      sample_client\<lparr>ik_handshake_failures := 1, cl_device := sample_device\<lparr>dev_cert_chain := None\<rparr>\<rparr>, io')"
proof -
  obtain n0 where n0: "noise_state_new sample_noise NOISE_PATTERN_IK WA_CONN_HEADER = Inr n0"
    by (simp add: noise_state_new_def Let_def)
  define i where "i = \<lparr>ik_noise = n0, ik_ephemeral = sample_ephemeral, ik_static = sample_static,
      ik_server_static = replicate 32 9, ik_payload = [8]\<rparr>"
  have np: "noise_prims sample_hs = sample_noise" by (simp add: sample_hs_def)
  have new: "ik_new sample_hs sample_ephemeral sample_static (replicate 32 9) [8] WA_CONN_HEADER = Inr i"
    using n0 by (simp add: ik_new_def hs_new_def np i_def)
  have dh: "\<exists>x. shared_secret sample_hs k (replicate 32 9) = Inr x" if "length k = 32" for k
    using that by (simp add: shared_secret_def private_key_deserialize_def from_djb_public_key_bytes_def
        calculate_agreement_def sample_hs_def)
  obtain es ss where secrets: "shared_secret sample_hs (private_key (ik_ephemeral i)) (ik_server_static i) = Inr es"
      "shared_secret sample_hs (private_key (ik_static i)) (ik_server_static i) = Inr ss"
    using dh [of "replicate 32 2"] dh [of "replicate 32 5"] by (auto simp: i_def sample_ephemeral_def sample_static_def)
  have pre: "env_ok (noise_prims sample_hs)" "hkdf_total (noise_prims sample_hs)" "noise_wf (ik_noise i)"
    using wf_new [OF sample_noise_ok n0] sample_noise_ok sample_hkdf_total by (simp_all add: np i_def)
  obtain i' where build: "ik_build_client_hello sample_hs i = (Inr [], i')"
    using ik_build_total [OF pre secrets] by (auto simp: sample_hs_def)
  have send: "send_first_handshake_message sample_device [] sample_io = (Inr (), sample_io\<lparr>io_out := [WA_CONN_HEADER @ frame []]\<rparr>)"
    by (simp add: send_first_handshake_message_def build_handshake_header_def sample_device_def obind_def olift_def
        encode_frame_eq FRAME_MAX_SIZE_def transport_send_def sample_io_def)
  have hello: "ik_read_server_hello sample_hs [9] i' = Inl (ProtoDecode DecodeError)"
    by (simp add: ik_read_server_hello_def parse_server_hello_body_def sample_hs_def)
  have "dev_noise_key sample_device = sample_static" "dev_payload sample_device = [8]"
    by (simp_all add: sample_device_def)
  then have "run_ik_handshake sample_hs sample_alloc sample_ephemeral sample_device (replicate 32 9) Strict (sample_io, False) =
      (Inl (Core (ProtoDecode DecodeError)), (sample_io\<lparr>io_in := [], io_out := [WA_CONN_HEADER @ frame []]\<rparr>, False))"
    using new build send sample_recv hello
    by (simp add: run_ik_handshake_def obind_def olift_def on_fst_def ofail_def)
  then show ?thesis
    by (simp add: negotiate_def sample_client_def sample_selects run_selected_def)
qed


end
