(* ===== verification/Noise_Socket.thy ===== *)
theory Noise_Socket
  imports Noise_State Framing "HOL-Library.Multiset"
begin

text \<open>
  The encrypted socket (\<open>wacore/src/socket/noise_socket.rs\<close>): the sender task that owns the write
  counter, packs queued stanzas into batches, seals and frames each, and answers every waiting
  caller; and the read side, which opens frames in order. Jobs are the list of everything that is
  ever enqueued before the channel closes. What the task cannot decide is an input of each round:
  how many queued jobs had arrived when it looked, whether the write succeeded, the buffer's
  capacity and whether the queue was empty afterwards, and whether the frame tap was enabled.
\<close>

section \<open>Framing one plaintext\<close>

definition INLINE_ENCRYPT_THRESHOLD :: nat where "INLINE_ENCRYPT_THRESHOLD = 16 * 1024"
definition SOCKET_TAG_LEN :: nat where "SOCKET_TAG_LEN = 16"
definition MAX_BATCH_FRAMES :: nat where "MAX_BATCH_FRAMES = 16"
definition MAX_BATCH_WIRE_BYTES :: nat where "MAX_BATCH_WIRE_BYTES = 64 * 1024"
definition OUT_BUF_IDLE_CAPACITY :: nat where "OUT_BUF_IDLE_CAPACITY = 4096"
definition SMALL_BATCHES_BEFORE_SHRINK :: nat where "SMALL_BATCHES_BEFORE_SHRINK = 32"

datatype send_error =
    SendCrypto noise_error
  | SendFraming frame_error
  | SendTransport
  | SendJoin
  | SendChannelClosed
  | SendPoisoned

fun is_transport_unavailable :: "send_error \<Rightarrow> bool" where
  "is_transport_unavailable SendTransport = True"
| "is_transport_unavailable SendChannelClosed = True"
| "is_transport_unavailable SendPoisoned = True"
| "is_transport_unavailable _ = False"

definition frame_wire_len :: "nat \<Rightarrow> nat" where
  "frame_wire_len plaintext_len = plaintext_len + SOCKET_TAG_LEN + FRAME_LENGTH_SIZE"

text \<open>
  \<open>FrameBody\<close> shows the cipher the buffer from \<open>base\<close> on; what it does to that view is done to the tail.
\<close>

definition on_frame_body :: "nat \<Rightarrow> (bytes \<Rightarrow> ('e, unit) result \<times> bytes) \<Rightarrow> bytes \<Rightarrow> ('e, unit) result \<times> bytes" where
  "on_frame_body base f out = (case f (drop base out) of (r, body) \<Rightarrow> (r, take base out @ body))"

text \<open>The result, the write counter and the buffer after the call.\<close>

definition encrypt_frame_into ::
  "'g noise_env \<Rightarrow> 'g gcm_key \<Rightarrow> u32 \<Rightarrow> bytes \<Rightarrow> bytes \<Rightarrow> (send_error, nat) result \<times> u32 \<times> bytes" where
  "encrypt_frame_into E write_key write_counter plaintext out_buf =
     (let counter = write_counter; before = length out_buf in
      if counter = - 1 then (Inl (SendCrypto CounterExhausted), write_counter, out_buf)
      else if length plaintext \<le> INLINE_ENCRYPT_THRESHOLD then
        let body_len = length plaintext + SOCKET_TAG_LEN in
        case append_frame_header_into body_len None out_buf of
          (Inl e, out_buf) \<Rightarrow> (Inl (SendFraming e), write_counter, out_buf)
        | (Inr _, out_buf) \<Rightarrow>
            let base = length out_buf; out_buf = out_buf @ plaintext in
            case on_frame_body base (encrypt_in_place_with_counter E write_key counter) out_buf of
              (Inl e, out_buf) \<Rightarrow> (Inl (SendCrypto e), write_counter, take before out_buf)
            | (Inr _, out_buf) \<Rightarrow>
                if length out_buf - base \<noteq> body_len
                then (Inl (SendCrypto (Encrypt BackendFailed)), write_counter, take before out_buf)
                else (Inr (length out_buf - before), counter + 1, out_buf)
      else
        case encrypt_with_counter E write_key counter plaintext of
          Inl e \<Rightarrow> (Inl (SendCrypto e), write_counter, out_buf)
        | Inr ciphertext \<Rightarrow>
            case append_frame_into ciphertext None out_buf of
              (Inl e, out_buf) \<Rightarrow> (Inl (SendFraming e), write_counter, out_buf)
            | (Inr _, out_buf) \<Rightarrow> (Inr (length out_buf - before), counter + 1, out_buf))"

section \<open>The sender task\<close>

text \<open>
  A job is known by the channel its answer goes to. \<open>observed\<close> says whether a send observer came with
  it, \<open>tapped\<close> what the frame tap answered when the job was sealed.
\<close>

record send_job =
  response_tx :: nat
  plaintext :: bytes
  observed :: bool
  tapped :: bool

datatype sender_event =
    Sending nat
  | Wrote bytes
  | WriteFailed bytes
  | DisconnectTransport
  | Sent nat
  | Reply nat "(send_error, unit) result"
  | FrameSent nat
  | Published bytes

record round_input =
  ready :: nat
  write_ok :: bool
  buffer_capacity :: nat
  queue_empty :: bool
  tap_enabled :: bool

record sender =
  write_counter :: u32
  poisoned :: bool
  carry_over :: "send_job option"
  out_buf_grown :: bool
  small_batches :: nat

definition sender_start :: sender where
  "sender_start = \<lparr>write_counter = 0, poisoned = False, carry_over = None, out_buf_grown = False, small_batches = 0\<rparr>"

text \<open>The verdict and the two fields of the burst tracking.\<close>

definition should_release_batch_buffer :: "nat \<Rightarrow> nat \<Rightarrow> bool \<Rightarrow> bool \<Rightarrow> nat \<Rightarrow> bool \<times> bool \<times> nat" where
  "should_release_batch_buffer batch_wire_len capacity queue_drained grown small =
     (let grown = (grown \<or> batch_wire_len > OUT_BUF_IDLE_CAPACITY \<or> capacity > OUT_BUF_IDLE_CAPACITY) in
      if grown \<and> queue_drained then (True, False, 0)
      else if batch_wire_len > OUT_BUF_IDLE_CAPACITY then (False, grown, 0)
      else if \<not> grown \<or> batch_wire_len = 0 then (False, grown, small)
      else let small = small + 1 in
           if small < SMALL_BATCHES_BEFORE_SHRINK then (False, grown, small)
           else (True, False, 0))"

record batch =
  b_counter :: u32
  b_buf :: bytes
  b_waiters :: "(send_job \<times> nat) list"
  b_failure :: "(send_job \<times> send_error) option"
  b_carry :: "send_job option"
  b_queue :: "send_job list"

definition batch_wire_len :: "(send_job \<times> nat) list \<Rightarrow> nat" where
  "batch_wire_len waiters = sum_list (map snd waiters)"

text \<open>
  The inner loop: seal the job, then take the next one that has arrived, \<open>ready\<close> of them at most,
  unless a ceiling is reached or the next frame would cross it.
\<close>

fun pack_batch ::
  "'g noise_env \<Rightarrow> 'g gcm_key \<Rightarrow> nat \<Rightarrow> send_job \<Rightarrow> send_job list \<Rightarrow> u32 \<Rightarrow> bytes \<Rightarrow> (send_job \<times> nat) list \<Rightarrow> batch" where
  "pack_batch E k rdy job queue counter out_buf waiters =
     (case encrypt_frame_into E k counter (plaintext job) out_buf of
        (Inl err, counter, out_buf) \<Rightarrow>
          \<lparr>b_counter = counter, b_buf = out_buf, b_waiters = waiters, b_failure = Some (job, err),
           b_carry = None, b_queue = queue\<rparr>
      | (Inr wire_len, counter, out_buf) \<Rightarrow>
          let waiters = waiters @ [(job, wire_len)];
              stop = (\<lambda>carry queue. \<lparr>b_counter = counter, b_buf = out_buf, b_waiters = waiters,
                        b_failure = None, b_carry = carry, b_queue = queue\<rparr>)
          in if length waiters \<ge> MAX_BATCH_FRAMES \<or> batch_wire_len waiters \<ge> MAX_BATCH_WIRE_BYTES
             then stop None queue
             else case (rdy, queue) of
                    (Suc rdy, next # queue) \<Rightarrow>
                      if waiters \<noteq> [] \<and>
                         batch_wire_len waiters + frame_wire_len (length (plaintext next)) > MAX_BATCH_WIRE_BYTES
                      then stop (Some next) queue
                      else pack_batch E k rdy next queue counter out_buf waiters
                  | _ \<Rightarrow> stop None queue)"

declare pack_batch.simps [simp del]

text \<open>The flush: one write of the packed frames, then the answers.\<close>

definition flush_batch :: "round_input \<Rightarrow> batch \<Rightarrow> sender_event list \<times> bool" where
  "flush_batch i b =
     (let waiters = b_waiters b;
          sending = map (\<lambda>(j, _). Sending (response_tx j)) (filter (\<lambda>(j, _). observed j) waiters);
          delivered =
            map (\<lambda>(_, n). FrameSent n) waiters @
            concat (map (\<lambda>(j, _). (if observed j then [Sent (response_tx j)] else []) @ [Reply (response_tx j) (Inr ())]) waiters) @
            (if tap_enabled i then map (\<lambda>(j, _). Published (plaintext j)) (filter (\<lambda>(j, _). tapped j) waiters) else [])
      in if b_buf b = [] then (delivered, False)
         else if write_ok i then (sending @ [Wrote (b_buf b)] @ delivered, False)
         else (sending @ [WriteFailed (b_buf b), DisconnectTransport] @
               map (\<lambda>(j, _). Reply (response_tx j) (Inl SendTransport)) waiters, True))"

text \<open>One round of the outer loop, with the job it starts from.\<close>

definition sender_round ::
  "'g noise_env \<Rightarrow> 'g gcm_key \<Rightarrow> round_input \<Rightarrow> send_job \<Rightarrow> send_job list \<Rightarrow> sender \<Rightarrow>
   sender_event list \<times> sender \<times> send_job list" where
  "sender_round E k i first_job queue s =
     (if poisoned s then ([Reply (response_tx first_job) (Inl SendPoisoned)], s\<lparr>carry_over := None\<rparr>, queue)
      else
        let b = pack_batch E k (ready i) first_job queue (write_counter s) [] [];
            (events, failed) = flush_batch i b;
            events = events @ (case b_failure b of Some (j, err) \<Rightarrow> [Reply (response_tx j) (Inl err)] | None \<Rightarrow> []);
            queue_drained = (b_carry b = None \<and> queue_empty i);
            (release, grown, small) =
              should_release_batch_buffer (batch_wire_len (b_waiters b)) (buffer_capacity i) queue_drained
                (out_buf_grown s) (small_batches s)
        in (events,
            s\<lparr>write_counter := b_counter b, poisoned := failed, carry_over := b_carry b,
              out_buf_grown := grown, small_batches := small\<rparr>,
            b_queue b))"

lemma pack_batch_queue:
  "length (b_queue (pack_batch E k rdy job queue c buf ws)) +
   (if b_carry (pack_batch E k rdy job queue c buf ws) = None then 0 else 1) \<le> length queue"
  by (induction E k rdy job queue c buf ws rule: pack_batch.induct)
     (subst (1 2) pack_batch.simps, fastforce simp: Let_def split: prod.splits sum.splits nat.splits list.splits)

lemma sender_round_shrinks:
  assumes "sender_round E k i j queue s = (ev, s', queue')"
  shows "length queue' + (if carry_over s' = None then 0 else 1) \<le> length queue"
  using assms pack_batch_queue [of E k "ready i" j queue "write_counter s" "[]" "[]"]
  by (auto simp: sender_round_def Let_def split: if_splits prod.splits)

text \<open>
  The task runs until the channel is closed and drained. \<open>env n\<close> is the input of its round \<open>n\<close>.
\<close>

function sender_task ::
  "'g noise_env \<Rightarrow> 'g gcm_key \<Rightarrow> (nat \<Rightarrow> round_input) \<Rightarrow> nat \<Rightarrow> send_job list \<Rightarrow> sender \<Rightarrow> sender_event list" where
  "sender_task E k env n queue s =
     (case (carry_over s, queue) of
        (None, []) \<Rightarrow> []
      | (Some j, queue) \<Rightarrow>
          (case sender_round E k (env n) j queue (s\<lparr>carry_over := None\<rparr>) of
             (ev, s, queue) \<Rightarrow> ev @ sender_task E k env (Suc n) queue s)
      | (None, j # queue) \<Rightarrow>
          (case sender_round E k (env n) j queue (s\<lparr>carry_over := None\<rparr>) of
             (ev, s, queue) \<Rightarrow> ev @ sender_task E k env (Suc n) queue s))"
  by pat_completeness auto
termination
  by (relation "measure (\<lambda>(E, k, env, n, queue, s). length queue + (if carry_over s = None then 0 else 1))")
     (auto dest!: sender_round_shrinks [OF sym] split: if_splits)

declare sender_task.simps [simp del]

section \<open>The read side\<close>

datatype socket_error = SocketClosed | Io | Cipher noise_error | Marshal

definition decrypt_frame :: "'g noise_env \<Rightarrow> 'g gcm_key \<Rightarrow> bytes \<Rightarrow> (u32, socket_error, bytes) op" where
  "decrypt_frame E read_key ciphertext counter =
     (if counter = - 1 then (Inl (Cipher CounterExhausted), counter)
      else case decrypt_in_place_with_counter E read_key counter ciphertext of
             (Inl e, _) \<Rightarrow> (Inl (Cipher e), counter)
           | (Inr _, pt) \<Rightarrow> (Inr pt, counter + 1))"

section \<open>The channel between the two ends\<close>

text \<open>
  What the socket needs of its cipher: opening under a counter accepts exactly what sealing under that
  counter produced. The laws of the channel follow once and for all.
\<close>

locale sealed_channel =
  fixes ok :: "'k \<Rightarrow> bool"
    and seal_at :: "'k \<Rightarrow> u32 \<Rightarrow> bytes \<Rightarrow> bytes"
    and open_at :: "'k \<Rightarrow> u32 \<Rightarrow> bytes \<Rightarrow> bytes option"
  assumes open_at_iff: "ok k \<Longrightarrow> open_at k n c = Some p \<longleftrightarrow> c = seal_at k n p"
begin

lemma open_seal: "ok k \<Longrightarrow> open_at k n (seal_at k n p) = Some p"
  by (simp add: open_at_iff)

lemma seal_inject: "ok k \<Longrightarrow> seal_at k n p = seal_at k n q \<Longrightarrow> p = q"
  by (metis open_seal option.inject)

lemma open_sealed: "ok k \<Longrightarrow> open_at k n c \<noteq> None \<Longrightarrow> \<exists>p. c = seal_at k n p"
  by (auto simp: open_at_iff)

end

definition cipher_seal :: "'g noise_env \<Rightarrow> 'g gcm_key \<Rightarrow> u32 \<Rightarrow> bytes \<Rightarrow> bytes" where
  "cipher_seal E k n p = snd (encrypt_in_place_with_counter E k n p)"

definition cipher_open :: "'g noise_env \<Rightarrow> 'g gcm_key \<Rightarrow> u32 \<Rightarrow> bytes \<Rightarrow> bytes option" where
  "cipher_open E k n c = (case decrypt_in_place_with_counter E k n c of (Inr _, p) \<Rightarrow> Some p | (Inl _, _) \<Rightarrow> None)"

lemma gcm_key_setup_iv: "\<exists>st. gcm_key_setup P k (generate_iv n) [] = Inr st"
  by (simp add: gcm_key_setup_def ctr_new_def NONCE_SIZE_def AES_BLOCK_SIZE_def split: prod.splits)

lemma cipher_seal_eq:
  "encrypt_in_place_with_counter E k n p = (Inr (), cipher_seal E k n p)"
  "encrypt_with_counter E k n p = Inr (cipher_seal E k n p)"
  using gcm_key_setup_iv [of "gcm E" k n]
  by (auto simp: encrypt_in_place_with_counter_def encrypt_with_counter_def cipher_seal_def
      aead_encrypt_in_place_def encrypt_buffer_eq)

lemma length_cipher_seal:
  assumes "prims_ok (gcm E)"
  shows "length (cipher_seal E k n p) = length p + 16"
proof -
  obtain st where st: "gcm_key_setup (gcm E) k (generate_iv n) [] = Inr st" using gcm_key_setup_iv by blast
  then show ?thesis
    using length_seal [OF assms gcm_key_setup_pad16 [OF st]]
    by (simp add: cipher_seal_def encrypt_in_place_with_counter_def aead_encrypt_in_place_def encrypt_buffer_eq TAG_SIZE_def)
qed

lemma cipher_open_iff:
  assumes "prims_ok (gcm E)"
  shows "cipher_open E k n c = Some p \<longleftrightarrow> c = cipher_seal E k n p"
proof -
  obtain st where st: "gcm_key_setup (gcm E) k (generate_iv n) [] = Inr st" using gcm_key_setup_iv by blast
  have "cipher_open E k n c = Some p \<longleftrightarrow> decrypt_buffer (gcm E) (Inr st) c = (Inr (), p)"
    by (auto simp: cipher_open_def decrypt_in_place_with_counter_def aead_decrypt_in_place_def st
        split: prod.splits sum.splits)
  also have "\<dots> \<longleftrightarrow> c = seal (gcm E) st p"
    using unseal_iff [OF assms gcm_key_setup_pad16 [OF st]] by (simp add: decrypt_buffer_Inr_iff)
  also have "seal (gcm E) st p = cipher_seal E k n p"
    by (simp add: cipher_seal_def encrypt_in_place_with_counter_def aead_encrypt_in_place_def encrypt_buffer_eq st)
  finally show ?thesis .
qed

interpretation transport: sealed_channel
  "\<lambda>(E, k). prims_ok (gcm E)" "\<lambda>(E, k). cipher_seal E k" "\<lambda>(E, k). cipher_open E k"
  by unfold_locales (auto simp: cipher_open_iff)

lemma decrypt_frame_seal:
  assumes "prims_ok (gcm E)" and "n \<noteq> - 1"
  shows "decrypt_frame E k (cipher_seal E k n p) n = (Inr p, n + 1)"
proof -
  have "cipher_open E k n (cipher_seal E k n p) = Some p"
    using transport.open_seal [of "(E, k)" n p] assms(1) by simp
  then show ?thesis
    using assms(2) by (auto simp: decrypt_frame_def cipher_open_def split: prod.splits sum.splits)
qed

section \<open>One frame\<close>

lemma header_then_body:
  "append_frame_header_into n None buf =
     (if n \<ge> FRAME_MAX_SIZE then (Inl (FrameTooLarge n), buf)
      else (Inr (), buf @ take 3 (frame (replicate n 0))))"
  by (simp add: append_frame_header_into_def frame_def Let_def)

lemma frame_header: "frame p = take 3 (frame (replicate (length p) 0)) @ p"
  by (simp add: frame_def Let_def)

lemma length_frame: "length (frame p) = 3 + length p"
  by (simp add: frame_def Let_def)

lemma encrypt_frame_into_eq:
  assumes ok: "prims_ok (gcm E)"
  shows "encrypt_frame_into E k c p buf =
     (if c = - 1 then (Inl (SendCrypto CounterExhausted), c, buf)
      else if length p + 16 < FRAME_MAX_SIZE
      then (Inr (frame_wire_len (length p)), c + 1, buf @ frame (cipher_seal E k c p))
      else (Inl (SendFraming (FrameTooLarge (length p + 16))), c, buf))"
proof -
  have hdr: "take 3 (frame (replicate (length p + 16) 0)) @ cipher_seal E k c p = frame (cipher_seal E k c p)"
    using frame_header [of "cipher_seal E k c p"] length_cipher_seal [OF ok] by simp
  show ?thesis
  proof (cases "length p \<le> INLINE_ENCRYPT_THRESHOLD")
    case True
    then show ?thesis
      using hdr length_cipher_seal [OF ok, of k c p]
      by (auto simp: encrypt_frame_into_def Let_def SOCKET_TAG_LEN_def header_then_body on_frame_body_def
          cipher_seal_eq frame_wire_len_def FRAME_LENGTH_SIZE_def length_frame)
  next
    case False
    then show ?thesis
      using length_cipher_seal [OF ok, of k c p]
      by (auto simp: encrypt_frame_into_def Let_def SOCKET_TAG_LEN_def append_frame_into_def header_then_body
          cipher_seal_eq frame_wire_len_def FRAME_LENGTH_SIZE_def length_frame hdr)
  qed
qed

section \<open>One batch\<close>

text \<open>The ciphertexts of successive plaintexts, from a counter on.\<close>

fun seals :: "'g noise_env \<Rightarrow> 'g gcm_key \<Rightarrow> u32 \<Rightarrow> bytes list \<Rightarrow> bytes list" where
  "seals E k c [] = []"
| "seals E k c (p # ps) = cipher_seal E k c p # seals E k (c + 1) ps"

lemma seals_append: "seals E k c (ps @ qs) = seals E k c ps @ seals E k (c + of_nat (length ps)) qs"
  by (induction ps arbitrary: c) (simp_all add: add.assoc)

definition opt_list :: "'a option \<Rightarrow> 'a list" where
  "opt_list x = (case x of None \<Rightarrow> [] | Some a \<Rightarrow> [a])"

lemma opt_list_simps [simp]: "opt_list None = []" "opt_list (Some a) = [a]"
  by (simp_all add: opt_list_def)

lemma pack_batch_cases:
  obtains (fail) err c' buf' where "encrypt_frame_into E k c (plaintext job) buf = (Inl err, c', buf')"
      "pack_batch E k rdy job queue c buf ws = \<lparr>b_counter = c', b_buf = buf', b_waiters = ws,
         b_failure = Some (job, err), b_carry = None, b_queue = queue\<rparr>"
  | (stop) n c' buf' carry queue' where "encrypt_frame_into E k c (plaintext job) buf = (Inr n, c', buf')"
      "queue = opt_list carry @ queue'"
      "pack_batch E k rdy job queue c buf ws = \<lparr>b_counter = c', b_buf = buf', b_waiters = ws @ [(job, n)],
         b_failure = None, b_carry = carry, b_queue = queue'\<rparr>"
  | (go) n c' buf' rdy' nx queue' where "encrypt_frame_into E k c (plaintext job) buf = (Inr n, c', buf')"
      "rdy = Suc rdy'" "queue = nx # queue'"
      "pack_batch E k rdy job queue c buf ws = pack_batch E k rdy' nx queue' c' buf' (ws @ [(job, n)])"
proof -
  obtain r c' buf' where r: "encrypt_frame_into E k c (plaintext job) buf = (r, c', buf')" by (metis prod_cases3)
  note unfolded = pack_batch.simps [of E k rdy job queue c buf ws, unfolded r split_conv Let_def]
  show thesis
  proof (cases r)
    case (Inl err)
    with r unfolded show ?thesis by (intro fail [of err c' buf']) simp_all
  next
    case (Inr n)
    note enc = r [unfolded Inr]
    show ?thesis
    proof (cases "MAX_BATCH_FRAMES \<le> length (ws @ [(job, n)]) \<or> MAX_BATCH_WIRE_BYTES \<le> batch_wire_len (ws @ [(job, n)])")
      case True
      with unfolded Inr show ?thesis by (intro stop [OF enc, of None queue]) auto
    next
      case below: False
      show ?thesis
      proof (cases "\<exists>rdy' nx queue'. rdy = Suc rdy' \<and> queue = nx # queue'")
        case True
        then obtain rdy' nx queue' where q: "rdy = Suc rdy'" "queue = nx # queue'" by blast
        show ?thesis
        proof (cases "batch_wire_len (ws @ [(job, n)]) + frame_wire_len (length (plaintext nx)) > MAX_BATCH_WIRE_BYTES")
          case True
          with unfolded Inr below q show ?thesis by (intro stop [OF enc, of "Some nx" queue']) simp_all
        next
          case False
          with unfolded Inr below q show ?thesis by (intro go [OF enc q]) simp
        qed
      next
        case False
        with unfolded Inr below show ?thesis
          by (intro stop [OF enc, of None queue]) (auto split: nat.splits list.splits)
      qed
    qed
  qed
qed

text \<open>No job is lost, doubled or reordered by packing, whatever the cipher does.\<close>

definition batch_jobs :: "batch \<Rightarrow> send_job list" where
  "batch_jobs b = map fst (b_waiters b) @ opt_list (map_option fst (b_failure b)) @ opt_list (b_carry b) @ b_queue b"

lemma pack_batch_jobs: "batch_jobs (pack_batch E k rdy job queue c buf ws) = map fst ws @ job # queue"
proof (induction rdy arbitrary: job queue c buf ws rule: less_induct)
  case (less rdy)
  show ?case
  proof (cases rule: pack_batch_cases [of E k c job buf rdy queue ws])
    case (go n c' buf' rdy' nx queue')
    then show ?thesis using less [of rdy' nx queue' c' buf' "ws @ [(job, n)]"] by simp
  qed (simp_all add: batch_jobs_def)
qed

lemma encrypt_frame_into_Inr:
  assumes "prims_ok (gcm E)" and "encrypt_frame_into E k c p buf = (Inr n, c', buf')"
  shows "n = frame_wire_len (length p)" "c' = c + 1" "buf' = buf @ frame (cipher_seal E k c p)"
    "length p + 16 < FRAME_MAX_SIZE" "unat c' = Suc (unat c)"
  using assms by (auto simp: encrypt_frame_into_eq unat_next split: if_splits)

lemma encrypt_frame_into_Inl:
  assumes "prims_ok (gcm E)" and "encrypt_frame_into E k c p buf = (Inl e, c', buf')"
  shows "c' = c" "buf' = buf"
  using assms by (auto simp: encrypt_frame_into_eq split: if_splits)

text \<open>\<open>sealed_batch E k c buf ws js b\<close>: the batch \<open>b\<close> is \<open>buf\<close> and \<open>ws\<close> extended by the frames of \<open>js\<close>.\<close>

definition sealed_batch ::
  "'g noise_env \<Rightarrow> 'g gcm_key \<Rightarrow> u32 \<Rightarrow> bytes \<Rightarrow> (send_job \<times> nat) list \<Rightarrow> send_job list \<Rightarrow> batch \<Rightarrow> bool" where
  "sealed_batch E k c buf ws js b \<longleftrightarrow>
     b_waiters b = ws @ map (\<lambda>j. (j, frame_wire_len (length (plaintext j)))) js \<and>
     b_buf b = buf @ concat (map frame (seals E k c (map plaintext js))) \<and>
     b_counter b = c + of_nat (length js) \<and> unat c + length js < 2 ^ 32 \<and>
     list_all (\<lambda>j. length (plaintext j) + 16 < FRAME_MAX_SIZE) js"

lemma pack_batch_sealed:
  assumes ok: "prims_ok (gcm E)"
  shows "\<exists>js. sealed_batch E k c buf ws js (pack_batch E k rdy job queue c buf ws)"
proof (induction rdy arbitrary: job queue c buf ws rule: less_induct)
  case (less rdy)
  have bound: "unat c < 2 ^ 32" for c :: u32 using unsigned_less [of c] by simp
  show ?case
  proof (cases rule: pack_batch_cases [of E k c job buf rdy queue ws])
    case (fail err c' buf')
    with encrypt_frame_into_Inl [OF ok fail(1)] bound [of c] show ?thesis
      by (intro exI [of _ "[]"]) (simp add: sealed_batch_def)
  next
    case (stop n c' buf' carry queue')
    with encrypt_frame_into_Inr [OF ok stop(1)] bound [of c'] show ?thesis
      by (intro exI [of _ "[job]"]) (simp add: sealed_batch_def)
  next
    case (go n c' buf' rdy' nx queue')
    note enc = encrypt_frame_into_Inr [OF ok go(1)]
    obtain js where "sealed_batch E k c' buf' (ws @ [(job, n)]) js (pack_batch E k rdy' nx queue' c' buf' (ws @ [(job, n)]))"
      using less [of rdy' c' buf' "ws @ [(job, n)]" nx queue'] go(2) by auto
    with go(4) enc show ?thesis
      by (intro exI [of _ "job # js"]) (simp add: sealed_batch_def add.assoc)
  qed
qed

section \<open>A run of the sender\<close>

text \<open>The answers given, the payloads the transport took, and all it was handed, in order.\<close>

definition replies :: "sender_event list \<Rightarrow> (nat \<times> (send_error, unit) result) list" where
  "replies ev = concat (map (\<lambda>e. case e of Reply i r \<Rightarrow> [(i, r)] | _ \<Rightarrow> []) ev)"

definition wrote :: "sender_event list \<Rightarrow> bytes list" where
  "wrote ev = concat (map (\<lambda>e. case e of Wrote b \<Rightarrow> [b] | _ \<Rightarrow> []) ev)"

definition handed :: "sender_event list \<Rightarrow> bytes list" where
  "handed ev = concat (map (\<lambda>e. case e of Wrote b \<Rightarrow> [b] | WriteFailed b \<Rightarrow> [b] | _ \<Rightarrow> []) ev)"

lemma trace_simps [simp]:
  "replies [] = []" "wrote [] = []" "handed [] = []"
  "replies (ev @ ev') = replies ev @ replies ev'"
  "wrote (ev @ ev') = wrote ev @ wrote ev'" "handed (ev @ ev') = handed ev @ handed ev'"
  "replies (e # ev) = (case e of Reply i r \<Rightarrow> [(i, r)] | _ \<Rightarrow> []) @ replies ev"
  "wrote (e # ev) = (case e of Wrote b \<Rightarrow> [b] | _ \<Rightarrow> []) @ wrote ev"
  "handed (e # ev) = (case e of Wrote b \<Rightarrow> [b] | WriteFailed b \<Rightarrow> [b] | _ \<Rightarrow> []) @ handed ev"
  by (simp_all add: replies_def wrote_def handed_def)

lemma trace_map [simp]:
  "replies (map (\<lambda>(j, n). Sending (f j)) ws) = []" "wrote (map (\<lambda>(j, n). Sending (f j)) ws) = []"
  "handed (map (\<lambda>(j, n). Sending (f j)) ws) = []"
  "replies (map (\<lambda>(j, n). FrameSent n) ws) = []" "wrote (map (\<lambda>(j, n). FrameSent n) ws) = []"
  "handed (map (\<lambda>(j, n). FrameSent n) ws) = []"
  "replies (map (\<lambda>(j, n). Published (g j)) ws) = []" "wrote (map (\<lambda>(j, n). Published (g j)) ws) = []"
  "handed (map (\<lambda>(j, n). Published (g j)) ws) = []"
  "replies (map (\<lambda>(j, n). Reply (f j) r) ws) = map (\<lambda>(j, n). (f j, r)) ws"
  "wrote (map (\<lambda>(j, n). Reply (f j) r) ws) = []" "handed (map (\<lambda>(j, n). Reply (f j) r) ws) = []"
  by (induction ws; auto)+

lemma trace_delivered [simp]:
  "replies (concat (map (\<lambda>(j, n). (if observed j then [Sent (f j)] else []) @ [Reply (f j) r]) ws)) =
     map (\<lambda>(j, n). (f j, r)) ws"
  "wrote (concat (map (\<lambda>(j, n). (if observed j then [Sent (f j)] else []) @ [Reply (f j) r]) ws)) = []"
  "handed (concat (map (\<lambda>(j, n). (if observed j then [Sent (f j)] else []) @ [Reply (f j) r]) ws)) = []"
  by (induction ws; auto)+

lemma flush_batch_trace:
  assumes "flush_batch i b = (ev, failed)"
  shows "replies ev = map (\<lambda>(j, n). (response_tx j, if failed then Inl SendTransport else Inr ())) (b_waiters b)"
    "wrote ev = (if b_buf b = [] \<or> failed then [] else [b_buf b])"
    "handed ev = (if b_buf b = [] then [] else [b_buf b])"
  using assms by (auto simp: flush_batch_def Let_def split: if_splits)

text \<open>
  One round: the jobs are those answered, in order, then those left; the answers to a batch are
  uniform but for a job that could not be sealed.
\<close>

lemma sender_round_poisoned:
  "poisoned s \<Longrightarrow> sender_round E k i j rest s = ([Reply (response_tx j) (Inl SendPoisoned)], s\<lparr>carry_over := None\<rparr>, rest)"
  by (simp add: sender_round_def)

lemma sender_round_batch:
  assumes "sender_round E k i j rest s = (ev, s', queue')" and "\<not> poisoned s"
  obtains b where "b = pack_batch E k (ready i) j rest (write_counter s) [] []"
    "j # rest = map fst (b_waiters b) @ opt_list (map_option fst (b_failure b)) @ opt_list (carry_over s') @ queue'"
    "replies ev = map (\<lambda>(j, n). (response_tx j, if poisoned s' then Inl SendTransport else Inr ())) (b_waiters b) @
       map (\<lambda>(j, err). (response_tx j, Inl err)) (opt_list (b_failure b))"
    "wrote ev = (if b_buf b = [] \<or> poisoned s' then [] else [b_buf b])"
    "handed ev = (if b_buf b = [] then [] else [b_buf b])" "write_counter s' = b_counter b"
proof -
  define b where "b = pack_batch E k (ready i) j rest (write_counter s) [] []"
  obtain ev0 failed where fl: "flush_batch i b = (ev0, failed)" by fastforce
  obtain rel grown small where rel: "should_release_batch_buffer (batch_wire_len (b_waiters b)) (buffer_capacity i)
      (b_carry b = None \<and> queue_empty i) (out_buf_grown s) (small_batches s) = (rel, grown, small)"
    by (metis prod_cases3)
  have "ev = ev0 @ (case b_failure b of Some (j, err) \<Rightarrow> [Reply (response_tx j) (Inl err)] | None \<Rightarrow> [])"
    and s': "s' = s\<lparr>write_counter := b_counter b, poisoned := failed, carry_over := b_carry b,
              out_buf_grown := grown, small_batches := small\<rparr>" and q: "queue' = b_queue b"
    using assms fl rel by (simp_all add: sender_round_def Let_def b_def [symmetric])
  moreover have "j # rest = batch_jobs b" using pack_batch_jobs [of E k "ready i" j rest _ _ "[]"] by (simp add: b_def)
  ultimately show ?thesis
    using flush_batch_trace [OF fl]
    by (intro that [OF b_def]) (auto simp: batch_jobs_def split: option.splits)
qed

lemma sender_task_none: "opt_list (carry_over s) @ queue = [] \<Longrightarrow> sender_task E k env n queue s = []"
  by (subst sender_task.simps) (auto split: option.splits)

lemma sender_task_step:
  "opt_list (carry_over s) @ queue = j # rest \<Longrightarrow>
   sender_round E k (env n) j rest (s\<lparr>carry_over := None\<rparr>) = (ev, s', queue') \<Longrightarrow>
   sender_task E k env n queue s = ev @ sender_task E k env (Suc n) queue' s'"
  by (subst sender_task.simps) (auto split: option.splits list.splits)

lemma sender_task_induct:
  assumes none: "\<And>n queue s. opt_list (carry_over s) @ queue = [] \<Longrightarrow> Q n queue s []"
    and step: "\<And>n queue s j rest ev s' queue'. opt_list (carry_over s) @ queue = j # rest \<Longrightarrow>
      sender_round E k (env n) j rest (s\<lparr>carry_over := None\<rparr>) = (ev, s', queue') \<Longrightarrow>
      Q (Suc n) queue' s' (sender_task E k env (Suc n) queue' s') \<Longrightarrow>
      Q n queue s (ev @ sender_task E k env (Suc n) queue' s')"
  shows "Q n queue s (sender_task E k env n queue s)"
proof (induction "length (opt_list (carry_over s) @ queue)" arbitrary: n queue s rule: less_induct)
  case less
  show ?case
  proof (cases "opt_list (carry_over s) @ queue")
    case Nil
    then show ?thesis using none sender_task_none by metis
  next
    case (Cons j rest)
    obtain ev s' queue' where r: "sender_round E k (env n) j rest (s\<lparr>carry_over := None\<rparr>) = (ev, s', queue')"
      by (metis prod_cases3)
    have "length (opt_list (carry_over s') @ queue') < length (opt_list (carry_over s) @ queue)"
      using sender_round_shrinks [OF r] Cons by (cases "carry_over s'") auto
    from step [OF Cons r less [OF this]] show ?thesis using sender_task_step [where env = env, OF Cons r] by simp
  qed
qed

text \<open>
  C5: Every caller gets its answer. Whatever arrives when, whichever writes fail and whatever the cipher
  does, the task ends once the channel is closed and drained, and by then each job has been answered
  exactly once, in the order in which the jobs were queued; a job held over for the next batch
  included.
\<close>

theorem every_job_answered:
  "map fst (replies (sender_task E k env 0 queue sender_start)) = map response_tx queue"
proof -
  have "map fst (replies (sender_task E k env n queue s)) = map response_tx (opt_list (carry_over s) @ queue)" for n queue s
  proof (rule sender_task_induct [where Q = "\<lambda>n queue s ev. map fst (replies ev) =
      map response_tx (opt_list (carry_over s) @ queue)"])
    fix n queue j rest ev queue' and s s' :: sender
    assume jobs: "opt_list (carry_over s) @ queue = j # rest"
      and r: "sender_round E k (env n) j rest (s\<lparr>carry_over := None\<rparr>) = (ev, s', queue')"
      and IH: "map fst (replies (sender_task E k env (Suc n) queue' s')) = map response_tx (opt_list (carry_over s') @ queue')"
    show "map fst (replies (ev @ sender_task E k env (Suc n) queue' s')) = map response_tx (opt_list (carry_over s) @ queue)"
    proof (cases "poisoned s")
      case True
      then have "ev = [Reply (response_tx j) (Inl SendPoisoned)]" "carry_over s' = None" "queue' = rest"
        using r sender_round_poisoned [of "s\<lparr>carry_over := None\<rparr>" E k "env n" j rest] by auto
      with IH jobs show ?thesis by simp
    next
      case False
      then have "\<not> poisoned (s\<lparr>carry_over := None\<rparr>)" by simp
      from sender_round_batch [OF r this] show ?thesis
      proof cases
        case (1 b)
        show ?thesis unfolding jobs 1(2) using 1(3) IH by (cases "b_failure b") (auto simp: case_prod_beta)
      qed
    qed
  qed simp
  from this [of 0 queue sender_start] show ?thesis by (simp add: sender_start_def)
qed

section \<open>What reaches the wire\<close>

text \<open>The plaintexts of the jobs that were answered with success.\<close>

definition delivered :: "send_job list \<Rightarrow> sender_event list \<Rightarrow> bytes list" where
  "delivered jobs ev = map (\<lambda>(j, r). plaintext j) (filter (\<lambda>(j, r). r = Inr ()) (zip jobs (map snd (replies ev))))"

lemma delivered_append:
  "length (replies ev) = length js \<Longrightarrow> delivered (js @ jobs) (ev @ ev') = delivered js ev @ delivered jobs ev'"
  by (simp add: delivered_def)

lemma delivered_uniform:
  assumes "replies ev = map (\<lambda>j. (response_tx j, r)) js @ map (\<lambda>(j, err). (response_tx j, Inl err)) fl"
  shows "delivered (js @ map fst fl) ev = (if r = Inr () then map plaintext js else [])"
proof -
  have "map snd (replies ev) = map (\<lambda>j. r) js @ map (\<lambda>x. Inl (snd x)) fl"
    unfolding assms by (simp add: comp_def case_prod_beta)
  moreover have "map (\<lambda>(j, r). plaintext j) (filter (\<lambda>(j, x). x = Inr ()) (zip js (map (\<lambda>j. r) js))) =
      (if r = Inr () then map plaintext js else [])"
    by (induction js) auto
  moreover have "filter (\<lambda>(j, x). x = Inr ()) (zip (map fst fl) (map (\<lambda>x. Inl (snd x)) fl)) = []"
    by (induction fl) auto
  ultimately show ?thesis unfolding delivered_def by simp
qed

text \<open>
  \<open>wire_ok E k jobs s ev\<close>: from sender state \<open>s\<close>, the transport took exactly the frames of the delivered
  plaintexts, sealed under consecutive counters, and was handed at most one batch more.
\<close>

definition wire_ok :: "'g noise_env \<Rightarrow> 'g gcm_key \<Rightarrow> send_job list \<Rightarrow> sender \<Rightarrow> sender_event list \<Rightarrow> bool" where
  "wire_ok E k jobs s ev \<longleftrightarrow>
     (if poisoned s then handed ev = [] \<and> wrote ev = [] \<and> delivered jobs ev = []
      else concat (wrote ev) = concat (map frame (seals E k (write_counter s) (delivered jobs ev))) \<and>
           list_all (\<lambda>p. length p + 16 < FRAME_MAX_SIZE) (delivered jobs ev) \<and>
           unat (write_counter s) + length (delivered jobs ev) < 2 ^ 32 \<and>
           (\<exists>ps. concat (handed ev) = concat (map frame (seals E k (write_counter s) ps)) \<and>
                 unat (write_counter s) + length ps < 2 ^ 32))"

lemma unat_add_small:
  assumes "unat (c :: u32) + n < 2 ^ 32"
  shows "unat (c + of_nat n) = unat c + n"
  using assms by (simp add: unat_word_ariths unat_of_nat)

lemma wire_ok_round:
  assumes ok: "prims_ok (gcm E)" and live: "\<not> poisoned s"
    and r: "sender_round E k i j rest s = (ev, s', queue')"
    and IH: "wire_ok E k (opt_list (carry_over s') @ queue') s' ev'"
  shows "wire_ok E k (j # rest) s (ev @ ev')"
proof -
  from r live obtain b where b: "b = pack_batch E k (ready i) j rest (write_counter s) [] []"
    "j # rest = map fst (b_waiters b) @ opt_list (map_option fst (b_failure b)) @ opt_list (carry_over s') @ queue'"
    "replies ev = map (\<lambda>(j, n). (response_tx j, if poisoned s' then Inl SendTransport else Inr ())) (b_waiters b) @
       map (\<lambda>(j, err). (response_tx j, Inl err)) (opt_list (b_failure b))"
    "wrote ev = (if b_buf b = [] \<or> poisoned s' then [] else [b_buf b])"
    "handed ev = (if b_buf b = [] then [] else [b_buf b])" "write_counter s' = b_counter b"
    by (rule sender_round_batch)
  obtain js where js: "sealed_batch E k (write_counter s) [] [] js b"
    using pack_batch_sealed [OF ok] b(1) by blast
  define fl where "fl = opt_list (b_failure b)"
  have fl: "opt_list (map_option fst (b_failure b)) = map fst fl" by (cases "b_failure b") (simp_all add: fl_def)
  have ws: "b_waiters b = map (\<lambda>j. (j, frame_wire_len (length (plaintext j)))) js" using js by (simp add: sealed_batch_def)
  have rep: "replies ev = map (\<lambda>j. (response_tx j, if poisoned s' then Inl SendTransport else Inr ())) js @
      map (\<lambda>(j, err). (response_tx j, Inl err)) fl"
    using b(3) by (simp add: ws fl_def comp_def)
  have jobs: "j # rest = (js @ map fst fl) @ opt_list (carry_over s') @ queue'"
    using b(2) by (simp add: ws fl comp_def)
  have del: "delivered (j # rest) (ev @ ev') =
      (if poisoned s' then [] else map plaintext js) @ delivered (opt_list (carry_over s') @ queue') ev'"
    unfolding jobs by (subst delivered_append) (simp_all add: rep delivered_uniform [OF rep])
  have c': "write_counter s' = write_counter s + of_nat (length js)" and
    room: "unat (write_counter s) + length js < 2 ^ 32" and
    buf: "b_buf b = concat (map frame (seals E k (write_counter s) (map plaintext js)))" and
    fits: "list_all (\<lambda>j. length (plaintext j) + 16 < FRAME_MAX_SIZE) js"
    using js b(6) by (simp_all add: sealed_batch_def)
  have han: "concat (handed ev) = b_buf b" using b(5) by simp
  show ?thesis
  proof (cases "poisoned s'")
    case True
    with IH del han buf room b(4) live show ?thesis
      by (auto simp: wire_ok_def intro!: exI [of _ "map plaintext js"])
  next
    case False
    have "concat (wrote ev) = b_buf b" using b(4) False by simp
    moreover have "unat (write_counter s') = unat (write_counter s) + length js"
      using unat_add_small [OF room] c' by simp
    moreover from IH False obtain ps where "concat (handed ev') = concat (map frame (seals E k (write_counter s') ps))"
        "unat (write_counter s') + length ps < 2 ^ 32" by (auto simp: wire_ok_def)
    ultimately show ?thesis
      using IH False live del han buf fits c'
      by (auto simp: wire_ok_def seals_append list_all_iff intro!: exI [of _ "map plaintext js @ ps"])
  qed
qed

lemma sender_task_wire:
  assumes ok: "prims_ok (gcm E)"
  shows "wire_ok E k (opt_list (carry_over s) @ queue) s (sender_task E k env n queue s)"
proof (rule sender_task_induct [where Q = "\<lambda>n queue s ev. wire_ok E k (opt_list (carry_over s) @ queue) s ev"])
  fix n queue and s :: sender
  assume "opt_list (carry_over s) @ queue = []"
  then show "wire_ok E k (opt_list (carry_over s) @ queue) s []"
    using unsigned_less [of "write_counter s"]
    by (auto simp: wire_ok_def delivered_def intro!: exI [of _ "[]"])
next
  fix n queue j rest ev queue' and s s' :: sender
  assume jobs: "opt_list (carry_over s) @ queue = j # rest"
    and r: "sender_round E k (env n) j rest (s\<lparr>carry_over := None\<rparr>) = (ev, s', queue')"
    and IH: "wire_ok E k (opt_list (carry_over s') @ queue') s' (sender_task E k env (Suc n) queue' s')"
  show "wire_ok E k (opt_list (carry_over s) @ queue) s (ev @ sender_task E k env (Suc n) queue' s')"
  proof (cases "poisoned s")
    case True
    then have "ev = [Reply (response_tx j) (Inl SendPoisoned)]" "carry_over s' = None" "queue' = rest" "poisoned s'"
      using r sender_round_poisoned [of "s\<lparr>carry_over := None\<rparr>" E k "env n" j rest] by auto
    with IH jobs True show ?thesis by (simp add: wire_ok_def delivered_def)
  next
    case False
    with wire_ok_round [OF ok _ r IH] jobs show ?thesis by (simp add: wire_ok_def)
  qed
qed

lemma seals_nth: "seals E k c ps = map (\<lambda>i. cipher_seal E k (c + of_nat i) (ps ! i)) [0..<length ps]"
proof (induction ps arbitrary: c)
  case (Cons p ps)
  have "[0..<length (p # ps)] = 0 # map Suc [0..<length ps]"
    by (simp add: map_Suc_upt upt_conv_Cons del: upt_Suc)
  then show ?case by (simp add: Cons comp_def add.assoc)
qed simp

lemma distinct_ivs: "n < 2 ^ 32 \<Longrightarrow> distinct (map (\<lambda>i. generate_iv (of_nat i)) [0..<n])"
  by (auto simp: distinct_map inj_on_def word_unat_eq_iff unat_of_nat)

text \<open>
  C3: No IV is ever used twice under a connection's write key. All the bytes the transport is handed, the
  batch of a failed write included, are frames sealed under the counters 0, 1, 2 and so on without
  gaps, fewer than \<open>2 ^ 32\<close> of them; after a failed write nothing more is handed over. So no two
  frames share an IV, whatever arrives when and whichever writes fail.
\<close>

theorem write_iv_never_reused:
  assumes "prims_ok (gcm E)"
  shows "\<exists>ps. concat (handed (sender_task E k env 0 queue sender_start)) =
      concat (map frame (map (\<lambda>i. cipher_seal E k (of_nat i) (ps ! i)) [0..<length ps])) \<and>
    length ps < 2 ^ 32 \<and> distinct (map (\<lambda>i. generate_iv (of_nat i)) [0..<length ps])"
proof -
  have "wire_ok E k queue sender_start (sender_task E k env 0 queue sender_start)"
    using sender_task_wire [OF assms, of k sender_start queue env 0] by (simp add: sender_start_def)
  then obtain ps where "concat (handed (sender_task E k env 0 queue sender_start)) = concat (map frame (seals E k 0 ps))"
      "length ps < 2 ^ 32"
    by (auto simp: wire_ok_def sender_start_def)
  then show ?thesis using distinct_ivs by (auto simp: seals_nth)
qed

text \<open>The reader of the other end, which decrypts frames as the decoder yields them.\<close>

fun decrypt_frames :: "'g noise_env \<Rightarrow> 'g gcm_key \<Rightarrow> bytes list \<Rightarrow> (u32, socket_error, bytes list) op" where
  "decrypt_frames E k [] = oret []"
| "decrypt_frames E k (f # fs) =
     obind (decrypt_frame E k f) (\<lambda>p. obind (decrypt_frames E k fs) (\<lambda>ps. oret (p # ps)))"

lemma decrypt_frames_seals:
  assumes "prims_ok (gcm E)" and "unat c + length ps < 2 ^ 32"
  shows "decrypt_frames E k (seals E k c ps) c = (Inr ps, c + of_nat (length ps))"
  using assms(2)
proof (induction ps arbitrary: c)
  case (Cons p ps)
  have c: "c \<noteq> - 1" using Cons.prems by (auto simp: unsigned_minus_1_eq_mask mask_eq_exp_minus_1)
  with Cons decrypt_frame_seal [OF assms(1) c] show ?case
    by (simp add: obind_def oret_def unat_next add.assoc)
qed (simp add: oret_def)

lemma wrote_received:
  assumes ok: "prims_ok (gcm E)" and ev: "ev = sender_task E k env 0 queue sender_start"
    and cut: "concat (map fst reads) = concat (wrote ev)"
  shows "decrypt_frames E k (fst (receive A reads (frame_decoder_new A))) 0 =
      (Inr (delivered queue ev), of_nat (length (delivered queue ev)))"
proof -
  have w: "wire_ok E k queue sender_start ev"
    using sender_task_wire [OF ok, of k sender_start queue env 0] by (simp add: sender_start_def ev)
  define ps where "ps = delivered queue ev"
  have bytes: "concat (wrote ev) = concat (map frame (seals E k 0 ps))" and small: "length ps < 2 ^ 32"
    and fits: "list_all (\<lambda>p. length p + 16 < FRAME_MAX_SIZE) ps"
    using w by (simp_all add: wire_ok_def sender_start_def ps_def)
  have "list_all (\<lambda>f. length f < FRAME_MAX_SIZE) (seals E k c ps)" for c
    using fits by (induction ps arbitrary: c) (simp_all add: length_cipher_seal [OF ok])
  note frames = frames_of_frames [OF this [of 0], of "[]"]
  have "fd_buffer (frame_decoder_new A) = []" by (simp add: frame_decoder_new_def)
  then have "fst (receive A reads (frame_decoder_new A)) = fst (frames_of (concat (map frame (seals E k 0 ps))))"
    using receive_frames_of [of "frame_decoder_new A" A reads] cut bytes by (simp add: first_frame_def)
  also have "\<dots> = seals E k 0 ps"
    using frames frames_of.simps [of "[]"] by (simp add: first_frame_def)
  finally show ?thesis
    using decrypt_frames_seals [OF ok, of 0 ps] small by (simp add: ps_def)
qed

text \<open>
  C4: What a caller was told is what the peer has. If the peer holds the matching key and reads the
  transported bytes in pieces of any size, it decrypts exactly the plaintexts of the jobs that were
  answered with success, each once and in the order they were queued, and its read counter ends where
  the next frame would start.
\<close>

theorem peer_reads_what_was_sent:
  assumes "prims_ok (gcm E)" and "ev = sender_task E k env 0 queue sender_start"
    and "concat (map fst reads) = concat (wrote ev)"
  shows "decrypt_frames E k (fst (receive A reads (frame_decoder_new A))) 0 =
      (Inr (delivered queue ev), of_nat (length (delivered queue ev)))"
  using wrote_received [OF assms] .

definition sample_cipher :: "bytes gcm_key" where
  "sample_cipher = \<lparr>cipher = replicate 32 5, keyed_ghash = replicate 16 5\<rparr>"

definition sample_round :: round_input where
  "sample_round = \<lparr>ready = 1, write_ok = True, buffer_capacity = 4096, queue_empty = True, tap_enabled = False\<rparr>"

definition sample_jobs :: "send_job list" where
  "sample_jobs = [\<lparr>response_tx = 1, plaintext = [10], observed = False, tapped = False\<rparr>,
                  \<lparr>response_tx = 2, plaintext = [20, 30], observed = True, tapped = False\<rparr>]"

definition sample_run :: "sender_event list" where
  "sample_run = sender_task sample_noise sample_cipher (\<lambda>_. sample_round) 0 sample_jobs sender_start"

lemma sample_noise_prims: "prims_ok (gcm sample_noise)"
  using sample_noise_ok by (simp add: env_ok_def)

lemma sample_run_delivered: "delivered sample_jobs sample_run = [[10], [20, 30]]"
proof -
  define j rest where "j = hd sample_jobs" and "rest = tl sample_jobs"
  define b where "b = pack_batch sample_noise sample_cipher 1 j rest 0 [] []"
  have b: "b_waiters b = [(j, 20), (hd rest, 21)]" "b_failure b = None" "b_carry b = None" "b_queue b = []"
    by (simp_all add: b_def j_def rest_def sample_jobs_def pack_batch.simps encrypt_frame_into_eq [OF sample_noise_prims]
        frame_wire_len_def SOCKET_TAG_LEN_def FRAME_LENGTH_SIZE_def MAX_BATCH_FRAMES_def MAX_BATCH_WIRE_BYTES_def
        FRAME_MAX_SIZE_def batch_wire_len_def Let_def)
  obtain ev s' q where r: "sender_round sample_noise sample_cipher sample_round j rest sender_start = (ev, s', q)"
    by (metis prod_cases3)
  obtain ev0 failed where fl: "flush_batch sample_round b = (ev0, failed)" by fastforce
  then have "\<not> failed" by (auto simp: flush_batch_def sample_round_def Let_def split: if_splits)
  with flush_batch_trace(1) [OF fl] b(1) have "replies ev0 = [(1, Inr ()), (2, Inr ())]"
    by (simp add: j_def rest_def sample_jobs_def)
  moreover have "ev = ev0" "carry_over s' = None" "q = []"
    using r fl b by (auto simp: sender_round_def sender_start_def sample_round_def b_def Let_def split: prod.splits)
  moreover have "sample_run = ev @ sender_task sample_noise sample_cipher (\<lambda>_. sample_round) 1 q s'"
    unfolding sample_run_def
    using sender_task_step [of sender_start sample_jobs j rest sample_noise sample_cipher "\<lambda>_. sample_round" 0] r
    by (simp add: j_def rest_def sample_jobs_def sender_start_def)
  ultimately have "replies sample_run = [(1, Inr ()), (2, Inr ())]"
    using sender_task_none [of s' q sample_noise sample_cipher "\<lambda>_. sample_round" 1] by simp
  then show ?thesis by (simp add: delivered_def sample_jobs_def)
qed

theorem peer_reads_what_was_sent_witness:
  "decrypt_frames sample_noise sample_cipher
     (fst (receive sample_alloc [(concat (wrote sample_run), None)] (frame_decoder_new sample_alloc))) 0 =
   (Inr [[10], [20, 30]], 2)"
  using peer_reads_what_was_sent [OF sample_noise_prims sample_run_def, of "[(concat (wrote sample_run), None)]" sample_alloc]
  by (simp add: sample_run_delivered)

theorem write_iv_never_reused_witness:
  "\<exists>ps. concat (handed sample_run) =
      concat (map frame (map (\<lambda>i. cipher_seal sample_noise sample_cipher (of_nat i) (ps ! i)) [0..<length ps]))"
  using write_iv_never_reused [OF sample_noise_prims, of sample_cipher "\<lambda>_. sample_round" sample_jobs]
  unfolding sample_run_def by blast

end
