(* ===== verification/Hkdf.thy ===== *)
theory Hkdf
  imports Prelude
begin

text \<open>
  HMAC-SHA256 and HKDF-Expand of other crates, as the fields of \<open>hkdf_env\<close>, with what the code relies on:
  the length of a MAC and the block structure of RFC 5869.
\<close>

record hkdf_env =
  hmac_sha256 :: "bytes \<Rightarrow> bytes \<Rightarrow> bytes"
  hkdf_expand :: "bytes \<Rightarrow> bytes \<Rightarrow> nat \<Rightarrow> bytes"

text \<open>A block of HKDF-Expand, and the whole output it can give.\<close>

fun okm_block :: "hkdf_env \<Rightarrow> bytes \<Rightarrow> bytes \<Rightarrow> nat \<Rightarrow> bytes" where
  "okm_block E prk info 0 = []"
| "okm_block E prk info (Suc n) = hmac_sha256 E prk (okm_block E prk info n @ info @ [of_nat (Suc n)])"

definition okm :: "hkdf_env \<Rightarrow> bytes \<Rightarrow> bytes \<Rightarrow> nat \<Rightarrow> bytes" where
  "okm E prk info n = concat (map (okm_block E prk info) [1..<Suc n])"

text \<open>What is assumed of the crates: a MAC has 32 bytes, and \<open>expand\<close> is HKDF-Expand of RFC 5869.\<close>

definition hkdf_ok :: "hkdf_env \<Rightarrow> bool" where
  "hkdf_ok E \<longleftrightarrow>
     (\<forall>k m. length (hmac_sha256 E k m) = 32) \<and>
     (\<forall>prk info n. n \<le> 255 * 32 \<longrightarrow> hkdf_expand E prk info n = take n (okm E prk info 255))"

lemma okm_Suc: "okm E prk info (Suc n) = okm E prk info n @ okm_block E prk info (Suc n)"
  by (simp add: okm_def)

lemma length_okm: "hkdf_ok E \<Longrightarrow> length (okm E prk info n) = 32 * n"
  by (induction n) (simp_all add: okm_Suc hkdf_ok_def, simp add: okm_def)

lemma length_hmac: "hkdf_ok E \<Longrightarrow> length (hmac_sha256 E k m) = 32"
  by (simp add: hkdf_ok_def)

lemma okm_0 [simp]: "okm E prk info 0 = []"
  by (simp add: okm_def)

lemma okm_take: "hkdf_ok E \<Longrightarrow> n \<le> m \<Longrightarrow> take (32 * n) (okm E prk info m) = okm E prk info n"
proof (induction m)
  case (Suc m)
  then show ?case by (cases "n = Suc m") (auto simp: okm_Suc length_okm length_hmac le_Suc_eq)
qed simp

text \<open>A MAC that only looks at the first bytes is enough to evaluate the hash.\<close>

definition sample_mac :: hkdf_env where
  "sample_mac = \<lparr>hmac_sha256 = (\<lambda>k m. take 32 (m @ k @ replicate 32 0)), hkdf_expand = (\<lambda>_ _ _. [])\<rparr>"

definition sample_hkdf :: hkdf_env where
  "sample_hkdf = sample_mac\<lparr>hkdf_expand := (\<lambda>prk info n. take n (okm sample_mac prk info 255))\<rparr>"

lemma okm_block_expand: "okm_block (E\<lparr>hkdf_expand := f\<rparr>) prk info = okm_block E prk info"
proof
  show "okm_block (E\<lparr>hkdf_expand := f\<rparr>) prk info n = okm_block E prk info n" for n by (induction n) simp_all
qed

lemma sample_hkdf_ok: "hkdf_ok sample_hkdf"
proof -
  have "length (hmac_sha256 sample_mac k m) = 32" for k m by (simp add: sample_mac_def)
  then show ?thesis by (simp add: hkdf_ok_def sample_hkdf_def okm_def okm_block_expand)
qed

end
