(* ===== verification/Lt_Hash.thy ===== *)
theory Lt_Hash
  imports Hkdf "HOL-Library.Multiset"
begin

text \<open>
  The homomorphic hash of app state collections (\<open>wacore/appstate/src/lthash.rs\<close>): a vector of 16-bit
  lanes to which every mutation adds or from which it subtracts a value derived from its MAC. The
  lanes are updated four at a time in 64-bit words. HMAC-SHA256 and the generic HKDF expansion are
  other crates (\<open>Hkdf\<close>).
\<close>

section \<open>Little-endian integers\<close>

definition from_le_bytes :: "bytes \<Rightarrow> 'a::len word" where
  "from_le_bytes bs = of_nat (be_nat (rev bs))"

definition to_le_bytes :: "nat \<Rightarrow> 'a::len word \<Rightarrow> bytes" where
  "to_le_bytes n w = rev (nat_be n (unat w))"

section \<open>The hash\<close>

record lthash =
  hkdf_info :: bytes
  hkdf_size :: u8

definition WAPATCH_INTEGRITY :: lthash where
  "WAPATCH_INTEGRITY = \<lparr>hkdf_info = lit ''WhatsApp Patch Integrity'', hkdf_size = 128\<rparr>"

definition LOW :: u64 where "LOW = 0x7FFF7FFF7FFF7FFF"

definition swar :: "bool \<Rightarrow> u64 \<Rightarrow> u64 \<Rightarrow> u64" where
  "swar subtract x y =
     (if subtract then ((x OR NOT LOW) - (y AND LOW)) XOR ((x XOR NOT y) AND NOT LOW)
      else ((x AND LOW) + (y AND LOW)) XOR ((x XOR y) AND NOT LOW))"

text \<open>The loop over whole words, and the scalar loop over the tail.\<close>

fun swar_words :: "bool \<Rightarrow> bytes \<Rightarrow> bytes \<Rightarrow> bytes" where
  "swar_words subtract (b0 # b1 # b2 # b3 # b4 # b5 # b6 # b7 # bs) (i0 # i1 # i2 # i3 # i4 # i5 # i6 # i7 # is) =
     to_le_bytes 8 (swar subtract (from_le_bytes [b0, b1, b2, b3, b4, b5, b6, b7])
                                  (from_le_bytes [i0, i1, i2, i3, i4, i5, i6, i7])) @
     swar_words subtract bs is"
| "swar_words subtract _ _ = []"

fun lane_tail :: "bool \<Rightarrow> bytes \<Rightarrow> bytes \<Rightarrow> bytes" where
  "lane_tail subtract (b0 # b1 # bs) (i0 # i1 # is) =
     (let x = from_le_bytes [b0, b1] :: u16; y = from_le_bytes [i0, i1];
          result = (if subtract then x - y else x + y)
      in to_le_bytes 2 result @ lane_tail subtract bs is)"
| "lane_tail subtract _ _ = []"

text \<open>A failed assertion is \<open>None\<close>.\<close>

definition perform_pointwise_with_overflow :: "bool \<Rightarrow> bytes \<Rightarrow> bytes \<Rightarrow> bytes option" where
  "perform_pointwise_with_overflow subtract base input =
     (if length base \<noteq> length input then None
      else if odd (length base) then None
      else
        let words = length base div 8 in
        Some (swar_words subtract (take (words * 8) base) (take (words * 8) input) @
              lane_tail subtract (drop (words * 8) base) (drop (words * 8) input)))"

text \<open>The rounds of HKDF-Expand still to run, from the output written so far.\<close>

fun expand_rounds :: "hkdf_env \<Rightarrow> bytes \<Rightarrow> bytes \<Rightarrow> nat \<Rightarrow> nat \<Rightarrow> bytes \<Rightarrow> bytes" where
  "expand_rounds E prk info block 0 written = written"
| "expand_rounds E prk info block (Suc rounds) written =
     (let previous = (if length written \<ge> 32 then drop (length written - 32) written else []);
          target = hmac_sha256 E prk (previous @ info @ [of_nat block + 1])
      in expand_rounds E prk info (Suc block) rounds (written @ target))"

definition hkdf_sha256_into :: "hkdf_env \<Rightarrow> bytes \<Rightarrow> bytes \<Rightarrow> nat \<Rightarrow> bytes" where
  "hkdf_sha256_into E key info n =
     (let prk = hmac_sha256 E (replicate 32 0) key in
      if \<not> 32 dvd n \<or> n = 0 \<or> n > 32 * 255 then hkdf_expand E prk info n
      else expand_rounds E prk info 0 (n div 32) [])"

fun multiple_op :: "hkdf_env \<Rightarrow> lthash \<Rightarrow> bool \<Rightarrow> bytes list \<Rightarrow> bytes \<Rightarrow> bytes option" where
  "multiple_op E L subtract [] base = Some base"
| "multiple_op E L subtract (item # input) base =
     Option.bind
       (perform_pointwise_with_overflow subtract base
          (hkdf_sha256_into E item (hkdf_info L) (unat (hkdf_size L))))
       (multiple_op E L subtract input)"

definition subtract_then_add :: "hkdf_env \<Rightarrow> lthash \<Rightarrow> bytes \<Rightarrow> bytes list \<Rightarrow> bytes list \<Rightarrow> bytes option" where
  "subtract_then_add E L base subtract add =
     Option.bind (multiple_op E L True subtract base) (multiple_op E L False add)"

section \<open>Four lanes in a word\<close>

lemma to_le_from_le:
  assumes "8 * length bs \<le> LENGTH('a)" and "n = length bs"
  shows "to_le_bytes n (from_le_bytes bs :: 'a::len word) = bs"
proof -
  have "be_nat (rev bs) < 256 ^ length bs" using be_nat_less [of "rev bs"] by simp
  also have "\<dots> = 2 ^ (8 * length bs)" by (simp add: power_mult)
  also have "\<dots> \<le> 2 ^ LENGTH('a)" using assms(1) by simp
  finally have "unat (from_le_bytes bs :: 'a word) = be_nat (rev bs)"
    by (simp add: from_le_bytes_def unat_of_nat)
  with nat_be_be_nat [of "rev bs"] assms(2) show ?thesis by (simp add: to_le_bytes_def)
qed

definition lanes4 :: "u16 \<Rightarrow> u16 \<Rightarrow> u16 \<Rightarrow> u16 \<Rightarrow> u64" where
  "lanes4 a b c d = of_nat (unat a + 2 ^ 16 * unat b + 2 ^ 32 * unat c + 2 ^ 48 * unat d)"

lemma unat_lanes4: "unat (lanes4 a b c d) = unat a + 2 ^ 16 * unat b + 2 ^ 32 * unat c + 2 ^ 48 * unat d"
proof -
  have "p + 2 ^ 16 * q + 2 ^ 32 * r + 2 ^ 48 * s < 2 ^ 64"
    if "p \<le> 65535" "q \<le> 65535" "r \<le> 65535" "s \<le> 65535" for p q r s :: nat using that by simp
  from this [OF unat_u16_le unat_u16_le unat_u16_le unat_u16_le]
  have "unat a + 2 ^ 16 * unat b + 2 ^ 32 * unat c + 2 ^ 48 * unat d < 2 ^ 64" .
  then show ?thesis unfolding lanes4_def unat_of_nat by simp
qed

lemma lanes4_or:
  "lanes4 a b c d = ucast a OR push_bit 16 (ucast b) OR push_bit 32 (ucast c) OR push_bit 48 (ucast d)"
proof -
  have disj: "x AND push_bit n y = 0" if "\<And>m. bit x m \<Longrightarrow> m < n" for x y :: u64 and n
    by (rule bit_word_eqI) (auto simp: bit_simps dest: that)
  have "lanes4 a b c d = ucast a + push_bit 16 (ucast b) + push_bit 32 (ucast c) + push_bit 48 (ucast d)"
    unfolding lanes4_def push_bit_eq_mult by (simp add: mult.commute)
  also have "ucast a + push_bit 16 (ucast b) = (ucast a OR push_bit 16 (ucast b) :: u64)"
    by (rule disjunctive_add_eq_or, rule disj) (auto simp: bit_simps dest: bit_imp_le_length)
  also have "\<dots> + push_bit 32 (ucast c) = \<dots> OR push_bit 32 (ucast c)"
    by (rule disjunctive_add_eq_or, rule disj) (auto simp: bit_simps dest: bit_imp_le_length)
  also have "\<dots> + push_bit 48 (ucast d) = \<dots> OR push_bit 48 (ucast d)"
    by (rule disjunctive_add_eq_or, rule disj) (auto simp: bit_simps dest: bit_imp_le_length)
  finally show ?thesis by (simp add: or.assoc)
qed

lemma bit_lanes4:
  "bit (lanes4 a b c d) n \<longleftrightarrow>
     (if n < 16 then bit a n else if n < 32 then bit b (n - 16) else if n < 48 then bit c (n - 32)
      else n < 64 \<and> bit d (n - 48))"
  unfolding lanes4_or using bit_imp_le_length [of a n] bit_imp_le_length [of b "n - 16"] bit_imp_le_length [of c "n - 32"]
    bit_imp_le_length [of d "n - 48"]
  by (auto simp: bit_simps)

lemma lanes4_and: "lanes4 a b c d AND lanes4 a' b' c' d' = lanes4 (a AND a') (b AND b') (c AND c') (d AND d')"
  by (rule bit_word_eqI) (simp add: bit_lanes4 bit_and_iff)

lemma lanes4_or': "lanes4 a b c d OR lanes4 a' b' c' d' = lanes4 (a OR a') (b OR b') (c OR c') (d OR d')"
  by (rule bit_word_eqI) (simp add: bit_lanes4 bit_or_iff)

lemma lanes4_xor: "lanes4 a b c d XOR lanes4 a' b' c' d' = lanes4 (a XOR a') (b XOR b') (c XOR c') (d XOR d')"
  by (rule bit_word_eqI) (simp add: bit_lanes4 bit_xor_iff)

lemma lanes4_not: "NOT (lanes4 a b c d) = lanes4 (NOT a) (NOT b) (NOT c) (NOT d)"
  by (rule bit_word_eqI) (auto simp: bit_lanes4 bit_not_iff)

lemma LOW_lanes: "LOW = lanes4 0x7FFF 0x7FFF 0x7FFF 0x7FFF"
  by (simp add: LOW_def lanes4_def)

text \<open>Without a carry or a borrow out of a lane, words add and subtract lane by lane.\<close>

lemma lanes4_add:
  assumes "unat a + unat a' < 2 ^ 16" and "unat b + unat b' < 2 ^ 16" and "unat c + unat c' < 2 ^ 16"
    and "unat d + unat d' < 2 ^ 16"
  shows "lanes4 a b c d + lanes4 a' b' c' d' = lanes4 (a + a') (b + b') (c + c') (d + d')"
proof -
  have add: "unat (x + y) = unat x + unat y" if "unat x + unat y < 2 ^ 16" for x y :: u16
    using that by (simp add: unat_word_ariths)
  show ?thesis unfolding lanes4_def add [OF assms(1)] add [OF assms(2)] add [OF assms(3)] add [OF assms(4)]
    by (subst of_nat_add [symmetric], rule arg_cong [where f = of_nat]) (simp only: distrib_left add.assoc add.left_commute)
qed

lemma lanes4_diff:
  assumes "a' \<le> a" and "b' \<le> b" and "c' \<le> c" and "d' \<le> d"
  shows "lanes4 a b c d - lanes4 a' b' c' d' = lanes4 (a - a') (b - b') (c - c') (d - d')"
proof -
  have "unat (x - y) + unat y < 2 ^ 16" if "y \<le> x" for x y :: u16
    using that by (simp add: unat_sub word_le_nat_alt)
  note this [OF assms(1)] this [OF assms(2)] this [OF assms(3)] this [OF assms(4)]
  from lanes4_add [OF this] show ?thesis by (simp add: algebra_simps)
qed

text \<open>In one lane: the low fifteen bits cannot overflow, and flipping the top bit is adding it.\<close>

definition top16 :: u16 where "top16 = 2 ^ 15"

lemma bit_top16 [bit_simps]: "bit top16 n \<longleftrightarrow> n = 15"
  unfolding top16_def bit_exp_iff by auto

lemma top16_numerals: "(0x8000 :: u16) = top16" "(0x7FFF :: u16) = NOT top16" "top16 + top16 = 0"
  by (simp_all add: top16_def)

lemma top_cases:
  obtains "bit (x :: u16) 15" "x AND top16 = top16" | "\<not> bit x 15" "x AND top16 = 0"
proof (cases "bit x 15")
  case True
  moreover from this have "x AND top16 = top16" by (auto intro!: bit_word_eqI simp: bit_simps)
  ultimately show thesis by (rule that(1))
next
  case False
  moreover from this have "x AND top16 = 0" by (auto intro!: bit_word_eqI simp: bit_simps)
  ultimately show thesis by (rule that(2))
qed

lemma split_top: "(x AND NOT top16) + (x AND top16) = x"
proof -
  have "(x AND NOT top16) + (x AND top16) = (x AND NOT top16) OR (x AND top16)"
    by (rule disjunctive_add_eq_or) (auto intro!: bit_word_eqI simp: bit_simps)
  also have "\<dots> = x" by (rule bit_word_eqI) (auto simp: bit_simps)
  finally show ?thesis .
qed

lemma xor_top: "w XOR top16 = w + top16"
proof (cases "bit w 15")
  case True
  then have "w AND top16 = top16" "w XOR top16 = w AND NOT top16"
    by (auto intro!: bit_word_eqI simp: bit_simps)
  with split_top [of w] show ?thesis by (metis add.assoc add.right_neutral top16_numerals(3))
next
  case False
  then have "w AND top16 = 0" "w XOR top16 = w OR top16"
    by (auto intro!: bit_word_eqI simp: bit_simps)
  then show ?thesis by (simp only: disjunctive_add_eq_or)
qed

lemma lane_add: "((x AND NOT top16) + (y AND NOT top16)) XOR ((x XOR y) AND top16) = x + y"
proof -
  have t: "(x XOR y) AND top16 = (x AND top16) XOR (y AND top16)"
    by (rule bit_word_eqI) (auto simp: bit_simps)
  have "((x AND NOT top16) + (y AND NOT top16)) XOR ((x XOR y) AND top16) =
      ((x AND NOT top16) + (y AND NOT top16)) + ((x AND top16) + (y AND top16))"
    unfolding t by (cases x rule: top_cases; cases y rule: top_cases) (simp_all add: xor_top top16_numerals(3))
  also have "\<dots> = ((x AND NOT top16) + (x AND top16)) + ((y AND NOT top16) + (y AND top16))"
    by (simp only: add_ac)
  finally show ?thesis by (simp only: split_top)
qed

lemma or_top: "x OR top16 = (x AND NOT top16) + top16"
proof -
  have "(x AND NOT top16) AND top16 = 0" "(x AND NOT top16) OR top16 = x OR top16"
    by (auto intro!: bit_word_eqI simp: bit_simps)
  then show ?thesis by (metis disjunctive_add_eq_or)
qed

lemma lane_sub: "((x OR top16) - (y AND NOT top16)) XOR ((x XOR NOT y) AND top16) = x - y"
proof -
  have t: "(x XOR NOT y) AND top16 = (x AND top16) XOR (NOT y AND top16)"
    by (rule bit_word_eqI) (auto simp: bit_simps)
  have n: "NOT y AND top16 = top16 + (y AND top16)"
    by (cases y rule: top_cases) (auto intro!: bit_word_eqI simp: bit_simps top16_numerals(3))
  have z: "top16 * 2 = 0" using top16_numerals(3) by (simp add: mult_2_right)
  have "((x OR top16) - (y AND NOT top16)) XOR ((x XOR NOT y) AND top16) =
      ((x AND NOT top16) + (x AND top16)) - ((y AND NOT top16) + (y AND top16))"
    unfolding t n or_top
    by (cases x rule: top_cases; cases y rule: top_cases) (simp_all add: xor_top top16_numerals(3) z algebra_simps)
  then show ?thesis by (simp only: split_top)
qed

lemma swar_lanes:
  "swar subtract (lanes4 a b c d) (lanes4 a' b' c' d') =
     (if subtract then lanes4 (a - a') (b - b') (c - c') (d - d') else lanes4 (a + a') (b + b') (c + c') (d + d'))"
proof -
  have low: "LOW = lanes4 (NOT top16) (NOT top16) (NOT top16) (NOT top16)"
    unfolding LOW_lanes top16_numerals ..
  have small: "unat (w AND NOT top16) < 2 ^ 15" for w
  proof -
    have "w AND NOT top16 = take_bit 15 w" by (rule bit_word_eqI) (auto simp: bit_simps)
    then show ?thesis using take_bit_nat_less_exp [of 15 "unat w"] by (simp add: unsigned_take_bit_eq)
  qed
  have "unat (x AND NOT top16) + unat (y AND NOT top16) < 2 ^ 16" for x y
    using small [of x] small [of y] by simp
  note add = lanes4_add [OF this this this this]
  have "y AND NOT top16 \<le> x OR top16" for x y
  proof -
    have "x OR top16 = (x AND NOT top16) + top16" by (rule or_top)
    then have "unat (x OR top16) = unat (x AND NOT top16) + 2 ^ 15"
      using small [of x] by (simp add: unat_word_ariths top16_def)
    then show ?thesis using small [of y] by (simp add: word_le_nat_alt top16_def)
  qed
  note diff = lanes4_diff [OF this this this this]
  show ?thesis
    unfolding swar_def low lanes4_not bit.double_compl lanes4_and lanes4_or' lanes4_xor add diff
    by (cases subtract) (simp_all only: lane_add lane_sub if_True if_False)
qed

section \<open>The word loop is the lane loop\<close>

lemma length_SucE:
  assumes "length xs = Suc n"
  obtains x ys where "xs = x # ys" "length ys = n"
  using assms by (auto simp: length_Suc_conv)

lemma be_nat_rev_Cons: "be_nat (rev (b # bs)) = unat b + 256 * be_nat (rev bs)"
proof -
  have snoc: "be_nat (xs @ [b]) = 256 * be_nat xs + unat b" for xs
    by (induction xs) (simp_all add: algebra_simps)
  show ?thesis by (simp add: snoc)
qed

lemma unat_from_le:
  assumes "8 * length bs \<le> LENGTH('a)"
  shows "unat (from_le_bytes bs :: 'a::len word) = be_nat (rev bs)"
proof -
  have "be_nat (rev bs) < 256 ^ length bs" using be_nat_less [of "rev bs"] by simp
  also have "\<dots> = 2 ^ (8 * length bs)" by (simp add: power_mult)
  also have "\<dots> \<le> 2 ^ LENGTH('a)" using assms by simp
  finally show ?thesis by (simp add: from_le_bytes_def unat_of_nat)
qed

lemma from_le_lanes:
  "from_le_bytes [b0, b1, b2, b3, b4, b5, b6, b7] =
     lanes4 (from_le_bytes [b0, b1]) (from_le_bytes [b2, b3]) (from_le_bytes [b4, b5]) (from_le_bytes [b6, b7])"
  (is "?w = _")
proof (rule word_unat_eq_iff [THEN iffD2])
  have "unat ?w = be_nat (rev [b0, b1, b2, b3, b4, b5, b6, b7])" by (rule unat_from_le) simp
  then show "unat ?w = unat (lanes4 (from_le_bytes [b0, b1]) (from_le_bytes [b2, b3]) (from_le_bytes [b4, b5]) (from_le_bytes [b6, b7]))"
    unfolding unat_lanes4 by (subst (1 2 3 4) unat_from_le) (simp_all only: be_nat_rev_Cons, simp_all)
qed

lemma to_le_length [simp]: "length (to_le_bytes n w) = n"
  by (simp add: to_le_bytes_def)

lemma from_le_to_le: "from_le_bytes (to_le_bytes 2 (w :: u16)) = w"
  by (simp add: from_le_bytes_def to_le_bytes_def)

lemma to_le_lanes: "to_le_bytes 8 (lanes4 a b c d) = to_le_bytes 2 a @ to_le_bytes 2 b @ to_le_bytes 2 c @ to_le_bytes 2 d"
proof -
  have two: "\<exists>x y. to_le_bytes 2 w = [x, y] \<and> from_le_bytes [x, y] = w" for w :: u16
    using from_le_to_le [of w] to_le_length [of 2 w]
    by (metis (no_types) One_nat_def Suc_1 length_0_conv length_Suc_conv)
  obtain a0 a1 b0 b1 c0 c1 d0 d1 where
    "to_le_bytes 2 a = [a0, a1]" "from_le_bytes [a0, a1] = a" "to_le_bytes 2 b = [b0, b1]" "from_le_bytes [b0, b1] = b"
    "to_le_bytes 2 c = [c0, c1]" "from_le_bytes [c0, c1] = c" "to_le_bytes 2 d = [d0, d1]" "from_le_bytes [d0, d1] = d"
    using two by metis
  moreover have "to_le_bytes 8 (from_le_bytes [a0, a1, b0, b1, c0, c1, d0, d1] :: u64) = [a0, a1, b0, b1, c0, c1, d0, d1]"
    by (rule to_le_from_le) simp_all
  ultimately show ?thesis unfolding from_le_lanes by simp
qed

lemma eight_bytes:
  assumes "length bs = 8 * Suc n"
  obtains b0 b1 b2 b3 b4 b5 b6 b7 rest where "bs = b0 # b1 # b2 # b3 # b4 # b5 # b6 # b7 # rest" "length rest = 8 * n"
proof -
  from assms have "length bs = Suc (Suc (Suc (Suc (Suc (Suc (Suc (Suc (8 * n))))))))" by simp
  then show thesis by (elim length_SucE) (simp, rule that, assumption+)
qed

lemma swar_words_lanes:
  "length bs = 8 * n \<Longrightarrow> length is = 8 * n \<Longrightarrow>
   swar_words subtract bs is @ lane_tail subtract cs js = lane_tail subtract (bs @ cs) (is @ js)"
proof (induction n arbitrary: bs "is")
  case (Suc n)
  obtain b0 b1 b2 b3 b4 b5 b6 b7 bs' where b: "bs = b0 # b1 # b2 # b3 # b4 # b5 # b6 # b7 # bs'" "length bs' = 8 * n"
    by (rule eight_bytes [OF Suc.prems(1)])
  obtain i0 i1 i2 i3 i4 i5 i6 i7 is' where i: "is = i0 # i1 # i2 # i3 # i4 # i5 # i6 # i7 # is'" "length is' = 8 * n"
    by (rule eight_bytes [OF Suc.prems(2)])
  show ?case
    unfolding b(1) i(1) by (simp add: from_le_lanes swar_lanes to_le_lanes Let_def Suc.IH [OF b(2) i(2)])
qed simp

lemma pointwise_lanes:
  "perform_pointwise_with_overflow subtract base input =
     (if length base = length input \<and> even (length base) then Some (lane_tail subtract base input) else None)"
proof (cases "length base = length input \<and> even (length base)")
  case True
  let ?n = "length base div 8"
  have "swar_words subtract (take (?n * 8) base) (take (?n * 8) input) @
      lane_tail subtract (drop (?n * 8) base) (drop (?n * 8) input) =
      lane_tail subtract (take (?n * 8) base @ drop (?n * 8) base) (take (?n * 8) input @ drop (?n * 8) input)"
    using True by (intro swar_words_lanes [where n = ?n]) auto
  with True show ?thesis by (simp add: perform_pointwise_with_overflow_def Let_def)
qed (auto simp: perform_pointwise_with_overflow_def)

section \<open>The hash tracks a multiset\<close>

definition lane :: "bytes \<Rightarrow> nat \<Rightarrow> u16" where
  "lane bs i = from_le_bytes [bs ! (2 * i), bs ! Suc (2 * i)]"

lemma lane_Cons2: "lane (x # y # bs) i = (case i of 0 \<Rightarrow> from_le_bytes [x, y] | Suc i \<Rightarrow> lane bs i)"
  by (simp add: lane_def split: nat.splits)

lemma lane_tail_length: "length base = length input \<Longrightarrow> even (length base) \<Longrightarrow> length (lane_tail s base input) = length base"
  by (induction s base input rule: lane_tail.induct) (auto simp: Let_def)

lemma lane_to_le: "lane (to_le_bytes 2 w @ bs) i = (case i of 0 \<Rightarrow> w | Suc i \<Rightarrow> lane bs i)"
proof -
  obtain x y where "to_le_bytes 2 w = [x, y]"
    using to_le_length [of 2 w] by (metis (no_types) One_nat_def Suc_1 length_0_conv length_Suc_conv)
  with from_le_to_le [of w] show ?thesis by (auto simp: lane_Cons2 split: nat.splits)
qed

lemma lane_tail_lane:
  "length base = length input \<Longrightarrow> 2 * i < length base \<Longrightarrow> even (length base) \<Longrightarrow>
   lane (lane_tail s base input) i = (if s then lane base i - lane input i else lane base i + lane input i)"
  by (induction s base input arbitrary: i rule: lane_tail.induct)
    (auto simp: Let_def lane_to_le lane_Cons2 split: nat.splits)

lemma expand_rounds_okm:
  "hkdf_ok E \<Longrightarrow> expand_rounds E prk info block rounds (okm E prk info block) = okm E prk info (block + rounds)"
proof (induction rounds arbitrary: block)
  case (Suc rounds)
  have "(if length (okm E prk info block) \<ge> 32 then drop (length (okm E prk info block) - 32) (okm E prk info block) else []) =
      okm_block E prk info block"
    using Suc.prems by (cases block) (auto simp: okm_Suc length_okm length_hmac)
  then show ?case using Suc.IH [of "Suc block"] Suc.prems by (simp add: Let_def okm_Suc add.commute)
qed simp

lemma hkdf_sha256_into_expand:
  assumes "hkdf_ok E" and "n \<le> 255 * 32"
  shows "hkdf_sha256_into E key info n = take n (okm E (hmac_sha256 E (replicate 32 0) key) info 255)"
proof (cases "32 dvd n \<and> n \<noteq> 0")
  case True
  then have "expand_rounds E prk info 0 (n div 32) [] = take n (okm E prk info 255)" for prk
    using expand_rounds_okm [OF assms(1), of prk info 0 "n div 32"] okm_take [OF assms(1), of "n div 32" 255 prk info] assms(2)
    by auto
  with True assms show ?thesis by (simp add: hkdf_sha256_into_def Let_def)
next
  case False
  with assms show ?thesis by (auto simp: hkdf_sha256_into_def Let_def hkdf_ok_def)
qed

text \<open>What one item contributes, and the hash of a multiset of items.\<close>

definition item_mask :: "hkdf_env \<Rightarrow> lthash \<Rightarrow> bytes \<Rightarrow> bytes" where
  "item_mask E L item = hkdf_expand E (hmac_sha256 E (replicate 32 0) item) (hkdf_info L) (unat (hkdf_size L))"

definition fingerprint :: "hkdf_env \<Rightarrow> lthash \<Rightarrow> bytes multiset \<Rightarrow> bytes" where
  "fingerprint E L M =
     concat (map (\<lambda>i. to_le_bytes 2 (\<Sum>x\<in>#M. lane (item_mask E L x) i)) [0..<unat (hkdf_size L) div 2])"

lemma hkdf_item_mask:
  assumes "hkdf_ok E"
  shows "hkdf_sha256_into E item (hkdf_info L) (unat (hkdf_size L)) = item_mask E L item"
    and "length (item_mask E L item) = unat (hkdf_size L)"
proof -
  have "unat (hkdf_size L) \<le> 255 * 32" using unat_u8_le [of "hkdf_size L"] by linarith
  with assms show "hkdf_sha256_into E item (hkdf_info L) (unat (hkdf_size L)) = item_mask E L item"
    "length (item_mask E L item) = unat (hkdf_size L)"
    by (simp_all add: hkdf_sha256_into_expand item_mask_def hkdf_ok_def length_okm [OF assms])
qed

lemma concat_lanes:
  "length (concat (map (\<lambda>i. to_le_bytes 2 (f i)) [0..<n])) = 2 * n"
  "j < n \<Longrightarrow> lane (concat (map (\<lambda>i. to_le_bytes 2 (f i)) [0..<n])) j = f j"
proof -
  have "j < length xs \<Longrightarrow> lane (concat (map (to_le_bytes 2) xs)) j = xs ! j" for xs :: "u16 list" and j
    by (induction xs arbitrary: j) (auto simp: lane_to_le nth_Cons split: nat.splits)
  from this [of j "map f [0..<n]"]
  show "j < n \<Longrightarrow> lane (concat (map (\<lambda>i. to_le_bytes 2 (f i)) [0..<n])) j = f j" by (simp add: comp_def)
qed (induction n, simp_all)

lemma lanes_determine:
  "even (length bs) \<Longrightarrow> bs = concat (map (\<lambda>i. to_le_bytes 2 (lane bs i)) [0..<length bs div 2])"
proof (induction bs rule: induct_list012)
  case (3 x y zs)
  have "to_le_bytes 2 (lane (x # y # zs) 0) = [x, y]"
    unfolding lane_Cons2 by (simp, rule to_le_from_le) simp_all
  moreover have "[0..<length (x # y # zs) div 2] = 0 # map Suc [0..<length zs div 2]"
    by (simp add: upt_conv_Cons map_Suc_upt del: upt_Suc)
  ultimately show ?case using 3 by (simp add: lane_Cons2 comp_def)
qed simp_all

lemma lanes_eqI:
  assumes "length bs = 2 * n" and "\<And>i. i < n \<Longrightarrow> lane bs i = f i"
  shows "bs = concat (map (\<lambda>i. to_le_bytes 2 (f i)) [0..<n])"
proof -
  have eq: "map (\<lambda>i. to_le_bytes 2 (lane bs i)) [0..<n] = map (\<lambda>i. to_le_bytes 2 (f i)) [0..<n]" using assms(2) by simp
  have "bs = concat (map (\<lambda>i. to_le_bytes 2 (lane bs i)) [0..<n])" using lanes_determine [of bs] assms(1) by simp
  then show ?thesis unfolding eq .
qed

lemma one_op:
  assumes "hkdf_ok E" and "even (unat (hkdf_size L))" and "if s then x \<in># M else True"
  shows "perform_pointwise_with_overflow s (fingerprint E L M) (item_mask E L x) =
    Some (fingerprint E L (if s then M - {#x#} else add_mset x M))"
proof -
  let ?M' = "if s then M - {#x#} else add_mset x M"
  let ?b = "fingerprint E L M" and ?i = "item_mask E L x" and ?n = "unat (hkdf_size L) div 2"
  have len: "length ?b = length ?i" "even (length ?b)" "length ?b = 2 * ?n"
    using assms(2) hkdf_item_mask(2) [OF assms(1), of L x] by (simp_all add: fingerprint_def concat_lanes(1))
  have sums: "(\<Sum>y\<in>#M. lane (item_mask E L y) j) + (if s then - lane ?i j else lane ?i j) =
      (\<Sum>y\<in>#?M'. lane (item_mask E L y) j)" for j
    using assms(3) by (auto simp: add.commute dest!: multi_member_split)
  have "lane (lane_tail s ?b ?i) j = (\<Sum>y\<in>#?M'. lane (item_mask E L y) j)" if "j < ?n" for j
    using lane_tail_lane [OF len(1) _ len(2), of j s] that len(3) sums [of j]
    by (simp add: fingerprint_def concat_lanes(2) split: if_splits)
  moreover have "length (lane_tail s ?b ?i) = 2 * ?n" using lane_tail_length [OF len(1,2), of s] len(3) by simp
  ultimately have "lane_tail s ?b ?i = fingerprint E L ?M'"
    unfolding fingerprint_def [of E L ?M'] by (intro lanes_eqI) simp_all
  then show ?thesis using len by (simp add: pointwise_lanes)
qed

lemma multiple_op_fingerprint:
  assumes "hkdf_ok E" and "even (unat (hkdf_size L))"
  shows "mset items \<subseteq># M \<Longrightarrow> multiple_op E L True items (fingerprint E L M) = Some (fingerprint E L (M - mset items))"
    and "multiple_op E L False items (fingerprint E L M) = Some (fingerprint E L (M + mset items))"
proof (induction items arbitrary: M)
  case (Cons x items)
  {
    case 1
    then have "x \<in># M" "mset items \<subseteq># M - {#x#}" by (auto simp: insert_subset_eq_iff)
    with Cons one_op [OF assms, of True x M] show ?case by (simp add: hkdf_item_mask [OF assms(1)])
  next
    case 2
    show ?case using Cons one_op [OF assms, of False x M] by (simp add: hkdf_item_mask [OF assms(1)])
  }
qed simp_all

section \<open>Properties\<close>

text \<open>
  C15 (the word-parallel routine is exact). On every input, updating four lanes per 64-bit word and the
  rest one by one gives what updating each 16-bit lane alone with wrap-around gives; and it refuses
  exactly the inputs of unequal or odd length.
\<close>

theorem swar_pointwise_exact:
  "perform_pointwise_with_overflow subtract base input =
     (if length base = length input \<and> even (length base) then Some (lane_tail subtract base input) else None)"
  by (rule pointwise_lanes)

text \<open>
  C14 (the hash of a collection). Starting from the hash of a multiset of items, removing some of them and
  adding others gives the hash of the resulting multiset, whatever the order in which items came and
  went; an item counts by the HKDF expansion of RFC 5869 of its bytes.
\<close>

theorem lthash_tracks_multiset:
  assumes "hkdf_ok E" and "even (unat (hkdf_size L))" and "mset removed \<subseteq># M"
  shows "subtract_then_add E L (fingerprint E L M) removed added =
    Some (fingerprint E L (M - mset removed + mset added))"
  using multiple_op_fingerprint [OF assms(1,2)] assms(3) by (simp add: subtract_then_add_def)

theorem lthash_tracks_multiset_witness:
  "subtract_then_add sample_hkdf WAPATCH_INTEGRITY (fingerprint sample_hkdf WAPATCH_INTEGRITY {#[1], [2]#}) [[2]] [[3], [1]] =
    Some (fingerprint sample_hkdf WAPATCH_INTEGRITY {#[1], [3], [1]#})"
  using lthash_tracks_multiset [OF sample_hkdf_ok, of WAPATCH_INTEGRITY "[[2]]" "{#[1], [2]#}" "[[3], [1]]"]
  by (simp add: WAPATCH_INTEGRITY_def add_mset_commute)

end
