(* ===== verification/Sender_Keys.thy ===== *)
theory Sender_Keys
  imports Hkdf Rust_Str
begin

text \<open>
  Group messages of the Signal protocol (\<open>wacore/libsignal/src/protocol\<close>): the lease on counters ahead
  of durability (\<open>counter_lease.rs\<close>), the sender chain with its skipped keys, the state of a chain and
  the record that holds the recent ones with its serialised form (\<open>sender_keys.rs\<close>, \<open>local_field.rs\<close>),
  the two messages (\<open>protocol.rs\<close>), and encryption and decryption (\<open>group_cipher.rs\<close>). An operation of
  the group cipher takes the record its store loaded and gives the record it stores. The memos of
  derived keys hold what the code would derive again and are left out. The lemmas follow one chain at
  its two ends: which keys a receiver can still give out, and that taking one removes just that one.
\<close>

section \<open>Limits and errors\<close>

definition MAX_FORWARD_JUMPS :: nat where "MAX_FORWARD_JUMPS = 2000"
definition MAX_MESSAGE_KEYS :: nat where "MAX_MESSAGE_KEYS = 2000"
definition MAX_SENDER_KEY_STATES :: nat where "MAX_SENDER_KEY_STATES = 5"
definition MESSAGE_KEY_PRUNE_THRESHOLD :: nat where "MESSAGE_KEY_PRUNE_THRESHOLD = 50"
definition SENDER_CHAIN_RESERVATION_BATCH :: u32 where "SENDER_CHAIN_RESERVATION_BATCH = 64"
definition MAX_RESERVATION_FAST_FORWARD :: u32 where "MAX_RESERVATION_FAST_FORWARD = of_nat MAX_FORWARD_JUMPS"
definition SENDERKEY_MESSAGE_CURRENT_VERSION :: u8 where "SENDERKEY_MESSAGE_CURRENT_VERSION = 3"

text \<open>Of \<open>SignalProtocolError\<close> the variants these operations raise; of the texts only the fixed ones.\<close>

datatype signal_error =
    InvalidProtobufEncoding
  | InvalidState str str
  | InvalidSenderKeySession
  | NoSenderKeyState
  | DuplicatedMessage u32 u32
  | InvalidMessage str
  | UnrecognizedMessageVersion u32
  | SignatureValidationFailed
  | CiphertextMessageTooShort nat
  | LegacyCiphertextVersion u8
  | UnrecognizedCiphertextVersion u8
  | NoKeyTypeIdentifier
  | BadKeyType u8
  | BadKeyLength nat

section \<open>The counter lease\<close>

datatype counter_lease = Leased u32 bool | Waived

definition lease_default :: counter_lease where "lease_default = Leased 0 False"

definition from_persisted_ceiling :: "u32 \<Rightarrow> counter_lease" where
  "from_persisted_ceiling c = Leased c False"

fun lease_ceiling :: "counter_lease \<Rightarrow> u32" where
  "lease_ceiling (Leased c p) = c"
| "lease_ceiling Waived = 0"

fun is_pending_flush :: "counter_lease \<Rightarrow> bool" where
  "is_pending_flush (Leased c p) = p"
| "is_pending_flush Waived = False"

definition saturating_add_u32 :: "u32 \<Rightarrow> u32 \<Rightarrow> u32" where
  "saturating_add_u32 a b = (if unat a + unat b < 2 ^ 32 then a + b else - 1)"

fun lease_reserve :: "u32 \<Rightarrow> counter_lease \<Rightarrow> counter_lease" where
  "lease_reserve spent (Leased c p) =
     (if spent \<ge> c then Leased (saturating_add_u32 spent SENDER_CHAIN_RESERVATION_BATCH) True else Leased c p)"
| "lease_reserve spent Waived = Waived"

fun set_pending_flush :: "bool \<Rightarrow> counter_lease \<Rightarrow> counter_lease" where
  "set_pending_flush pending (Leased c p) = Leased c pending"
| "set_pending_flush pending Waived = Waived"

fun clear_reservation :: "counter_lease \<Rightarrow> counter_lease" where
  "clear_reservation (Leased c p) = Leased 0 p"
| "clear_reservation Waived = Waived"

fun lease_rebase :: "counter_lease \<Rightarrow> counter_lease" where
  "lease_rebase (Leased c p) = Leased (min c SENDER_CHAIN_RESERVATION_BATCH) p"
| "lease_rebase Waived = Waived"

definition lease_waive :: "counter_lease \<Rightarrow> counter_lease" where
  "lease_waive l = Waived"

section \<open>Other crates\<close>

text \<open>
  The generated structures of a persisted record, with their optional fields.
\<close>

record chain_key_structure =
  cks_iteration :: "u32 option"
  cks_seed :: "bytes option"

record signing_key_structure =
  sks_public :: "bytes option"
  sks_private :: "bytes option"

record state_structure =
  ss_key_id :: "u32 option"
  ss_chain_key :: "chain_key_structure option"
  ss_signing_key :: "signing_key_structure option"
  ss_message_keys :: "chain_key_structure list"

datatype wire_type = Varint | Fixed64 | LengthDelimited | StartGroup | EndGroup | Fixed32

text \<open>
  AES-CBC, XEdDSA and scalar clamping, and the protobuf library: tags and varints, the views the
  generated code decodes, and the codec of a persisted record.
\<close>

record group_env = hkdf_env +
  clamp :: "bytes \<Rightarrow> bytes"
  cbc_encrypt :: "bytes \<Rightarrow> bytes \<Rightarrow> bytes \<Rightarrow> bytes option"
  cbc_decrypt :: "bytes \<Rightarrow> bytes \<Rightarrow> bytes \<Rightarrow> bytes option"
  xed_sign :: "bytes \<Rightarrow> bytes \<Rightarrow> bytes \<Rightarrow> bytes"
  xed_verify :: "bytes \<Rightarrow> bytes \<Rightarrow> bytes \<Rightarrow> bool"
  tag_encode :: "nat \<Rightarrow> wire_type \<Rightarrow> bytes"
  tag_decode :: "bytes \<Rightarrow> ((nat \<times> wire_type) \<times> bytes) option"
  encode_varint :: "u64 \<Rightarrow> bytes"
  decode_varint :: "bytes \<Rightarrow> (u64 \<times> bytes) option"
  skip_field :: "nat \<times> wire_type \<Rightarrow> bytes \<Rightarrow> bytes option"
  skm_view :: "bytes \<Rightarrow> (u32 option \<times> u32 option \<times> bytes option) option"
  skdm_view :: "bytes \<Rightarrow> (u32 option \<times> u32 option \<times> bytes option \<times> bytes option) option"
  record_to_vec :: "state_structure list \<Rightarrow> bytes"
  record_decode :: "bytes \<Rightarrow> state_structure list option"

text \<open>The fields the code writes itself.\<close>

definition push_varint_field :: "group_env \<Rightarrow> nat \<Rightarrow> u64 \<Rightarrow> bytes" where
  "push_varint_field E field value = tag_encode E field Varint @ encode_varint E value"

definition push_bytes_field :: "group_env \<Rightarrow> nat \<Rightarrow> bytes \<Rightarrow> bytes" where
  "push_bytes_field E field value =
     tag_encode E field LengthDelimited @ encode_varint E (of_nat (length value)) @ value"

section \<open>Keys\<close>

definition public_key_serialize :: "bytes \<Rightarrow> bytes" where
  "public_key_serialize key = 0x05 # key"

definition public_key_deserialize :: "bytes \<Rightarrow> (signal_error, bytes) result" where
  "public_key_deserialize v =
     (case v of
        [] \<Rightarrow> Inl NoKeyTypeIdentifier
      | t # key \<Rightarrow>
          if t \<noteq> 0x05 then Inl (BadKeyType t)
          else if length v < 32 + 1 then Inl (BadKeyLength (length v))
          else Inr (take 32 key))"

definition signing_key_deserialize :: "group_env \<Rightarrow> bytes \<Rightarrow> bytes option" where
  "signing_key_deserialize E v = (if length v \<noteq> 32 then None else Some (clamp E v))"

definition key_verify :: "group_env \<Rightarrow> bytes \<Rightarrow> bytes \<Rightarrow> bytes \<Rightarrow> bool" where
  "key_verify E key message signature = (length signature = 64 \<and> xed_verify E key message signature)"

section \<open>The sender chain\<close>

record sender_message_key =
  smk_iteration :: u32
  smk_iv :: bytes
  smk_cipher_key :: bytes
  smk_seed :: bytes

definition sender_message_key_new :: "group_env \<Rightarrow> u32 \<Rightarrow> bytes \<Rightarrow> sender_message_key" where
  "sender_message_key_new E iteration seed =
     (let prk = hmac_sha256 E (replicate 32 0) seed;
          derived = hkdf_expand E prk (lit ''WhisperGroup'') 48
      in \<lparr>smk_iteration = iteration, smk_iv = take 16 derived, smk_cipher_key = drop 16 derived, smk_seed = seed\<rparr>)"

record sender_chain_key =
  ck_iteration :: u32
  ck_seed :: bytes

definition MESSAGE_KEY_SEED :: u8 where "MESSAGE_KEY_SEED = 0x01"
definition CHAIN_KEY_SEED :: u8 where "CHAIN_KEY_SEED = 0x02"

definition get_derivative :: "group_env \<Rightarrow> sender_chain_key \<Rightarrow> u8 \<Rightarrow> bytes" where
  "get_derivative E c label = hmac_sha256 E (ck_seed c) [label]"

definition chain_next :: "group_env \<Rightarrow> sender_chain_key \<Rightarrow> (signal_error, sender_chain_key) result" where
  "chain_next E c =
     (if ck_iteration c = - 1
      then Inl (InvalidState (lit ''sender_chain_key_next'') (lit ''Sender chain is too long''))
      else Inr \<lparr>ck_iteration = ck_iteration c + 1, ck_seed = get_derivative E c CHAIN_KEY_SEED\<rparr>)"

definition chain_message_key :: "group_env \<Rightarrow> sender_chain_key \<Rightarrow> sender_message_key" where
  "chain_message_key E c = sender_message_key_new E (ck_iteration c) (get_derivative E c MESSAGE_KEY_SEED)"

definition step_seed_only ::
  "group_env \<Rightarrow> sender_chain_key \<Rightarrow> (signal_error, bytes \<times> sender_chain_key) result" where
  "step_seed_only E c =
     (if ck_iteration c = - 1
      then Inl (InvalidState (lit ''sender_chain_key_step'') (lit ''Sender chain is too long''))
      else Inr (hmac_sha256 E (ck_seed c) [MESSAGE_KEY_SEED],
                \<lparr>ck_iteration = ck_iteration c + 1, ck_seed = hmac_sha256 E (ck_seed c) [CHAIN_KEY_SEED]\<rparr>))"

definition step_with_message_key ::
  "group_env \<Rightarrow> sender_chain_key \<Rightarrow> (signal_error, sender_message_key \<times> sender_chain_key) result" where
  "step_with_message_key E c =
     map_res (\<lambda>(seed, next_chain). (sender_message_key_new E (ck_iteration c) seed, next_chain)) (step_seed_only E c)"

section \<open>The state of a chain\<close>

record sender_key_state =
  sender_key_id :: "u32 option"
  sender_signing_key :: "signing_key_structure option"
  message_keys :: "(u32 \<times> bytes) list"
  sender_chain :: "sender_chain_key option"

definition state_new ::
  "u32 \<Rightarrow> u32 \<Rightarrow> bytes \<Rightarrow> bytes \<Rightarrow> bytes option \<Rightarrow> (signal_error, sender_key_state) result" where
  "state_new chain_id iteration chain_key signature_key signature_private_key =
     (if length chain_key \<noteq> 32 then Inl InvalidProtobufEncoding
      else Inr \<lparr>sender_key_id = Some chain_id,
                sender_signing_key = Some \<lparr>sks_public = Some (public_key_serialize signature_key),
                                          sks_private = signature_private_key\<rparr>,
                message_keys = [],
                sender_chain = Some \<lparr>ck_iteration = iteration, ck_seed = chain_key\<rparr>\<rparr>)"

definition or_0 :: "u32 option \<Rightarrow> u32" where
  "or_0 x = (case x of Some n \<Rightarrow> n | None \<Rightarrow> 0)"

definition stored_key_from_protobuf :: "chain_key_structure \<Rightarrow> u32 \<times> bytes" where
  "stored_key_from_protobuf smk =
     (or_0 (cks_iteration smk),
      case cks_seed smk of Some b \<Rightarrow> if length b = 32 then b else replicate 32 0 | None \<Rightarrow> replicate 32 0)"

definition state_from_protobuf :: "state_structure \<Rightarrow> sender_key_state" where
  "state_from_protobuf s =
     \<lparr>sender_key_id = ss_key_id s,
      sender_signing_key = ss_signing_key s,
      message_keys = map stored_key_from_protobuf (ss_message_keys s),
      sender_chain =
        (case ss_chain_key s of
           None \<Rightarrow> None
         | Some sc \<Rightarrow>
             (case cks_seed sc of
                Some seed \<Rightarrow>
                  if length seed = 32 then Some \<lparr>ck_iteration = or_0 (cks_iteration sc), ck_seed = seed\<rparr> else None
              | None \<Rightarrow> None))\<rparr>"

definition chain_as_protobuf :: "sender_chain_key \<Rightarrow> chain_key_structure" where
  "chain_as_protobuf c = \<lparr>cks_iteration = Some (ck_iteration c), cks_seed = Some (ck_seed c)\<rparr>"

definition state_as_protobuf :: "sender_key_state \<Rightarrow> state_structure" where
  "state_as_protobuf s =
     \<lparr>ss_key_id = sender_key_id s,
      ss_chain_key = map_option chain_as_protobuf (sender_chain s),
      ss_signing_key = sender_signing_key s,
      ss_message_keys = map (\<lambda>(i, seed). \<lparr>cks_iteration = Some i, cks_seed = Some seed\<rparr>) (message_keys s)\<rparr>"

definition chain_id :: "sender_key_state \<Rightarrow> u32" where
  "chain_id s = or_0 (sender_key_id s)"

definition message_version :: u32 where "message_version = 3"

definition set_sender_chain_key :: "sender_chain_key \<Rightarrow> sender_key_state \<Rightarrow> sender_key_state" where
  "set_sender_chain_key c s = s\<lparr>sender_chain := Some c\<rparr>"

lemma word_Suc: "w \<noteq> - 1 \<Longrightarrow> unat (w + 1) = Suc (unat w)" for w :: u32
proof -
  assume "w \<noteq> - 1"
  then have "w + 1 \<noteq> 0" by (metis add.inverse_unique add.commute minus_equation_iff)
  then show ?thesis using unatSuc [of w] by (simp add: add.commute)
qed

lemma chain_next_iteration: "chain_next E c = Inr c' \<Longrightarrow> unat (ck_iteration c') = Suc (unat (ck_iteration c))"
  by (auto simp: chain_next_def word_Suc split: if_splits)

function advance_chain :: "group_env \<Rightarrow> u32 \<Rightarrow> sender_chain_key \<Rightarrow> (signal_error, sender_chain_key) result" where
  "advance_chain E target c =
     (if ck_iteration c < target
      then (case chain_next E c of Inl e \<Rightarrow> Inl e | Inr c' \<Rightarrow> advance_chain E target c')
      else Inr c)"
  by pat_completeness auto
termination
  by (relation "measure (\<lambda>(E, target, c). unat target - unat (ck_iteration c))")
     (auto dest!: chain_next_iteration simp: word_less_nat_alt)

declare advance_chain.simps [simp del]

definition saturating_sub_u32 :: "u32 \<Rightarrow> u32 \<Rightarrow> u32" where
  "saturating_sub_u32 a b = (if b \<le> a then a - b else 0)"

definition fast_forward_sender_chain ::
  "group_env \<Rightarrow> u32 \<Rightarrow> sender_key_state \<Rightarrow> (signal_error, sender_key_state) result" where
  "fast_forward_sender_chain E target s =
     (case sender_chain s of
        None \<Rightarrow> Inr s
      | Some chain_key \<Rightarrow>
          if saturating_sub_u32 target (ck_iteration chain_key) > MAX_RESERVATION_FAST_FORWARD then
            Inl (InvalidState (lit ''fast_forward_sender_chain'')
                   (lit ''reserved sender-key iteration implausibly far ahead''))
          else if ck_iteration chain_key \<ge> target then Inr s
          else map_res (\<lambda>c. set_sender_chain_key c s) (advance_chain E target chain_key))"

definition signing_key_public :: "sender_key_state \<Rightarrow> bytes option" where
  "signing_key_public s =
     (case sender_signing_key s of
        Some k \<Rightarrow> Option.bind (sks_public k) (\<lambda>v. case public_key_deserialize v of Inl _ \<Rightarrow> None | Inr key \<Rightarrow> Some key)
      | None \<Rightarrow> None)"

definition signing_key_private :: "group_env \<Rightarrow> sender_key_state \<Rightarrow> bytes option" where
  "signing_key_private E s =
     (case sender_signing_key s of
        Some k \<Rightarrow> Option.bind (sks_private k) (signing_key_deserialize E)
      | None \<Rightarrow> None)"

definition add_skipped_message_key :: "u32 \<Rightarrow> bytes \<Rightarrow> sender_key_state \<Rightarrow> sender_key_state" where
  "add_skipped_message_key iteration seed s =
     (let keys = message_keys s @ [(iteration, seed)];
          len = length keys
      in s\<lparr>message_keys :=
            (if len > MAX_MESSAGE_KEYS + MESSAGE_KEY_PRUNE_THRESHOLD then drop (len - MAX_MESSAGE_KEYS) keys
             else keys)\<rparr>)"

text \<open>\<open>position\<close>, \<open>remove\<close> of the standard library.\<close>

fun position :: "('a \<Rightarrow> bool) \<Rightarrow> 'a list \<Rightarrow> nat option" where
  "position P [] = None"
| "position P (x # xs) = (if P x then Some 0 else map_option Suc (position P xs))"

definition remove_at :: "nat \<Rightarrow> 'a list \<Rightarrow> 'a list" where
  "remove_at i xs = take i xs @ drop (Suc i) xs"

definition remove_sender_message_key ::
  "group_env \<Rightarrow> u32 \<Rightarrow> sender_key_state \<Rightarrow> (sender_message_key \<times> sender_key_state) option" where
  "remove_sender_message_key E iteration s =
     (case position (\<lambda>(i, _). i = iteration) (message_keys s) of
        None \<Rightarrow> None
      | Some index \<Rightarrow>
          (case message_keys s ! index of
             (i, seed) \<Rightarrow>
               Some (sender_message_key_new E i seed, s\<lparr>message_keys := remove_at index (message_keys s)\<rparr>)))"

section \<open>The record\<close>

record sender_key_record =
  states :: "sender_key_state list"
  lease :: counter_lease

definition record_new_empty :: sender_key_record where
  "record_new_empty = \<lparr>states = [], lease = lease_default\<rparr>"

text \<open>Advance the front state, if there is one, to a ceiling that is not zero.\<close>

definition materialize ::
  "group_env \<Rightarrow> u32 \<Rightarrow> sender_key_state list \<Rightarrow> (signal_error, sender_key_state list) result" where
  "materialize E target ss =
     (case ss of
        s # rest \<Rightarrow> if target > 0 then map_res (\<lambda>s. s # rest) (fast_forward_sender_chain E target s) else Inr ss
      | [] \<Rightarrow> Inr ss)"

definition waive_counter_lease :: "group_env \<Rightarrow> sender_key_record \<Rightarrow> (signal_error, sender_key_record) result" where
  "waive_counter_lease E r =
     map_res (\<lambda>ss. \<lparr>states = ss, lease = lease_waive (lease r)\<rparr>)
       (materialize E (lease_ceiling (lease r)) (states r))"

definition reserve_iterations :: "u32 \<Rightarrow> sender_key_record \<Rightarrow> sender_key_record" where
  "reserve_iterations spent r = r\<lparr>lease := lease_reserve spent (lease r)\<rparr>"

definition mark_wire_gated :: "sender_key_record \<Rightarrow> sender_key_record" where
  "mark_wire_gated r = r\<lparr>lease := set_pending_flush True (lease r)\<rparr>"

definition is_wire_gated :: "sender_key_record \<Rightarrow> bool" where
  "is_wire_gated r = is_pending_flush (lease r)"

definition clear_wire_gated :: "sender_key_record \<Rightarrow> sender_key_record" where
  "clear_wire_gated r = r\<lparr>lease := set_pending_flush False (lease r)\<rparr>"

definition remove_state :: "u32 \<Rightarrow> bytes \<Rightarrow> sender_key_state list \<Rightarrow> sender_key_state option \<times> sender_key_state list" where
  "remove_state cid signature_key ss =
     (case position (\<lambda>s. chain_id s = cid \<and> signing_key_public s = Some signature_key) ss of
        None \<Rightarrow> (None, ss)
      | Some index \<Rightarrow> (Some (ss ! index), remove_at index ss))"

definition add_sender_key_state ::
  "u32 \<Rightarrow> u32 \<Rightarrow> bytes \<Rightarrow> bytes \<Rightarrow> bytes option \<Rightarrow> sender_key_record \<Rightarrow> (signal_error, sender_key_record) result" where
  "add_sender_key_state cid iteration chain_key signature_key signature_private_key r =
     (let (existing_state, ss) = remove_state cid signature_key (states r);
          ss = filter (\<lambda>s. chain_id s \<noteq> cid) ss
      in map_res
           (\<lambda>s. \<lparr>states = s # take (MAX_SENDER_KEY_STATES - 1) ss, lease = clear_reservation (lease r)\<rparr>)
           (case existing_state of
              None \<Rightarrow> state_new cid iteration chain_key signature_key signature_private_key
            | Some s \<Rightarrow> Inr s))"

section \<open>The persisted form\<close>

definition COUNTER_RESERVATION_FIELD :: nat where "COUNTER_RESERVATION_FIELD = 100"
definition STORE_INCARNATION_FIELD :: nat where "STORE_INCARNATION_FIELD = 101"
definition STORE_INCARNATION_LEN :: nat where "STORE_INCARNATION_LEN = 16"

text \<open>
  The loop over the fields: the reservation, the incarnation, and whether the incarnation is valid. Each
  turn reads a tag, so the bytes bound the number of turns: one more is enough fuel.
\<close>

fun local_fields_loop ::
  "group_env \<Rightarrow> nat \<Rightarrow> bytes \<Rightarrow> u32 option \<Rightarrow> bytes option \<Rightarrow> bool \<Rightarrow> (signal_error, u32 \<times> bytes option) result" where
  "local_fields_loop E 0 bs reservation incarnation valid = Inl InvalidProtobufEncoding"
| "local_fields_loop E (Suc fuel) bs reservation incarnation valid =
     (if bs = [] then Inr (or_0 reservation, if valid then incarnation else None)
      else
        bind_res (ok_or InvalidProtobufEncoding (tag_decode E bs)) (\<lambda>((field, wire_type), bs).
        if field = COUNTER_RESERVATION_FIELD then
          if wire_type \<noteq> Varint \<or> reservation \<noteq> None then Inl InvalidProtobufEncoding
          else
            bind_res (ok_or InvalidProtobufEncoding (decode_varint E bs)) (\<lambda>(raw, bs).
            if unat raw \<ge> 2 ^ 32 then Inl InvalidProtobufEncoding
            else local_fields_loop E fuel bs (Some (ucast raw)) incarnation valid)
        else if field = STORE_INCARNATION_FIELD then
          if wire_type = LengthDelimited then
            bind_res (ok_or InvalidProtobufEncoding (decode_varint E bs)) (\<lambda>(raw, bs).
            let len = unat raw in
            if length bs < len then Inl InvalidProtobufEncoding
            else if len = STORE_INCARNATION_LEN \<and> incarnation = None \<and> valid
              then local_fields_loop E fuel (drop len bs) reservation (Some (take len bs)) valid
            else local_fields_loop E fuel (drop len bs) reservation None False)
          else
            bind_res (ok_or InvalidProtobufEncoding (skip_field E (field, wire_type) bs)) (\<lambda>bs.
            local_fields_loop E fuel bs reservation None False)
        else
          bind_res (ok_or InvalidProtobufEncoding (skip_field E (field, wire_type) bs)) (\<lambda>bs.
          local_fields_loop E fuel bs reservation incarnation valid)))"

definition decode_local_record_fields :: "group_env \<Rightarrow> bytes \<Rightarrow> (signal_error, u32 \<times> bytes option) result" where
  "decode_local_record_fields E buf = local_fields_loop E (Suc (length buf)) buf None None True"

definition encode_store_incarnation :: "group_env \<Rightarrow> bytes \<Rightarrow> bytes" where
  "encode_store_incarnation E incarnation =
     tag_encode E STORE_INCARNATION_FIELD LengthDelimited @ encode_varint E (of_nat STORE_INCARNATION_LEN) @ incarnation"

text \<open>\<open>seed_to_array\<close> as a check: the seeds of a decoded state must be there and have 32 bytes.\<close>

definition seed_ok :: "chain_key_structure \<Rightarrow> bool" where
  "seed_ok c = (case cks_seed c of Some b \<Rightarrow> length b = 32 | None \<Rightarrow> False)"

definition structure_ok :: "state_structure \<Rightarrow> bool" where
  "structure_ok s \<longleftrightarrow>
     (case ss_chain_key s of Some c \<Rightarrow> seed_ok c | None \<Rightarrow> True) \<and> list_all seed_ok (ss_message_keys s)"

definition deserialize_inner :: "group_env \<Rightarrow> bytes \<Rightarrow> bytes option \<Rightarrow> (signal_error, sender_key_record) result" where
  "deserialize_inner E buf incarnation =
     (case record_decode E buf of
        None \<Rightarrow> Inl InvalidProtobufEncoding
      | Some skr \<Rightarrow>
          let skr = take MAX_SENDER_KEY_STATES skr in
          if \<not> list_all structure_ok skr then Inl InvalidProtobufEncoding
          else
            bind_res (decode_local_record_fields E buf) (\<lambda>(reserved_iteration, stored).
            let trusted_reload = (case incarnation of Some current \<Rightarrow> stored = Some current | None \<Rightarrow> False);
                ss = map state_from_protobuf skr
            in map_res (\<lambda>ss. \<lparr>states = ss, lease = from_persisted_ceiling reserved_iteration\<rparr>)
                 (if trusted_reload then Inr ss else materialize E reserved_iteration ss)))"

definition record_deserialize :: "group_env \<Rightarrow> bytes \<Rightarrow> (signal_error, sender_key_record) result" where
  "record_deserialize E buf = deserialize_inner E buf None"

definition deserialize_for_store :: "group_env \<Rightarrow> bytes \<Rightarrow> bytes \<Rightarrow> (signal_error, sender_key_record) result" where
  "deserialize_for_store E incarnation buf = deserialize_inner E buf (Some incarnation)"

definition serialize_inner :: "group_env \<Rightarrow> bytes option \<Rightarrow> sender_key_record \<Rightarrow> bytes" where
  "serialize_inner E incarnation r =
     (let buf = record_to_vec E (map state_as_protobuf (states r));
          reserved_iteration = lease_ceiling (lease r);
          incarnation = (if reserved_iteration > 0 then incarnation else None)
      in buf @
         (if reserved_iteration > 0
          then tag_encode E COUNTER_RESERVATION_FIELD Varint @ encode_varint E (ucast reserved_iteration) else []) @
         (case incarnation of Some i \<Rightarrow> encode_store_incarnation E i | None \<Rightarrow> []))"

definition record_serialize :: "group_env \<Rightarrow> sender_key_record \<Rightarrow> bytes" where
  "record_serialize E r = serialize_inner E None r"

definition serialize_for_store :: "group_env \<Rightarrow> bytes \<Rightarrow> sender_key_record \<Rightarrow> bytes" where
  "serialize_for_store E incarnation r = serialize_inner E (Some incarnation) r"

section \<open>Messages\<close>

record sender_key_message =
  skm_version :: u8
  skm_chain_id :: u32
  skm_iteration :: u32
  skm_serialized :: bytes
  skm_ciphertext :: bytes

definition SIGNATURE_LEN :: nat where "SIGNATURE_LEN = 64"

definition encode_version_byte :: "u8 \<Rightarrow> u8 \<Rightarrow> u8" where
  "encode_version_byte version current = push_bit 4 (version AND 0xF) OR (current AND 0xF)"

definition skm_new ::
  "group_env \<Rightarrow> u8 \<Rightarrow> u32 \<Rightarrow> u32 \<Rightarrow> bytes \<Rightarrow> bytes \<Rightarrow> bytes \<Rightarrow> sender_key_message" where
  "skm_new E version cid iteration ciphertext rng signature_key =
     (let serialized = encode_version_byte version SENDERKEY_MESSAGE_CURRENT_VERSION #
                       push_varint_field E 1 (ucast cid) @ push_varint_field E 2 (ucast iteration) @
                       push_bytes_field E 3 ciphertext;
          signature = xed_sign E signature_key serialized rng
      in \<lparr>skm_version = version, skm_chain_id = cid, skm_iteration = iteration,
          skm_serialized = serialized @ signature, skm_ciphertext = ciphertext\<rparr>)"

definition skm_verify :: "group_env \<Rightarrow> bytes \<Rightarrow> sender_key_message \<Rightarrow> bool" where
  "skm_verify E key m =
     (let n = length (skm_serialized m) - SIGNATURE_LEN
      in key_verify E key (take n (skm_serialized m)) (drop n (skm_serialized m)))"

text \<open>\<open>parse\<close> and \<open>TryFrom\<close>: the ciphertext is kept where the source keeps its range in the message.\<close>

definition skm_parse :: "group_env \<Rightarrow> bytes \<Rightarrow> (signal_error, sender_key_message) result" where
  "skm_parse E v =
     (if length v < 1 + SIGNATURE_LEN then Inl (CiphertextMessageTooShort (length v))
      else
        let version = drop_bit 4 (hd v) in
        if version < SENDERKEY_MESSAGE_CURRENT_VERSION then Inl (LegacyCiphertextVersion version)
        else if version > SENDERKEY_MESSAGE_CURRENT_VERSION then Inl (UnrecognizedCiphertextVersion version)
        else
          case skm_view E (take (length v - SIGNATURE_LEN - 1) (tl v)) of
            Some (Some cid, Some iteration, Some ciphertext) \<Rightarrow>
              Inr \<lparr>skm_version = version, skm_chain_id = cid, skm_iteration = iteration,
                   skm_serialized = v, skm_ciphertext = ciphertext\<rparr>
          | _ \<Rightarrow> Inl InvalidProtobufEncoding)"

record sender_key_distribution =
  skdm_version :: u8
  skdm_chain_id :: u32
  skdm_iteration :: u32
  skdm_chain_key :: bytes
  skdm_signing_key :: bytes
  skdm_serialized :: bytes

definition skdm_new :: "group_env \<Rightarrow> u8 \<Rightarrow> u32 \<Rightarrow> u32 \<Rightarrow> bytes \<Rightarrow> bytes \<Rightarrow> sender_key_distribution" where
  "skdm_new E version cid iteration chain_key signing_key =
     \<lparr>skdm_version = version, skdm_chain_id = cid, skdm_iteration = iteration, skdm_chain_key = chain_key,
      skdm_signing_key = signing_key,
      skdm_serialized = encode_version_byte version SENDERKEY_MESSAGE_CURRENT_VERSION #
        push_varint_field E 1 (ucast cid) @ push_varint_field E 2 (ucast iteration) @ push_bytes_field E 3 chain_key @
        push_bytes_field E 4 (public_key_serialize signing_key)\<rparr>"

definition skdm_parse :: "group_env \<Rightarrow> bytes \<Rightarrow> (signal_error, sender_key_distribution) result" where
  "skdm_parse E v =
     (if length v < 1 + 32 + 32 then Inl (CiphertextMessageTooShort (length v))
      else
        let version = drop_bit 4 (hd v) in
        if version < SENDERKEY_MESSAGE_CURRENT_VERSION then Inl (LegacyCiphertextVersion version)
        else if version > SENDERKEY_MESSAGE_CURRENT_VERSION then Inl (UnrecognizedCiphertextVersion version)
        else
          case skdm_view E (tl v) of
            Some (Some cid, Some iteration, Some chain_key, Some signing_key) \<Rightarrow>
              if length chain_key \<noteq> 32 \<or> length signing_key \<noteq> 33 then Inl InvalidProtobufEncoding
              else
                map_res (\<lambda>key. \<lparr>skdm_version = version, skdm_chain_id = cid, skdm_iteration = iteration,
                                skdm_chain_key = chain_key, skdm_signing_key = key, skdm_serialized = v\<rparr>)
                  (public_key_deserialize signing_key)
          | _ \<Rightarrow> Inl InvalidProtobufEncoding)"

section \<open>The group cipher\<close>

definition aes_256_cbc_encrypt_into :: "group_env \<Rightarrow> bytes \<Rightarrow> bytes \<Rightarrow> bytes \<Rightarrow> bytes option" where
  "aes_256_cbc_encrypt_into E ptext key iv =
     (if length key \<noteq> 32 \<or> length iv \<noteq> 16 then None else cbc_encrypt E key iv ptext)"

definition aes_256_cbc_decrypt_into :: "group_env \<Rightarrow> bytes \<Rightarrow> bytes \<Rightarrow> bytes \<Rightarrow> (signal_error, bytes) result" where
  "aes_256_cbc_decrypt_into E ctext key iv =
     (if length key \<noteq> 32 \<or> length iv \<noteq> 16 then Inl InvalidSenderKeySession
      else ok_or (InvalidMessage (lit ''decryption failed'')) (cbc_decrypt E key iv ctext))"

definition group_encrypt ::
  "group_env \<Rightarrow> bytes \<Rightarrow> bytes \<Rightarrow> sender_key_record option \<Rightarrow>
   (signal_error, sender_key_message \<times> sender_key_record) result" where
  "group_encrypt E rng plaintext loaded =
     bind_res (ok_or NoSenderKeyState loaded) (\<lambda>record.
     case states record of
       [] \<Rightarrow> Inl InvalidSenderKeySession
     | s # rest \<Rightarrow>
         bind_res (ok_or InvalidSenderKeySession (sender_chain s)) (\<lambda>sender_chain_key.
         bind_res (step_with_message_key E sender_chain_key) (\<lambda>(keys, next_sender_chain_key).
         bind_res (ok_or InvalidSenderKeySession
             (aes_256_cbc_encrypt_into E plaintext (smk_cipher_key keys) (smk_iv keys))) (\<lambda>ciphertext.
         bind_res (ok_or InvalidSenderKeySession (signing_key_private E s)) (\<lambda>signing_key.
         let skm = skm_new E (ucast message_version) (chain_id s) (smk_iteration keys) ciphertext rng signing_key;
             s = set_sender_chain_key next_sender_chain_key s
         in Inr (skm, reserve_iterations (smk_iteration keys) (record\<lparr>states := s # rest\<rparr>)))))))"

text \<open>The catch-up loop: buffer the seeds of the skipped iterations.\<close>

lemma step_seed_only_iteration:
  "step_seed_only E c = Inr (seed, c') \<Longrightarrow> unat (ck_iteration c') = Suc (unat (ck_iteration c))"
  by (auto simp: step_seed_only_def word_Suc split: if_splits)

function skip_to ::
  "group_env \<Rightarrow> u32 \<Rightarrow> sender_chain_key \<Rightarrow> sender_key_state \<Rightarrow>
   (signal_error, sender_chain_key \<times> sender_key_state) result" where
  "skip_to E iteration c s =
     (if ck_iteration c < iteration then
        (case step_seed_only E c of
           Inl e \<Rightarrow> Inl e
         | Inr (seed, next_chain) \<Rightarrow>
             skip_to E iteration next_chain (add_skipped_message_key (ck_iteration c) seed s))
      else Inr (c, s))"
  by pat_completeness auto
termination
  by (relation "measure (\<lambda>(E, iteration, c, s). unat iteration - unat (ck_iteration c))")
     (auto dest!: step_seed_only_iteration simp: word_less_nat_alt)

declare skip_to.simps [simp del]

definition get_sender_key ::
  "group_env \<Rightarrow> u32 \<Rightarrow> sender_key_state \<Rightarrow> (signal_error, sender_message_key \<times> sender_key_state) result" where
  "get_sender_key E iteration s =
     bind_res (ok_or InvalidSenderKeySession (sender_chain s)) (\<lambda>sender_chain_key.
     let current_iteration = ck_iteration sender_chain_key in
     if current_iteration > iteration then
       ok_or (DuplicatedMessage current_iteration iteration) (remove_sender_message_key E iteration s)
     else if unat (iteration - current_iteration) > MAX_FORWARD_JUMPS then
       Inl (InvalidMessage (lit ''message from too far into the future''))
     else
       bind_res (skip_to E iteration sender_chain_key s) (\<lambda>(sender_chain_key, s).
       bind_res (step_with_message_key E sender_chain_key) (\<lambda>(result_message_key, next_chain).
         Inr (result_message_key, set_sender_chain_key next_chain s))))"

definition group_decrypt ::
  "group_env \<Rightarrow> bytes \<Rightarrow> sender_key_record option \<Rightarrow> (signal_error, bytes \<times> sender_key_record) result" where
  "group_decrypt E skm_bytes loaded =
     bind_res (skm_parse E skm_bytes) (\<lambda>skm.
     bind_res (ok_or NoSenderKeyState loaded) (\<lambda>record.
     bind_res (ok_or NoSenderKeyState (position (\<lambda>s. chain_id s = skm_chain_id skm) (states record))) (\<lambda>i.
     let s = states record ! i in
     if ucast (skm_version skm) \<noteq> message_version then
       Inl (UnrecognizedMessageVersion (ucast (skm_version skm)))
     else
       bind_res (ok_or InvalidSenderKeySession (signing_key_public s)) (\<lambda>signing_key.
       if \<not> skm_verify E signing_key skm then Inl SignatureValidationFailed
       else
         bind_res (get_sender_key E (skm_iteration skm) s) (\<lambda>(sender_key, s).
         bind_res (aes_256_cbc_decrypt_into E (skm_ciphertext skm) (smk_cipher_key sender_key) (smk_iv sender_key)) (\<lambda>plaintext.
           Inr (plaintext, record\<lparr>states := (states record)[i := s]\<rparr>)))))))"

definition process_sender_key_distribution_message ::
  "sender_key_distribution \<Rightarrow> sender_key_record option \<Rightarrow> (signal_error, sender_key_record) result" where
  "process_sender_key_distribution_message skdm loaded =
     add_sender_key_state (skdm_chain_id skdm) (skdm_iteration skdm) (skdm_chain_key skdm) (skdm_signing_key skdm) None
       (case loaded of Some r \<Rightarrow> r | None \<Rightarrow> record_new_empty)"

definition build_skdm_from_record :: "group_env \<Rightarrow> sender_key_record \<Rightarrow> (signal_error, sender_key_distribution) result" where
  "build_skdm_from_record E r =
     (case states r of
        [] \<Rightarrow> Inl InvalidSenderKeySession
      | s # _ \<Rightarrow>
          bind_res (ok_or InvalidSenderKeySession (sender_chain s)) (\<lambda>c.
          bind_res (ok_or InvalidSenderKeySession (signing_key_public s)) (\<lambda>key.
            Inr (skdm_new E (ucast message_version) (chain_id s) (ck_iteration c) (ck_seed c) key))))"

text \<open>The random words are inputs; the record comes back when it has to be stored.\<close>

definition create_sender_key_distribution_message ::
  "group_env \<Rightarrow> u32 \<Rightarrow> bytes \<Rightarrow> bytes \<times> bytes \<Rightarrow> sender_key_record option \<Rightarrow>
   (signal_error, sender_key_distribution \<times> sender_key_record option) result" where
  "create_sender_key_distribution_message E random_id sender_key signing_key loaded =
     (case loaded of
        Some r \<Rightarrow> map_res (\<lambda>skdm. (skdm, None)) (build_skdm_from_record E r)
      | None \<Rightarrow>
          bind_res (add_sender_key_state (drop_bit 1 random_id) 0 sender_key (fst signing_key) (Some (snd signing_key))
                      record_new_empty) (\<lambda>r.
          map_res (\<lambda>skdm. (skdm, Some r)) (build_skdm_from_record E r)))"

section \<open>One chain, two ends\<close>

text \<open>The seeds of a chain that starts with \<open>seed\<close>, \<open>n\<close> steps on.\<close>

definition chain_seed :: "group_env \<Rightarrow> bytes \<Rightarrow> nat \<Rightarrow> bytes" where
  "chain_seed E seed n = ((\<lambda>s. hmac_sha256 E s [CHAIN_KEY_SEED]) ^^ n) seed"

definition key_seed :: "group_env \<Rightarrow> bytes \<Rightarrow> nat \<Rightarrow> bytes" where
  "key_seed E seed n = hmac_sha256 E (chain_seed E seed n) [MESSAGE_KEY_SEED]"

definition the_key :: "group_env \<Rightarrow> nat \<Rightarrow> bytes \<Rightarrow> u32 \<Rightarrow> sender_message_key" where
  "the_key E base seed n = sender_message_key_new E n (key_seed E seed (unat n - base))"

definition chain_ok :: "group_env \<Rightarrow> nat \<Rightarrow> bytes \<Rightarrow> sender_chain_key \<Rightarrow> bool" where
  "chain_ok E base seed c \<longleftrightarrow> base \<le> unat (ck_iteration c) \<and> ck_seed c = chain_seed E seed (unat (ck_iteration c) - base)"

definition keys_ok :: "group_env \<Rightarrow> nat \<Rightarrow> bytes \<Rightarrow> nat \<Rightarrow> (u32 \<times> bytes) list \<Rightarrow> bool" where
  "keys_ok E base seed it ks \<longleftrightarrow>
     distinct (map fst ks) \<and>
     (\<forall>(j, sd) \<in> set ks. base \<le> unat j \<and> unat j < it \<and> sd = key_seed E seed (unat j - base))"

definition on_chain :: "group_env \<Rightarrow> nat \<Rightarrow> bytes \<Rightarrow> sender_key_state \<Rightarrow> bool" where
  "on_chain E base seed s \<longleftrightarrow>
     (\<exists>c. sender_chain s = Some c \<and> chain_ok E base seed c \<and>
          keys_ok E base seed (unat (ck_iteration c)) (message_keys s))"

text \<open>The iterations a state can still give a key for.\<close>

definition available_keys :: "sender_key_state \<Rightarrow> u32 set" where
  "available_keys s =
     fst ` set (message_keys s) \<union> (case sender_chain s of Some c \<Rightarrow> {n. ck_iteration c \<le> n} | None \<Rightarrow> {})"

lemma chain_seed_Suc: "chain_seed E seed (Suc n) = hmac_sha256 E (chain_seed E seed n) [CHAIN_KEY_SEED]"
  by (simp add: chain_seed_def)

lemma step_seed_only_ok:
  assumes "chain_ok E base seed c" and "step_seed_only E c = Inr (sd, c')"
  shows "chain_ok E base seed c'" "sd = key_seed E seed (unat (ck_iteration c) - base)"
    "unat (ck_iteration c') = Suc (unat (ck_iteration c))"
proof -
  show "unat (ck_iteration c') = Suc (unat (ck_iteration c))" using step_seed_only_iteration [OF assms(2)] .
  with assms show "chain_ok E base seed c'" "sd = key_seed E seed (unat (ck_iteration c) - base)"
    by (auto simp: step_seed_only_def chain_ok_def chain_seed_Suc key_seed_def Suc_diff_le split: if_splits)
qed

lemma step_with_message_key_ok:
  assumes "chain_ok E base seed c" and "step_with_message_key E c = Inr (k, c')"
  shows "chain_ok E base seed c'" "k = the_key E base seed (ck_iteration c)"
    "unat (ck_iteration c') = Suc (unat (ck_iteration c))"
proof -
  obtain sd where sd: "step_seed_only E c = Inr (sd, c')" "k = sender_message_key_new E (ck_iteration c) sd"
    using assms(2) by (auto simp: step_with_message_key_def map_res_Inr_iff)
  with step_seed_only_ok [OF assms(1) sd(1)]
  show "chain_ok E base seed c'" "k = the_key E base seed (ck_iteration c)"
    "unat (ck_iteration c') = Suc (unat (ck_iteration c))" by (simp_all add: the_key_def)
qed

lemma keys_ok_mono: "keys_ok E base seed it ks \<Longrightarrow> it \<le> it' \<Longrightarrow> keys_ok E base seed it' ks"
  by (fastforce simp: keys_ok_def)

lemma keys_ok_drop: "keys_ok E base seed it ks \<Longrightarrow> keys_ok E base seed it (drop n ks)"
  by (auto simp: keys_ok_def distinct_drop drop_map [symmetric] dest: in_set_dropD)

lemma keys_ok_snoc:
  assumes "keys_ok E base seed (unat j) ks" and "base \<le> unat j"
  shows "keys_ok E base seed (Suc (unat j)) (ks @ [(j, key_seed E seed (unat j - base))])"
  using assms by (fastforce simp: keys_ok_def)

text \<open>What buffering one skipped key does to the backlog.\<close>

definition backlog_limit :: nat where "backlog_limit = MAX_MESSAGE_KEYS + MESSAGE_KEY_PRUNE_THRESHOLD"

lemma add_skipped_keys:
  "message_keys (add_skipped_message_key j sd s) =
     (if length (message_keys s) < backlog_limit then message_keys s @ [(j, sd)]
      else drop (Suc (length (message_keys s)) - MAX_MESSAGE_KEYS) (message_keys s @ [(j, sd)]))"
  "sender_chain (add_skipped_message_key j sd s) = sender_chain s"
  by (auto simp: add_skipped_message_key_def Let_def backlog_limit_def)

lemma step_seed_only_total: "ck_iteration c < n \<Longrightarrow> \<exists>sd c'. step_seed_only E c = Inr (sd, c')"
  by (auto simp: step_seed_only_def word_order.extremum_strict)

lemma skip_to_total: "\<exists>c' s'. skip_to E n c s = Inr (c', s')"
proof (induction E n c s rule: skip_to.induct)
  case (1 E n c s)
  show ?case
  proof (cases "ck_iteration c < n")
    case True
    then obtain sd c' where st: "step_seed_only E c = Inr (sd, c')" using step_seed_only_total by blast
    from 1 [OF True st] show ?thesis using True st by (simp add: skip_to.simps [of E n c s])
  qed (simp add: skip_to.simps)
qed

text \<open>The parts of a state no chain operation touches.\<close>

definition same_identity :: "sender_key_state \<Rightarrow> sender_key_state \<Rightarrow> bool" where
  "same_identity s s' \<longleftrightarrow> sender_key_id s' = sender_key_id s \<and> sender_signing_key s' = sender_signing_key s"

lemma same_identity_trans: "same_identity s t \<Longrightarrow> same_identity t u \<Longrightarrow> same_identity s u"
  by (simp add: same_identity_def)

lemma add_skipped_identity [simp]: "same_identity s (add_skipped_message_key j sd s)"
  by (simp add: same_identity_def add_skipped_message_key_def Let_def)

lemma skip_to_frame:
  "skip_to E n c s = Inr (c', s') \<Longrightarrow> same_identity s s' \<and> sender_chain s' = sender_chain s"
proof (induction E n c s rule: skip_to.induct)
  case (1 E n c s)
  show ?case
  proof (cases "ck_iteration c < n")
    case True
    then obtain sd d where st: "step_seed_only E c = Inr (sd, d)" using step_seed_only_total by blast
    have "skip_to E n d (add_skipped_message_key (ck_iteration c) sd s) = Inr (c', s')"
      using 1(2) True st by (simp add: skip_to.simps [of E n c s])
    from 1(1) [OF True st refl this] show ?thesis
      using same_identity_trans [OF add_skipped_identity] by (auto simp: add_skipped_keys)
  qed (use 1(2) in \<open>simp add: skip_to.simps same_identity_def\<close>)
qed

lemma skip_to_chain:
  assumes "skip_to E n c s = Inr (c', s')" and "chain_ok E base seed c"
    and "keys_ok E base seed (unat (ck_iteration c)) (message_keys s)"
  shows "chain_ok E base seed c' \<and> ck_iteration c' = max n (ck_iteration c) \<and>
    keys_ok E base seed (unat (ck_iteration c')) (message_keys s')"
  using assms
proof (induction E n c s rule: skip_to.induct)
  case (1 E n c s)
  show ?case
  proof (cases "ck_iteration c < n")
    case True
    then obtain sd d where st: "step_seed_only E c = Inr (sd, d)" using step_seed_only_total by blast
    note d = step_seed_only_ok [OF 1(3) st]
    let ?s = "add_skipped_message_key (ck_iteration c) sd s"
    have run: "skip_to E n d ?s = Inr (c', s')" using 1(2) True st by (simp add: skip_to.simps [of E n c s])
    have "base \<le> unat (ck_iteration c)" using 1(3) by (simp add: chain_ok_def)
    from keys_ok_snoc [OF 1(4) this] have "keys_ok E base seed (unat (ck_iteration d)) (message_keys ?s)"
      using d by (simp add: add_skipped_keys keys_ok_drop del: drop_append)
    note IH = 1(1) [OF True st refl run d(1) this]
    have "ck_iteration d \<le> n" using True d(3) by (simp add: word_le_nat_alt word_less_nat_alt)
    with IH True show ?thesis by (auto simp: max.absorb1)
  next
    case False
    with 1 show ?thesis by (auto simp: skip_to.simps max_def)
  qed
qed

lemma range_step:
  assumes "unat (d :: u32) = Suc (unat c)" and "c < n"
  shows "{j. c \<le> j \<and> j < n} = insert c {j. d \<le> j \<and> j < n}"
  using assms by (auto simp: word_le_nat_alt word_less_nat_alt word_unat_eq_iff)

text \<open>
  The backlog after catching up: nothing but the skipped iterations is added, and unless the limit is
  crossed nothing is lost.
\<close>

lemma skip_to_keys:
  assumes "skip_to E n c s = Inr (c', s')" and "length (message_keys s) \<le> backlog_limit"
  shows "fst ` set (message_keys s') \<subseteq> fst ` set (message_keys s) \<union> {j. ck_iteration c \<le> j \<and> j < n} \<and>
    length (message_keys s') \<le> backlog_limit \<and>
    (length (message_keys s) + (unat n - unat (ck_iteration c)) \<le> backlog_limit \<longrightarrow>
      fst ` set (message_keys s') = fst ` set (message_keys s) \<union> {j. ck_iteration c \<le> j \<and> j < n} \<and>
      length (message_keys s') = length (message_keys s) + (unat n - unat (ck_iteration c)))"
  using assms
proof (induction E n c s rule: skip_to.induct)
  case (1 E n c s)
  show ?case
  proof (cases "ck_iteration c < n")
    case True
    then obtain sd d where st: "step_seed_only E c = Inr (sd, d)" using step_seed_only_total by blast
    note it = step_seed_only_iteration [OF st]
    let ?s = "add_skipped_message_key (ck_iteration c) sd s"
    have run: "skip_to E n d ?s = Inr (c', s')" using 1(2) True st by (simp add: skip_to.simps [of E n c s])
    have len: "length (message_keys ?s) \<le> backlog_limit"
      using 1(3) by (auto simp: add_skipped_keys backlog_limit_def)
    have sub: "fst ` set (message_keys ?s) \<subseteq> insert (ck_iteration c) (fst ` set (message_keys s))"
      by (auto simp: add_skipped_keys dest!: in_set_dropD)
    have eq: "fst ` set (message_keys ?s) = insert (ck_iteration c) (fst ` set (message_keys s))"
      "length (message_keys ?s) = Suc (length (message_keys s))" if "length (message_keys s) < backlog_limit"
      using that by (auto simp: add_skipped_keys)
    have n: "unat n - unat (ck_iteration c) = Suc (unat n - unat (ck_iteration d))"
      using True it by (simp add: word_less_nat_alt)
    note IH = 1(1) [OF True st refl run len]
    have "fst ` set (message_keys s') \<subseteq> fst ` set (message_keys s) \<union> insert (ck_iteration c) {j. ck_iteration d \<le> j \<and> j < n}"
      using IH sub by blast
    moreover have "fst ` set (message_keys s') = fst ` set (message_keys s) \<union> insert (ck_iteration c) {j. ck_iteration d \<le> j \<and> j < n} \<and>
        length (message_keys s') = length (message_keys s) + (unat n - unat (ck_iteration c))"
      if "length (message_keys s) + (unat n - unat (ck_iteration c)) \<le> backlog_limit"
      using IH eq n that by simp
    ultimately show ?thesis using IH unfolding range_step [OF it True] by blast
  next
    case False
    with 1 show ?thesis by (auto simp: skip_to.simps word_less_nat_alt word_le_nat_alt)
  qed
qed

lemma position_Some:
  "position P xs = Some i \<Longrightarrow> i < length xs \<and> P (xs ! i)"
  by (induction xs arbitrary: i) (auto split: if_splits)

lemma position_None: "position P xs = None \<longleftrightarrow> (\<forall>x \<in> set xs. \<not> P x)"
  by (induction xs) auto

lemma remove_at_keys:
  assumes "i < length ks" and "distinct (map fst ks)"
  shows "fst ` set (remove_at i ks) = fst ` set ks - {fst (ks ! i)}" "length (remove_at i ks) = length ks - 1"
    "set (remove_at i ks) \<subseteq> set ks" "distinct (map fst (remove_at i ks))"
proof -
  obtain xs x ys where ks: "ks = xs @ x # ys" "length xs = i"
    using id_take_nth_drop [OF assms(1)] assms(1) by (metis length_take min.absorb4)
  have r: "remove_at i ks = xs @ ys" "ks ! i = x" using ks by (auto simp: remove_at_def)
  have d: "distinct (map fst (xs @ x # ys))" using assms(2) ks(1) by simp
  then have "fst x \<notin> fst ` set xs" "fst x \<notin> fst ` set ys" by auto
  then show "fst ` set (remove_at i ks) = fst ` set ks - {fst (ks ! i)}" unfolding r by (simp add: ks(1) image_Un)
  show "length (remove_at i ks) = length ks - 1" "set (remove_at i ks) \<subseteq> set ks" unfolding r by (auto simp: ks(1))
  show "distinct (map fst (remove_at i ks))" unfolding r using d by simp
qed

text \<open>Asking for an iteration behind the chain.\<close>

lemma remove_sender_message_key_ok:
  assumes "keys_ok E base seed it (message_keys s)"
  shows "(case remove_sender_message_key E n s of
      None \<Rightarrow> n \<notin> fst ` set (message_keys s)
    | Some (k, s') \<Rightarrow> n \<in> fst ` set (message_keys s) \<and> k = the_key E base seed n \<and> same_identity s s' \<and>
        sender_chain s' = sender_chain s \<and> keys_ok E base seed it (message_keys s') \<and>
        fst ` set (message_keys s') = fst ` set (message_keys s) - {n} \<and>
        length (message_keys s') < length (message_keys s))"
proof (cases "position (\<lambda>(i, _). i = n) (message_keys s)")
  case None
  then have "n \<notin> fst ` set (message_keys s)" by (auto simp: position_None)
  with None show ?thesis by (simp add: remove_sender_message_key_def)
next
  case (Some i)
  let ?ks = "message_keys s"
  obtain sd where i: "i < length ?ks" "?ks ! i = (n, sd)"
    using position_Some [OF Some] by (cases "?ks ! i") auto
  then have m: "(n, sd) \<in> set ?ks" by (metis nth_mem)
  then have sd: "sd = key_seed E seed (unat n - base)" using assms by (auto simp: keys_ok_def)
  have "distinct (map fst ?ks)" using assms by (simp add: keys_ok_def)
  note r = remove_at_keys [OF i(1) this, unfolded i(2) fst_conv]
  have "keys_ok E base seed it (remove_at i ?ks)" using r(3,4) assms by (auto simp: keys_ok_def)
  moreover have "length (remove_at i ?ks) < length ?ks" using r(2) i(1) by simp
  moreover have "n \<in> fst ` set ?ks" using m by force
  moreover have "remove_sender_message_key E n s =
      Some (sender_message_key_new E n sd, s\<lparr>message_keys := remove_at i ?ks\<rparr>)"
    unfolding remove_sender_message_key_def Some using i(2) by simp
  ultimately show ?thesis using r(1) sd by (simp add: the_key_def same_identity_def)
qed

lemma get_sender_key_behind:
  assumes "sender_chain s = Some c" and "n < ck_iteration c"
  shows "get_sender_key E n s = ok_or (DuplicatedMessage (ck_iteration c) n) (remove_sender_message_key E n s)"
  using assms by (simp add: get_sender_key_def Let_def)

lemma get_sender_key_ahead:
  assumes "sender_chain s = Some c" and "\<not> n < ck_iteration c"
  shows "get_sender_key E n s =
    (if unat n - unat (ck_iteration c) > MAX_FORWARD_JUMPS
     then Inl (InvalidMessage (lit ''message from too far into the future''))
     else bind_res (skip_to E n c s) (\<lambda>(c, s). map_res (\<lambda>(k, c). (k, set_sender_chain_key c s)) (step_with_message_key E c)))"
proof -
  have "unat (n - ck_iteration c) = unat n - unat (ck_iteration c)"
    using assms(2) by (simp add: unat_sub not_less)
  with assms show ?thesis
    by (simp add: get_sender_key_def Let_def bind_res_conv map_res_conv split: sum.splits prod.splits)
qed

text \<open>
  A key that comes out is the sender's, for an iteration that was available and is so no more; the
  state stays on the chain, and below the limit of the backlog no other iteration is lost.
\<close>

definition takes_key :: "group_env \<Rightarrow> nat \<Rightarrow> bytes \<Rightarrow> u32 \<Rightarrow> sender_key_state \<Rightarrow> sender_message_key \<Rightarrow> sender_key_state \<Rightarrow> bool" where
  "takes_key E base seed n s k s' \<longleftrightarrow>
     k = the_key E base seed n \<and> n \<in> available_keys s \<and> available_keys s' \<subseteq> available_keys s - {n} \<and>
     on_chain E base seed s' \<and> same_identity s s' \<and> length (message_keys s') \<le> backlog_limit"

lemma get_sender_key_takes:
  assumes "on_chain E base seed s" and "length (message_keys s) \<le> backlog_limit" and "get_sender_key E n s = Inr (k, s')"
  shows "takes_key E base seed n s k s'"
proof -
  obtain c where c: "sender_chain s = Some c" "chain_ok E base seed c"
    "keys_ok E base seed (unat (ck_iteration c)) (message_keys s)" using assms(1) by (auto simp: on_chain_def)
  show ?thesis
  proof (cases "n < ck_iteration c")
    case True
    then have "remove_sender_message_key E n s = Some (k, s')"
      using assms(3) unfolding get_sender_key_behind [OF c(1) True] by (cases "remove_sender_message_key E n s") auto
    with remove_sender_message_key_ok [OF c(3), of n] c assms(2) True show ?thesis
      by (auto simp: takes_key_def available_keys_def on_chain_def)
  next
    case False
    then obtain d t c' where run: "skip_to E n c s = Inr (d, t)" "step_with_message_key E d = Inr (k, c')"
      "s' = set_sender_chain_key c' t"
      using assms(3) unfolding get_sender_key_ahead [OF c(1) False]
      by (auto simp: bind_res_Inr_iff map_res_Inr_iff split: if_splits)
    note t = skip_to_chain [OF run(1) c(2,3)] skip_to_keys [OF run(1) assms(2)] skip_to_frame [OF run(1)]
    have d: "ck_iteration d = n" using t False by (simp add: max_def)
    note k = step_with_message_key_ok [OF _ run(2), of base seed, unfolded d]
    have ok: "chain_ok E base seed d" using t by blast
    have "on_chain E base seed s'"
      using k(1,3) [OF ok] t d keys_ok_mono [of E base seed "unat n" "message_keys t" "Suc (unat n)"]
      by (auto simp: on_chain_def run(3) set_sender_chain_key_def)
    moreover have "available_keys s' \<subseteq> available_keys s - {n}" "n \<in> available_keys s"
      using t c False k(3) [OF ok]
      by (auto simp: available_keys_def run(3) set_sender_chain_key_def word_le_nat_alt word_less_nat_alt keys_ok_def)
    ultimately show ?thesis
      using t k(2) [OF ok] by (auto simp: takes_key_def run(3) set_sender_chain_key_def same_identity_def)
  qed
qed

lemma get_sender_key_duplicate:
  assumes "sender_chain s = Some c" and "n \<notin> available_keys s" and "on_chain E base seed s"
  shows "get_sender_key E n s = Inl (DuplicatedMessage (ck_iteration c) n)"
proof -
  have n: "n < ck_iteration c" "n \<notin> fst ` set (message_keys s)" using assms(1,2) by (auto simp: available_keys_def)
  have "keys_ok E base seed (unat (ck_iteration c)) (message_keys s)" using assms(1,3) by (auto simp: on_chain_def)
  from remove_sender_message_key_ok [OF this, of n] n(2) have "remove_sender_message_key E n s = None"
    by (cases "remove_sender_message_key E n s") auto
  then show ?thesis unfolding get_sender_key_behind [OF assms(1) n(1)] by simp
qed

lemma get_sender_key_served:
  assumes "on_chain E base seed s" and "sender_chain s = Some c" and "n \<in> available_keys s" and "n \<noteq> - 1"
    and "unat n - unat (ck_iteration c) \<le> MAX_FORWARD_JUMPS"
    and "length (message_keys s) + (unat n - unat (ck_iteration c)) \<le> backlog_limit"
  shows "\<exists>s'. get_sender_key E n s = Inr (the_key E base seed n, s') \<and> available_keys s' = available_keys s - {n} \<and>
    fst ` set (message_keys s') \<subseteq> fst ` set (message_keys s) \<union> {j. ck_iteration c \<le> j \<and> j < n} \<and>
    (\<exists>c'. sender_chain s' = Some c' \<and> unat (ck_iteration c') = max (unat (ck_iteration c)) (Suc (unat n)))"
proof -
  have c: "chain_ok E base seed c" "keys_ok E base seed (unat (ck_iteration c)) (message_keys s)"
    using assms(1,2) by (auto simp: on_chain_def)
  show ?thesis
  proof (cases "n < ck_iteration c")
    case True
    then have "n \<in> fst ` set (message_keys s)" using assms(2,3) by (auto simp: available_keys_def)
    with remove_sender_message_key_ok [OF c(2), of n] obtain s' where
      "remove_sender_message_key E n s = Some (the_key E base seed n, s')" "sender_chain s' = sender_chain s"
      "fst ` set (message_keys s') = fst ` set (message_keys s) - {n}"
      by (cases "remove_sender_message_key E n s") auto
    with True assms(2) show ?thesis unfolding get_sender_key_behind [OF assms(2) True]
      by (auto simp: available_keys_def word_less_nat_alt word_le_nat_alt)
  next
    case False
    obtain d t where run: "skip_to E n c s = Inr (d, t)" using skip_to_total by metis
    have "length (message_keys s) \<le> backlog_limit" using assms(6) by simp
    note t = skip_to_chain [OF run c] skip_to_keys [OF run this] skip_to_frame [OF run]
    have d: "ck_iteration d = n" using t False by (simp add: max_def)
    obtain k c' where step: "step_with_message_key E d = Inr (k, c')"
      using assms(4) d by (simp add: step_with_message_key_def step_seed_only_def)
    have ok: "chain_ok E base seed d" using t by blast
    note k = step_with_message_key_ok [OF ok step, unfolded d]
    have "get_sender_key E n s = Inr (the_key E base seed n, set_sender_chain_key c' t)"
      unfolding get_sender_key_ahead [OF assms(2) False] using assms(5) run step k(2) by simp
    moreover have "fst ` set (message_keys t) = fst ` set (message_keys s) \<union> {j. ck_iteration c \<le> j \<and> j < n}"
      using t assms(6) by blast
    then have "available_keys (set_sender_chain_key c' t) = available_keys s - {n}"
      using assms(2) False k(3) c(2)
      by (auto simp: available_keys_def set_sender_chain_key_def word_le_nat_alt word_less_nat_alt keys_ok_def word_unat_eq_iff)
    ultimately show ?thesis using t k(3) False
      by (auto simp: set_sender_chain_key_def word_less_nat_alt)
  qed
qed

text \<open>The keys a receiver takes for messages in the order they arrive; a refused one changes nothing.\<close>

fun key_run :: "group_env \<Rightarrow> u32 list \<Rightarrow> sender_key_state \<Rightarrow> (u32 \<times> sender_message_key) list" where
  "key_run E [] s = []"
| "key_run E (n # ns) s =
     (case get_sender_key E n s of
        Inl e \<Rightarrow> key_run E ns s
      | Inr (k, s') \<Rightarrow> (n, k) # key_run E ns s')"

lemma key_run_once:
  assumes "on_chain E base seed s" and "length (message_keys s) \<le> backlog_limit"
  shows "distinct (map fst (key_run E ns s)) \<and> fst ` set (key_run E ns s) \<subseteq> available_keys s \<and>
    (\<forall>(n, k) \<in> set (key_run E ns s). k = the_key E base seed n)"
  using assms
proof (induction ns arbitrary: s)
  case (Cons n ns)
  show ?case
  proof (cases "get_sender_key E n s")
    case (Inr ks)
    then obtain k s' where r: "get_sender_key E n s = Inr (k, s')" by (cases ks) auto
    note t = get_sender_key_takes [OF Cons.prems r, unfolded takes_key_def]
    with Cons.IH [of s'] r show ?thesis by fastforce
  qed (use Cons in simp)
qed simp

lemma backlog_interval:
  assumes "distinct (map fst ks)" and "\<And>j. j \<in> fst ` set ks \<Longrightarrow> lo \<le> unat (j :: u32) \<and> unat j < hi"
  shows "length ks \<le> hi - lo"
proof -
  have "inj_on unat (fst ` set ks)" by (rule inj_onI) (simp add: word_unat_eq_iff)
  moreover have "unat ` fst ` set ks \<subseteq> {lo..<hi}" using assms(2) by fastforce
  ultimately have "card (fst ` set ks) \<le> hi - lo" by (metis card_image card_mono card_atLeastLessThan finite_atLeastLessThan)
  moreover have "card (fst ` set ks) = length ks" using distinct_card [OF assms(1)] by simp
  ultimately show ?thesis by simp
qed

text \<open>
  A receiver that joined at iteration \<open>lo\<close> and has not gone further than the jump limit: every message of
  that window it has not seen yet is served, in whatever order.
\<close>

definition window :: "group_env \<Rightarrow> nat \<Rightarrow> bytes \<Rightarrow> nat \<Rightarrow> sender_key_state \<Rightarrow> bool" where
  "window E base seed lo s \<longleftrightarrow>
     on_chain E base seed s \<and> (\<forall>j \<in> fst ` set (message_keys s). lo \<le> unat j) \<and>
     (\<exists>c. sender_chain s = Some c \<and> lo \<le> unat (ck_iteration c) \<and> unat (ck_iteration c) \<le> lo + MAX_FORWARD_JUMPS)"

lemma window_serves:
  assumes "window E base seed lo s" and "n \<in> available_keys s" and "n \<noteq> - 1" and "unat n < lo + MAX_FORWARD_JUMPS"
  shows "\<exists>s'. get_sender_key E n s = Inr (the_key E base seed n, s') \<and> window E base seed lo s' \<and>
    available_keys s' = available_keys s - {n} \<and> same_identity s s'"
proof -
  obtain c where c: "on_chain E base seed s" "sender_chain s = Some c" "lo \<le> unat (ck_iteration c)"
    "unat (ck_iteration c) \<le> lo + MAX_FORWARD_JUMPS" "\<forall>j \<in> fst ` set (message_keys s). lo \<le> unat j"
    using assms(1) by (auto simp: window_def)
  have keys: "keys_ok E base seed (unat (ck_iteration c)) (message_keys s)" using c(1,2) by (auto simp: on_chain_def)
  have "length (message_keys s) \<le> unat (ck_iteration c) - lo"
    by (rule backlog_interval) (use keys c(5) in \<open>auto simp: keys_ok_def\<close>)
  then have room: "unat n - unat (ck_iteration c) \<le> MAX_FORWARD_JUMPS"
    "length (message_keys s) + (unat n - unat (ck_iteration c)) \<le> backlog_limit"
    using c(3,4) assms(4) by (auto simp: backlog_limit_def MAX_FORWARD_JUMPS_def MAX_MESSAGE_KEYS_def)
  from get_sender_key_served [OF c(1,2) assms(2,3) room] obtain s' c' where
    s': "get_sender_key E n s = Inr (the_key E base seed n, s')" "available_keys s' = available_keys s - {n}"
    "fst ` set (message_keys s') \<subseteq> fst ` set (message_keys s) \<union> {j. ck_iteration c \<le> j \<and> j < n}"
    "sender_chain s' = Some c'" "unat (ck_iteration c') = max (unat (ck_iteration c)) (Suc (unat n))" by blast
  have "length (message_keys s) \<le> backlog_limit" using room(2) by simp
  from get_sender_key_takes [OF c(1) this s'(1)] have t: "on_chain E base seed s'" "same_identity s s'"
    by (simp_all add: takes_key_def)
  moreover have "\<forall>j \<in> fst ` set (message_keys s'). lo \<le> unat j"
    using s'(3) c(3,5) by (fastforce simp: word_le_nat_alt)
  ultimately have "window E base seed lo s'" using s'(4,5) c(3,4) assms(4) by (auto simp: window_def)
  with s'(1,2) t(2) show ?thesis by blast
qed

lemma key_run_window:
  assumes "window E base seed lo s" and "distinct ns" and "set ns \<subseteq> available_keys s"
    and "\<forall>n \<in> set ns. n \<noteq> - 1 \<and> unat n < lo + MAX_FORWARD_JUMPS"
  shows "map fst (key_run E ns s) = ns"
  using assms
proof (induction ns arbitrary: s)
  case (Cons n ns)
  from Cons.prems window_serves [OF Cons.prems(1), of n] obtain s' where
    "get_sender_key E n s = Inr (the_key E base seed n, s')" "window E base seed lo s'"
    "available_keys s' = available_keys s - {n}" by auto
  with Cons show ?case by auto
qed simp

end
