(* ===== verification/Group_Messages.thy ===== *)
theory Group_Messages
  imports Sender_Keys
begin

text \<open>
  What the group cipher of \<open>Sender_Keys\<close> promises: a message key is given out once, messages of a sender
  arrive in any order, and a restart never goes back over iterations that may have been sent. The last
  part instantiates the other crates with functions that meet what is assumed of them.
\<close>

section \<open>A group message from end to end\<close>

text \<open>
  What is assumed of the other crates: the KDF as in \<open>hkdf_ok\<close>, decryption inverts encryption under a
  key and IV of the right length and a block is all that padding adds, a signature has 64 bytes, and
  the views of the two messages find the fields they were built from, up to the size limit of
  protobuf. \<open>key_pair_ok\<close> is what makes two keys a pair.
\<close>

definition message_codec_ok :: "group_env \<Rightarrow> bool" where
  "message_codec_ok E \<longleftrightarrow>
     hkdf_ok (hkdf_env.truncate E) \<and>
     (\<forall>key iv pt. length key = 32 \<longrightarrow> length iv = 16 \<longrightarrow>
        (\<exists>ct. cbc_encrypt E key iv pt = Some ct \<and> cbc_decrypt E key iv ct = Some pt \<and> length ct \<le> length pt + 16)) \<and>
     (\<forall>key m r. length (xed_sign E key m r) = 64) \<and>
     (\<forall>cid it ct. length ct < 2 ^ 31 \<longrightarrow>
        skm_view E (push_varint_field E 1 (ucast (cid :: u32)) @ push_varint_field E 2 (ucast (it :: u32)) @
                    push_bytes_field E 3 ct) = Some (Some cid, Some it, Some ct)) \<and>
     (\<forall>cid it key sig. length key < 2 ^ 31 \<longrightarrow> length sig < 2 ^ 31 \<longrightarrow>
        skdm_view E (push_varint_field E 1 (ucast (cid :: u32)) @ push_varint_field E 2 (ucast (it :: u32)) @
                     push_bytes_field E 3 key @ push_bytes_field E 4 sig) = Some (Some cid, Some it, Some key, Some sig))"

text \<open>A plaintext whose message stays below the size limit.\<close>

definition fits :: "bytes \<Rightarrow> bool" where
  "fits pt \<longleftrightarrow> length pt + 16 < 2 ^ 31"

definition key_pair_ok :: "group_env \<Rightarrow> bytes \<Rightarrow> bytes \<Rightarrow> bool" where
  "key_pair_ok E public private \<longleftrightarrow> (\<forall>m r. xed_verify E public m (xed_sign E private m r))"

lemma message_key_lengths:
  assumes "message_codec_ok E"
  shows "length (smk_cipher_key (sender_message_key_new E n seed)) = 32"
    "length (smk_iv (sender_message_key_new E n seed)) = 16"
proof -
  let ?E = "hkdf_env.truncate E"
  have ok: "hkdf_ok ?E" using assms by (simp add: message_codec_ok_def)
  then have "hkdf_expand ?E prk info 48 = take 48 (okm ?E prk info 255)" for prk info by (simp add: hkdf_ok_def)
  then have "length (hkdf_expand E prk info 48) = 48" for prk info
    using length_okm [OF ok, of prk info 255] by (simp add: hkdf_env.truncate_def)
  then show "length (smk_cipher_key (sender_message_key_new E n seed)) = 32"
    "length (smk_iv (sender_message_key_new E n seed)) = 16"
    by (simp_all add: sender_message_key_new_def Let_def)
qed

text \<open>A message under the key of an iteration of the chain.\<close>

definition message_of ::
  "group_env \<Rightarrow> nat \<Rightarrow> bytes \<Rightarrow> u32 \<Rightarrow> bytes \<Rightarrow> bytes \<Rightarrow> sender_key_message \<Rightarrow> bool" where
  "message_of E base seed cid pk pt m \<longleftrightarrow>
     skm_parse E (skm_serialized m) = Inr m \<and> skm_version m = 3 \<and> skm_chain_id m = cid \<and> skm_verify E pk m \<and>
     aes_256_cbc_decrypt_into E (skm_ciphertext m) (smk_cipher_key (the_key E base seed (skm_iteration m)))
       (smk_iv (the_key E base seed (skm_iteration m))) = Inr pt"

lemma skm_new_ok:
  assumes "message_codec_ok E" and "key_pair_ok E pk sk" and "length ct < 2 ^ 31"
  shows "skm_parse E (skm_serialized (skm_new E 3 cid n ct rng sk)) = Inr (skm_new E 3 cid n ct rng sk)"
    and "skm_verify E pk (skm_new E 3 cid n ct rng sk)"
  using assms
  by (simp_all add: skm_new_def skm_parse_def skm_verify_def key_verify_def Let_def message_codec_ok_def key_pair_ok_def
      SIGNATURE_LEN_def encode_version_byte_def SENDERKEY_MESSAGE_CURRENT_VERSION_def)

lemma skdm_new_ok:
  assumes "message_codec_ok E" and "length key = 32" and "length pk = 32"
  shows "skdm_parse E (skdm_serialized (skdm_new E 3 cid it key pk)) = Inr (skdm_new E 3 cid it key pk)"
  using assms
  by (simp add: skdm_new_def skdm_parse_def Let_def message_codec_ok_def public_key_serialize_def public_key_deserialize_def
      encode_version_byte_def SENDERKEY_MESSAGE_CURRENT_VERSION_def) (simp add: push_bytes_field_def)

lemma group_encrypt_step:
  assumes ok: "message_codec_ok E" "key_pair_ok E pk sk" "fits pt" and s: "states r = s # rest" "signing_key_private E s = Some sk"
    and c: "sender_chain s = Some c" "chain_ok E base seed c" "ck_iteration c \<noteq> - 1"
  shows "\<exists>m c'. group_encrypt E rng pt (Some r) =
      Inr (m, reserve_iterations (ck_iteration c) (r\<lparr>states := set_sender_chain_key c' s # rest\<rparr>)) \<and>
    message_of E base seed (chain_id s) pk pt m \<and> skm_iteration m = ck_iteration c \<and>
    chain_ok E base seed c' \<and> unat (ck_iteration c') = Suc (unat (ck_iteration c))"
proof -
  let ?k = "the_key E base seed (ck_iteration c)"
  obtain k c' where step: "step_with_message_key E c = Inr (k, c')"
    using c(3) by (simp add: step_with_message_key_def step_seed_only_def)
  note k = step_with_message_key_ok [OF c(2) step]
  have len: "length (smk_cipher_key ?k) = 32" "length (smk_iv ?k) = 16"
    using message_key_lengths [OF ok(1)] by (simp_all add: the_key_def)
  then obtain ct where ct: "cbc_encrypt E (smk_cipher_key ?k) (smk_iv ?k) pt = Some ct"
    "cbc_decrypt E (smk_cipher_key ?k) (smk_iv ?k) ct = Some pt" "length ct \<le> length pt + 16"
    using ok(1) unfolding message_codec_ok_def by blast
  have "length ct < 2 ^ 31" using ct(3) ok(3) by (simp add: fits_def)
  let ?m = "skm_new E 3 (chain_id s) (ck_iteration c) ct rng sk"
  have it: "smk_iteration ?k = ck_iteration c" by (simp add: the_key_def sender_message_key_new_def Let_def)
  have "group_encrypt E rng pt (Some r) =
      Inr (?m, reserve_iterations (ck_iteration c) (r\<lparr>states := set_sender_chain_key c' s # rest\<rparr>))"
    using s c(1) step k(2) ct(1) len it
    by (simp add: group_encrypt_def aes_256_cbc_encrypt_into_def message_version_def Let_def)
  moreover have "message_of E base seed (chain_id s) pk pt ?m"
    using skm_new_ok [OF ok(1,2) \<open>length ct < 2 ^ 31\<close>] ct(2) len
    by (simp add: message_of_def aes_256_cbc_decrypt_into_def) (simp add: skm_new_def Let_def)
  ultimately show ?thesis using k by (intro exI [of _ ?m] exI [of _ c']) (simp add: skm_new_def Let_def)
qed

text \<open>A sender encrypts one message after the other; a receiver decrypts what arrives.\<close>

fun encrypt_all ::
  "group_env \<Rightarrow> (bytes \<times> bytes) list \<Rightarrow> sender_key_record \<Rightarrow> (signal_error, sender_key_message list \<times> sender_key_record) result" where
  "encrypt_all E [] r = Inr ([], r)"
| "encrypt_all E ((rng, pt) # ps) r =
     bind_res (group_encrypt E rng pt (Some r)) (\<lambda>(m, r).
     map_res (\<lambda>(ms, r). (m # ms, r)) (encrypt_all E ps r))"

fun decrypt_all :: "group_env \<Rightarrow> bytes list \<Rightarrow> sender_key_record \<Rightarrow> (signal_error, bytes) result list" where
  "decrypt_all E [] r = []"
| "decrypt_all E (b # bs) r =
     (case group_decrypt E b (Some r) of
        Inl e \<Rightarrow> Inl e # decrypt_all E bs r
      | Inr (pt, r') \<Rightarrow> Inr pt # decrypt_all E bs r')"

lemma signing_of_chain_update [simp]:
  "signing_key_private E (set_sender_chain_key c s) = signing_key_private E s"
  "signing_key_public (set_sender_chain_key c s) = signing_key_public s"
  "chain_id (set_sender_chain_key c s) = chain_id s"
  "sender_chain (set_sender_chain_key c s) = Some c"
  by (simp_all add: set_sender_chain_key_def signing_key_private_def signing_key_public_def chain_id_def)

lemma reserve_states [simp]: "states (reserve_iterations n r) = states r"
  by (simp add: reserve_iterations_def)

lemma encrypt_all_ok:
  assumes ok: "message_codec_ok E" "key_pair_ok E pk sk" and ps: "\<forall>p \<in> set ps. fits (snd p)" and s: "states r = s # rest" "signing_key_private E s = Some sk"
    and c: "sender_chain s = Some c" "chain_ok E base seed c" "unat (ck_iteration c) + length ps < 2 ^ 32"
  shows "\<exists>ms r'. encrypt_all E ps r = Inr (ms, r') \<and> length ms = length ps \<and>
    (\<forall>i < length ps. message_of E base seed (chain_id s) pk (snd (ps ! i)) (ms ! i) \<and>
       unat (skm_iteration (ms ! i)) = unat (ck_iteration c) + i)"
  using s c ps
proof (induction ps arbitrary: r s c)
  case (Cons p ps)
  obtain rng pt where p: "p = (rng, pt)" by (cases p)
  have "ck_iteration c \<noteq> - 1"
    using Cons.prems(5) by (auto simp: unsigned_minus_1_eq_mask mask_eq_exp_minus_1)
  have "fits pt" using Cons.prems(6) p by simp
  from group_encrypt_step [OF ok this Cons.prems(1-4) \<open>ck_iteration c \<noteq> - 1\<close>, of rng] obtain m c' where
    m: "group_encrypt E rng pt (Some r) =
      Inr (m, reserve_iterations (ck_iteration c) (r\<lparr>states := set_sender_chain_key c' s # rest\<rparr>))"
    "message_of E base seed (chain_id s) pk pt m" "skm_iteration m = ck_iteration c"
    "chain_ok E base seed c'" "unat (ck_iteration c') = Suc (unat (ck_iteration c))" by blast
  let ?r = "reserve_iterations (ck_iteration c) (r\<lparr>states := set_sender_chain_key c' s # rest\<rparr>)"
  have "\<exists>ms r'. encrypt_all E ps ?r = Inr (ms, r') \<and> length ms = length ps \<and>
    (\<forall>i < length ps. message_of E base seed (chain_id s) pk (snd (ps ! i)) (ms ! i) \<and>
       unat (skm_iteration (ms ! i)) = unat (ck_iteration c') + i)"
    using Cons.IH [of ?r "set_sender_chain_key c' s" c'] Cons.prems(2,5,6) m(4,5) by simp
  then obtain ms r' where ms: "encrypt_all E ps ?r = Inr (ms, r')" "length ms = length ps"
    "\<forall>i < length ps. message_of E base seed (chain_id s) pk (snd (ps ! i)) (ms ! i) \<and>
       unat (skm_iteration (ms ! i)) = unat (ck_iteration c') + i" by blast
  show ?case
  proof (intro exI conjI allI impI)
    show "encrypt_all E (p # ps) r = Inr (m # ms, r')" using p m(1) ms(1) by simp
    show "length (m # ms) = length (p # ps)" using ms(2) by simp
    fix i assume i: "i < length (p # ps)"
    show "message_of E base seed (chain_id s) pk (snd ((p # ps) ! i)) ((m # ms) ! i)"
      "unat (skm_iteration ((m # ms) ! i)) = unat (ck_iteration c) + i"
      using i ms(3) m(2,3,5) p by (cases i; simp)+
  qed
qed simp

lemma group_decrypt_step:
  assumes "message_of E base seed (chain_id t) pk pt m" and "states q = [t]" and "signing_key_public t = Some pk"
    and "get_sender_key E (skm_iteration m) t = Inr (the_key E base seed (skm_iteration m), t')"
  shows "group_decrypt E (skm_serialized m) (Some q) = Inr (pt, q\<lparr>states := [t']\<rparr>)"
  using assms by (simp add: group_decrypt_def message_of_def message_version_def Let_def)

lemma same_identity_signing:
  "same_identity s s' \<Longrightarrow> signing_key_public s' = signing_key_public s \<and> chain_id s' = chain_id s"
  by (simp add: same_identity_def signing_key_public_def chain_id_def)

lemma decrypt_all_window:
  assumes "window E base seed lo t" and "states q = [t]" and "signing_key_public t = Some pk" and "distinct js"
    and "\<forall>j \<in> set js. message_of E base seed (chain_id t) pk (pt j) (m j) \<and> skm_iteration (m j) \<in> available_keys t \<and>
      skm_iteration (m j) \<noteq> - 1 \<and> unat (skm_iteration (m j)) < lo + MAX_FORWARD_JUMPS"
    and "inj_on (\<lambda>j. skm_iteration (m j)) (set js)"
  shows "decrypt_all E (map (\<lambda>j. skm_serialized (m j)) js) q = map (\<lambda>j. Inr (pt j)) js"
  using assms
proof (induction js arbitrary: t q)
  case (Cons j js)
  from Cons.prems(5) window_serves [OF Cons.prems(1), of "skm_iteration (m j)"] obtain t' where
    t': "get_sender_key E (skm_iteration (m j)) t = Inr (the_key E base seed (skm_iteration (m j)), t')"
    "window E base seed lo t'" "available_keys t' = available_keys t - {skm_iteration (m j)}" "same_identity t t'" by auto
  note id = same_identity_signing [OF t'(4)]
  from Cons.prems(5) have d: "group_decrypt E (skm_serialized (m j)) (Some q) = Inr (pt j, q\<lparr>states := [t']\<rparr>)"
    by (intro group_decrypt_step [OF _ Cons.prems(2,3) t'(1)]) simp
  have "skm_iteration (m i) \<noteq> skm_iteration (m j)" if "i \<in> set js" for i
    using Cons.prems(4,6) that by (auto simp: inj_on_def)
  then have "decrypt_all E (map (\<lambda>j. skm_serialized (m j)) js) (q\<lparr>states := [t']\<rparr>) = map (\<lambda>j. Inr (pt j)) js"
    using Cons.prems t' id by (intro Cons.IH [of t']) (auto simp: inj_on_def)
  with d show ?case by simp
qed simp

section \<open>Chains at both ends\<close>

lemma advance_chain_ok:
  assumes "chain_ok E base seed c" and "ck_iteration c \<le> n"
  shows "\<exists>d. advance_chain E n c = Inr d \<and> chain_ok E base seed d \<and> ck_iteration d = n"
  using assms
proof (induction E n c rule: advance_chain.induct)
  case (1 E n c)
  show ?case
  proof (cases "ck_iteration c < n")
    case True
    then have "ck_iteration c \<noteq> - 1" by auto
    then obtain c' where c': "chain_next E c = Inr c'" by (simp add: chain_next_def)
    note it = chain_next_iteration [OF c']
    have "chain_ok E base seed c'" using 1(2) c' it
      by (auto simp: chain_ok_def chain_next_def get_derivative_def chain_seed_Suc Suc_diff_le split: if_splits)
    moreover have "ck_iteration c' \<le> n" using it True by (simp add: word_le_nat_alt word_less_nat_alt)
    ultimately show ?thesis using 1(1) [OF True c'] True c' by (subst advance_chain.simps) simp
  next
    case False
    with 1(2,3) show ?thesis by (subst advance_chain.simps) simp
  qed
qed

lemma chain_message_key_ok: "chain_ok E base seed c \<Longrightarrow> chain_message_key E c = the_key E base seed (ck_iteration c)"
  by (simp add: chain_message_key_def the_key_def chain_ok_def get_derivative_def key_seed_def)

lemma state_new_ok:
  assumes "state_new cid it seed pk sk = Inr s"
  shows "window E (unat it) seed (unat it) s" "available_keys s = {n. it \<le> n}"
    "message_keys s = []" "sender_chain s = Some \<lparr>ck_iteration = it, ck_seed = seed\<rparr>"
  using assms
  by (auto simp: state_new_def window_def on_chain_def chain_ok_def keys_ok_def chain_seed_def available_keys_def
      split: if_splits)

lemma ok_or_eq_Inr: "ok_or e x = Inr a \<longleftrightarrow> x = Some a"
  by (cases x) simp_all

lemma public_key_length: "public_key_deserialize v = Inr k \<Longrightarrow> length k = 32"
  by (cases v) (auto simp: public_key_deserialize_def split: if_splits)

lemma signing_key_length:
  assumes "signing_key_public s = Some pk"
  shows "length pk = 32"
proof -
  obtain v where "(case public_key_deserialize v of Inl _ \<Rightarrow> None | Inr key \<Rightarrow> Some key) = Some pk"
    using assms by (auto simp: signing_key_public_def bind_eq_Some_conv split: option.splits)
  then show ?thesis by (cases "public_key_deserialize v") (auto dest: public_key_length)
qed

lemma unat_max_u32: "unat (- 1 :: u32) = 2 ^ 32 - 1"
  by (simp add: unsigned_minus_1_eq_mask mask_eq_exp_minus_1)

section \<open>Records in the store\<close>

text \<open>
  What is assumed of the protobuf library for a persisted record: tags and varints round-trip, a
  field can be skipped, the encoding consists of fields with number 1, and decoding inverts encoding
  and ignores appended fields with other numbers.
\<close>

definition unknown_field :: "group_env \<Rightarrow> bytes \<Rightarrow> bool" where
  "unknown_field E f \<longleftrightarrow>
     (\<exists>n v. 1 < n \<and> f = push_varint_field E n v) \<or> (\<exists>n b. 1 < n \<and> length b < 2 ^ 31 \<and> f = push_bytes_field E n b)"

definition record_codec_ok :: "group_env \<Rightarrow> bool" where
  "record_codec_ok E \<longleftrightarrow>
     (\<forall>n w r. 0 < n \<and> n < 2 ^ 29 \<longrightarrow> tag_encode E n w \<noteq> [] \<and> tag_decode E (tag_encode E n w @ r) = Some ((n, w), r)) \<and>
     (\<forall>v r. decode_varint E (encode_varint E v @ r) = Some (v, r)) \<and>
     (\<forall>n p r. length p < 2 ^ 31 \<longrightarrow>
        skip_field E (n, LengthDelimited) (encode_varint E (of_nat (length p)) @ p @ r) = Some r) \<and>
     (\<forall>ss. length (record_to_vec E ss) < 2 ^ 31 \<longrightarrow>
        (\<exists>ps. record_to_vec E ss = concat (map (push_bytes_field E 1) ps)) \<and>
        (\<forall>fs. list_all (unknown_field E) fs \<longrightarrow> record_decode E (record_to_vec E ss @ concat fs) = Some ss))"

text \<open>A record as the operations build it: seeds of 32 bytes and at most five states.\<close>

definition state_wf :: "sender_key_state \<Rightarrow> bool" where
  "state_wf s \<longleftrightarrow>
     (case sender_chain s of Some c \<Rightarrow> length (ck_seed c) = 32 | None \<Rightarrow> True) \<and>
     (\<forall>(j, sd) \<in> set (message_keys s). length sd = 32)"

definition record_wf :: "sender_key_record \<Rightarrow> bool" where
  "record_wf r \<longleftrightarrow> list_all state_wf (states r) \<and> length (states r) \<le> MAX_SENDER_KEY_STATES"

lemma state_protobuf:
  assumes "state_wf s"
  shows "state_from_protobuf (state_as_protobuf s) = s" "structure_ok (state_as_protobuf s)"
proof -
  have "map (stored_key_from_protobuf \<circ> (\<lambda>(i, seed). \<lparr>cks_iteration = Some i, cks_seed = Some seed\<rparr>)) (message_keys s) =
      message_keys s"
    using assms by (intro map_idI) (auto simp: state_wf_def stored_key_from_protobuf_def or_0_def)
  then show "state_from_protobuf (state_as_protobuf s) = s"
    using assms by (cases s; cases "sender_chain s")
      (auto simp: state_from_protobuf_def state_as_protobuf_def chain_as_protobuf_def or_0_def state_wf_def)
  show "structure_ok (state_as_protobuf s)"
    using assms by (auto simp: structure_ok_def state_as_protobuf_def chain_as_protobuf_def seed_ok_def state_wf_def
        list_all_iff split: option.splits)
qed

lemma reservation_roundtrip: "ucast (ucast c :: u64) = c" "unat (ucast c :: u64) < 2 ^ 32" for c :: u32
proof -
  have u: "unat (ucast c :: u64) = unat c" by (rule unat_ucast_up) simp
  then show "unat (ucast c :: u64) < 2 ^ 32" using unsigned_less [of c] by simp
  show "ucast (ucast c :: u64) = c" by (rule bit_word_eqI) (simp add: bit_ucast_iff)
qed

lemma tag_roundtrip:
  assumes "record_codec_ok E" and "0 < n" and "n < 2 ^ 29"
  shows "tag_encode E n w \<noteq> []" "tag_decode E (tag_encode E n w @ r) = Some ((n, w), r)"
  using assms by (auto simp: record_codec_ok_def)

lemma varint_roundtrip: "record_codec_ok E \<Longrightarrow> decode_varint E (encode_varint E v @ r) = Some (v, r)"
  by (simp add: record_codec_ok_def)

lemma loop_skips:
  assumes "record_codec_ok E" and "\<forall>p \<in> set ps. length p < 2 ^ 31"
  shows "local_fields_loop E (length ps + k) (concat (map (push_bytes_field E 1) ps) @ x) r i v = local_fields_loop E k x r i v"
  using assms(2)
proof (induction ps)
  case (Cons p ps)
  have "skip_field E (1, LengthDelimited) (encode_varint E (of_nat (length p)) @ p @ y) = Some y" for y
    using assms(1) Cons.prems by (simp add: record_codec_ok_def)
  with Cons tag_roundtrip [OF assms(1), of 1 LengthDelimited] show ?case
    by (simp add: push_bytes_field_def COUNTER_RESERVATION_FIELD_def STORE_INCARNATION_FIELD_def)
qed simp

lemma loop_reservation:
  assumes "record_codec_ok E"
  shows "local_fields_loop E (Suc k) (push_varint_field E COUNTER_RESERVATION_FIELD (ucast c) @ x) None i v =
    local_fields_loop E k x (Some c) i v"
  using tag_roundtrip [OF assms, of COUNTER_RESERVATION_FIELD Varint] reservation_roundtrip [of c]
  by (simp add: push_varint_field_def varint_roundtrip [OF assms] COUNTER_RESERVATION_FIELD_def)

lemma loop_incarnation:
  assumes "record_codec_ok E" and "length inc = STORE_INCARNATION_LEN"
  shows "local_fields_loop E (Suc k) (push_bytes_field E STORE_INCARNATION_FIELD inc @ x) r None True =
    local_fields_loop E k x r (Some inc) True"
  using tag_roundtrip [OF assms(1), of STORE_INCARNATION_FIELD LengthDelimited] assms(2)
  by (simp add: push_bytes_field_def varint_roundtrip [OF assms(1)] COUNTER_RESERVATION_FIELD_def STORE_INCARNATION_FIELD_def
      STORE_INCARNATION_LEN_def)

text \<open>The fields the code appends to a record that holds a reservation.\<close>

definition local_fields :: "group_env \<Rightarrow> bytes \<Rightarrow> sender_key_record \<Rightarrow> bytes list" where
  "local_fields E inc r =
     (if lease_ceiling (lease r) > 0
      then [push_varint_field E COUNTER_RESERVATION_FIELD (ucast (lease_ceiling (lease r))),
            push_bytes_field E STORE_INCARNATION_FIELD inc]
      else [])"

lemma serialize_for_store_fields:
  "length inc = STORE_INCARNATION_LEN \<Longrightarrow>
   serialize_for_store E inc r = record_to_vec E (map state_as_protobuf (states r)) @ concat (local_fields E inc r)"
  by (simp add: serialize_for_store_def serialize_inner_def local_fields_def push_varint_field_def push_bytes_field_def
      encode_store_incarnation_def Let_def)

lemma unknown_fieldI:
  "1 < n \<Longrightarrow> unknown_field E (push_varint_field E n v)" "1 < n \<Longrightarrow> length b < 2 ^ 31 \<Longrightarrow> unknown_field E (push_bytes_field E n b)"
  unfolding unknown_field_def by blast+

lemma unknown_local_fields:
  "length inc = STORE_INCARNATION_LEN \<Longrightarrow> list_all (unknown_field E) (local_fields E inc r)"
  by (simp add: local_fields_def unknown_fieldI COUNTER_RESERVATION_FIELD_def STORE_INCARNATION_FIELD_def STORE_INCARNATION_LEN_def)

lemma loop_local_fields:
  assumes "record_codec_ok E" and "length inc = STORE_INCARNATION_LEN" and "length (local_fields E inc r) < k"
  shows "local_fields_loop E k (concat (local_fields E inc r)) None None True =
    Inr (lease_ceiling (lease r), if lease_ceiling (lease r) > 0 then Some inc else None)"
proof (cases "lease_ceiling (lease r) > 0")
  case True
  then obtain m where "k = Suc (Suc (Suc m))"
    using assms(3) by (auto simp: local_fields_def dest!: less_imp_Suc_add)
  then show ?thesis
    using True loop_reservation [OF assms(1)] loop_incarnation [OF assms(1,2), of "Suc m" "[]"]
    by (simp add: local_fields_def or_0_def)
next
  case False
  then obtain m where "k = Suc m" using assms(3) by (cases k) auto
  with False show ?thesis by (simp add: local_fields_def or_0_def word_gt_0)
qed

lemma local_fields_length:
  "record_codec_ok E \<Longrightarrow> length (local_fields E inc r) \<le> length (concat (local_fields E inc r))"
  using tag_roundtrip(1) [of E COUNTER_RESERVATION_FIELD Varint] tag_roundtrip(1) [of E STORE_INCARNATION_FIELD LengthDelimited]
  by (auto simp: local_fields_def push_varint_field_def push_bytes_field_def COUNTER_RESERVATION_FIELD_def
      STORE_INCARNATION_FIELD_def Suc_le_eq simp flip: length_greater_0_conv)

lemma bytes_fields_length:
  assumes "record_codec_ok E"
  shows "length ps \<le> length (concat (map (push_bytes_field E 1) ps))"
    "p \<in> set ps \<Longrightarrow> length p \<le> length (concat (map (push_bytes_field E 1) ps))"
proof -
  have "0 < length (push_bytes_field E 1 q)" for q using tag_roundtrip(1) [OF assms, of 1] by (simp add: push_bytes_field_def)
  then have "Suc m \<le> length (push_bytes_field E 1 q) + n" if "m \<le> n" for m n q using that by (metis add_mono Suc_leI plus_1_eq_Suc One_nat_def)
  then show "length ps \<le> length (concat (map (push_bytes_field E 1) ps))"
    by (induction ps) auto
  show "p \<in> set ps \<Longrightarrow> length p \<le> length (concat (map (push_bytes_field E 1) ps))"
    by (induction ps) (auto simp: push_bytes_field_def)
qed

lemma local_fields_of_record:
  assumes "record_codec_ok E" and "length inc = STORE_INCARNATION_LEN" and "length (serialize_for_store E inc r) < 2 ^ 31"
  shows "decode_local_record_fields E (serialize_for_store E inc r) =
    Inr (lease_ceiling (lease r), if lease_ceiling (lease r) > 0 then Some inc else None)"
proof -
  let ?b = "record_to_vec E (map state_as_protobuf (states r))" and ?l = "concat (local_fields E inc r)"
  have b: "length ?b < 2 ^ 31" using assms(3) by (simp add: serialize_for_store_fields [OF assms(2)])
  then obtain ps where ps: "?b = concat (map (push_bytes_field E 1) ps)"
    using assms(1) unfolding record_codec_ok_def by blast
  note len = bytes_fields_length(1) [OF assms(1), of ps, folded ps] bytes_fields_length(2) [OF assms(1), of _ ps, folded ps] local_fields_length [OF assms(1), of inc r]
  obtain k where k: "Suc (length ?b + length ?l) = length ps + k" "length (local_fields E inc r) < k"
    using len(1,3) that [of "Suc (length ?b + length ?l) - length ps"] by simp
  have "\<forall>p \<in> set ps. length p < 2 ^ 31" using len(2) b by (meson le_less_trans)
  from loop_skips [OF assms(1) this, of k ?l None None True, folded ps] loop_local_fields [OF assms(1,2) k(2)] show ?thesis
    by (simp add: decode_local_record_fields_def serialize_for_store_fields [OF assms(2)] k(1) del: local_fields_loop.simps)
qed

lemma decode_of_record:
  assumes "record_codec_ok E" and "length inc = STORE_INCARNATION_LEN" and "length (serialize_for_store E inc r) < 2 ^ 31"
  shows "record_decode E (serialize_for_store E inc r) = Some (map state_as_protobuf (states r))"
  using assms unknown_local_fields [OF assms(2), of E r]
  by (simp add: record_codec_ok_def serialize_for_store_fields)

text \<open>More fuel changes nothing when reading a tag consumes input, so the loop is the one of the source.\<close>

definition reads_on :: "group_env \<Rightarrow> bool" where
  "reads_on E \<longleftrightarrow>
     (\<forall>bs t r. tag_decode E bs = Some (t, r) \<longrightarrow> length r < length bs) \<and>
     (\<forall>bs v r. decode_varint E bs = Some (v, r) \<longrightarrow> length r \<le> length bs) \<and>
     (\<forall>t bs r. skip_field E t bs = Some r \<longrightarrow> length r \<le> length bs)"

lemma local_fields_fuel:
  assumes "reads_on E"
  shows "length bs < fuel \<Longrightarrow> length bs < fuel' \<Longrightarrow> local_fields_loop E fuel bs r i v = local_fields_loop E fuel' bs r i v"
proof (induction fuel arbitrary: fuel' bs r i v)
  case (Suc fuel)
  obtain f where f: "fuel' = Suc f" using Suc.prems(2) by (cases fuel') auto
  have reads: "tag_decode E xs = Some (t, ys) \<Longrightarrow> length ys < length xs" "decode_varint E xs = Some (n, ys) \<Longrightarrow> length ys \<le> length xs"
    "skip_field E t xs = Some ys \<Longrightarrow> length ys \<le> length xs" for xs ys t n
    using assms unfolding reads_on_def by blast+
  show ?case
    using Suc.prems f
    by (auto intro!: bind_res_cong Suc.IH simp: ok_or_eq_Inr Let_def dest!: reads) (arith+)
qed simp

lemma reload:
  assumes "record_codec_ok E" and "record_wf r" and "length inc = STORE_INCARNATION_LEN"
    and "length (serialize_for_store E inc r) < 2 ^ 31"
  shows "deserialize_for_store E inc' (serialize_for_store E inc r) =
    map_res (\<lambda>ss. \<lparr>states = ss, lease = from_persisted_ceiling (lease_ceiling (lease r))\<rparr>)
      (if inc' = inc \<and> lease_ceiling (lease r) > 0 then Inr (states r)
       else materialize E (lease_ceiling (lease r)) (states r))"
proof -
  have "map (state_from_protobuf \<circ> state_as_protobuf) (states r) = states r"
    using assms(2) by (intro map_idI) (auto simp: record_wf_def list_all_iff state_protobuf)
  moreover have "list_all structure_ok (map state_as_protobuf (states r))"
    using assms(2) by (auto simp: record_wf_def list_all_iff state_protobuf)
  ultimately show ?thesis
    using assms(2)
    by (auto simp: deserialize_for_store_def deserialize_inner_def decode_of_record [OF assms(1,3,4)]
        local_fields_of_record [OF assms(1,3,4)] record_wf_def Let_def)
qed

lemma group_encrypt_result:
  assumes "group_encrypt E rng pt (Some r) = Inr (m, r')"
  shows "\<exists>s rest c c'. states r = s # rest \<and> sender_chain s = Some c \<and> skm_iteration m = ck_iteration c \<and>
    states r' = set_sender_chain_key c' s # rest \<and> unat (ck_iteration c') = Suc (unat (ck_iteration c)) \<and>
    lease r' = lease_reserve (ck_iteration c) (lease r)"
proof -
  obtain s rest c k c' ct sk where run: "states r = s # rest" "sender_chain s = Some c"
    "step_with_message_key E c = Inr (k, c')"
    "m = skm_new E 3 (chain_id s) (smk_iteration k) ct rng sk"
    "r' = reserve_iterations (smk_iteration k) (r\<lparr>states := set_sender_chain_key c' s # rest\<rparr>)"
    using assms
    by (auto simp: group_encrypt_def bind_res_Inr_iff ok_or_eq_Inr Let_def message_version_def split: list.splits)
  then have "smk_iteration k = ck_iteration c" "unat (ck_iteration c') = Suc (unat (ck_iteration c))"
    by (auto simp: step_with_message_key_def map_res_Inr_iff sender_message_key_new_def Let_def
        dest: step_seed_only_iteration)
  with run show ?thesis by (auto simp: skm_new_def Let_def reserve_iterations_def)
qed

lemma encrypt_all_Cons:
  "encrypt_all E (q # ps) r = Inr (ms, r') \<Longrightarrow>
   \<exists>m r1 ms'. group_encrypt E (fst q) (snd q) (Some r) = Inr (m, r1) \<and> encrypt_all E ps r1 = Inr (ms', r') \<and> ms = m # ms'"
  by (cases q) (auto simp: bind_res_Inr_iff map_res_Inr_iff)

text \<open>A raised gate stays up; while it is down every message is below the reserved ceiling.\<close>

lemma encrypt_all_gated: "encrypt_all E ps r = Inr (ms, r') \<Longrightarrow> lease r = Leased d True \<Longrightarrow> is_wire_gated r'"
proof (induction ps arbitrary: r ms d)
  case (Cons q ps)
  from encrypt_all_Cons [OF Cons.prems(1)] obtain m r1 ms' where
    run: "group_encrypt E (fst q) (snd q) (Some r) = Inr (m, r1)" "encrypt_all E ps r1 = Inr (ms', r')" by blast
  have "\<exists>d. lease r1 = Leased d True" using group_encrypt_result [OF run(1)] Cons.prems(2) by auto
  with Cons.IH [OF run(2)] show ?case by blast
qed (simp add: is_wire_gated_def)

lemma encrypt_all_ungated:
  "encrypt_all E ps r = Inr (ms, r') \<Longrightarrow> lease r = Leased ceil p \<Longrightarrow> \<not> is_wire_gated r' \<Longrightarrow> m \<in> set ms \<Longrightarrow>
   skm_iteration m < ceil"
proof (induction ps arbitrary: r ms)
  case (Cons q ps)
  from encrypt_all_Cons [OF Cons.prems(1)] obtain n r1 ms' where
    run: "group_encrypt E (fst q) (snd q) (Some r) = Inr (n, r1)" "encrypt_all E ps r1 = Inr (ms', r')" "ms = n # ms'"
    by blast
  from group_encrypt_result [OF run(1)] have l: "lease r1 = lease_reserve (skm_iteration n) (Leased ceil p)"
    using Cons.prems(2) by auto
  then have "skm_iteration n < ceil" using encrypt_all_gated [OF run(2)] Cons.prems(3) by (auto simp: not_le split: if_splits)
  moreover have "lease r1 = Leased ceil p" using l \<open>skm_iteration n < ceil\<close> by (simp add: not_le [symmetric])
  ultimately show ?case using Cons.IH [OF run(2)] Cons.prems(3,4) run(3) by auto
qed simp

lemma encrypt_all_quiet:
  "encrypt_all E ps r = Inr (ms, r') \<Longrightarrow> lease r = Leased ceil False \<Longrightarrow> \<forall>m \<in> set ms. skm_iteration m < ceil \<Longrightarrow>
   \<not> is_wire_gated r'"
proof (induction ps arbitrary: r ms)
  case (Cons q ps)
  from encrypt_all_Cons [OF Cons.prems(1)] obtain n r1 ms' where
    run: "group_encrypt E (fst q) (snd q) (Some r) = Inr (n, r1)" "encrypt_all E ps r1 = Inr (ms', r')" "ms = n # ms'"
    by blast
  have "lease r1 = Leased ceil False" using group_encrypt_result [OF run(1)] Cons.prems(2,3) run(3) by auto
  with Cons.IH [OF run(2)] Cons.prems(3) run(3) show ?case by simp
qed (simp add: is_wire_gated_def)

lemma encrypt_all_iterations:
  "encrypt_all E ps r = Inr (ms, r') \<Longrightarrow> states r = s # rest \<Longrightarrow> sender_chain s = Some c \<Longrightarrow> m \<in> set ms \<Longrightarrow>
   ck_iteration c \<le> skm_iteration m"
proof (induction ps arbitrary: r ms s c)
  case (Cons q ps)
  from encrypt_all_Cons [OF Cons.prems(1)] obtain n r1 ms' where
    run: "group_encrypt E (fst q) (snd q) (Some r) = Inr (n, r1)" "encrypt_all E ps r1 = Inr (ms', r')" "ms = n # ms'"
    by blast
  from group_encrypt_result [OF run(1)] obtain c' where c': "skm_iteration n = ck_iteration c"
    "states r1 = set_sender_chain_key c' s # rest" "unat (ck_iteration c') = Suc (unat (ck_iteration c))"
    using Cons.prems(2,3) by auto
  with Cons.IH [OF run(2) c'(2), of c'] Cons.prems(4) run(3) show ?case by (auto simp: word_le_nat_alt)
qed simp

text \<open>The ceiling a record reserves is within reach of the chain, which every encryption keeps.\<close>

definition lease_in_reach :: "sender_key_record \<Rightarrow> bool" where
  "lease_in_reach r \<longleftrightarrow>
     (\<forall>s rest c. states r = s # rest \<longrightarrow> sender_chain s = Some c \<longrightarrow>
        unat (lease_ceiling (lease r)) \<le> unat (ck_iteration c) + unat SENDER_CHAIN_RESERVATION_BATCH)"

lemma saturating_add_le: "unat (saturating_add_u32 a b) \<le> unat a + unat b"
  using unat_max_u32 by (simp add: saturating_add_u32_def unat_word_ariths)

lemma group_encrypt_lease:
  assumes "group_encrypt E rng pt (Some r) = Inr (m, r')" and "lease_in_reach r"
  shows "lease_in_reach r'"
proof -
  from group_encrypt_result [OF assms(1)] obtain s rest c c' where
    r: "states r = s # rest" "sender_chain s = Some c" "states r' = set_sender_chain_key c' s # rest"
    "unat (ck_iteration c') = Suc (unat (ck_iteration c))" "lease r' = lease_reserve (ck_iteration c) (lease r)" by blast
  with assms(2) saturating_add_le [of "ck_iteration c" SENDER_CHAIN_RESERVATION_BATCH] show ?thesis
    by (cases "lease r") (auto simp: lease_in_reach_def)
qed

lemma add_sender_key_state_lease:
  "add_sender_key_state cid it seed pk sk r = Inr r' \<Longrightarrow> lease_in_reach r'"
  by (cases "lease r") (auto simp: add_sender_key_state_def lease_in_reach_def map_res_Inr_iff Let_def split: prod.splits)

lemma fast_forward_ok:
  assumes "sender_chain s = Some c"
    and "unat target \<le> unat (ck_iteration c) + unat SENDER_CHAIN_RESERVATION_BATCH"
  shows "\<exists>d. fast_forward_sender_chain E target s = Inr (set_sender_chain_key d s) \<and> target \<le> ck_iteration d \<and>
    (0 < target \<or> d = c)"
proof (cases "target \<le> ck_iteration c")
  case True
  moreover have "set_sender_chain_key c s = s" using assms(1) by (simp add: set_sender_chain_key_def)
  ultimately show ?thesis using assms(1) by (intro exI [of _ c])
      (auto simp: fast_forward_sender_chain_def saturating_sub_u32_def MAX_RESERVATION_FAST_FORWARD_def)
next
  case False
  then have "unat (target - ck_iteration c) \<le> 64"
    using assms(2) by (simp add: unat_sub_if_size SENDER_CHAIN_RESERVATION_BATCH_def word_le_nat_alt)
  then have "\<not> MAX_RESERVATION_FAST_FORWARD < saturating_sub_u32 target (ck_iteration c)"
    by (simp add: saturating_sub_u32_def MAX_RESERVATION_FAST_FORWARD_def MAX_FORWARD_JUMPS_def word_less_nat_alt)
  moreover obtain d where "advance_chain E target c = Inr d" "ck_iteration d = target"
    using advance_chain_ok [of E "unat (ck_iteration c)" "ck_seed c" c target] less_imp_le [of "ck_iteration c" target] False
    by (auto simp: chain_ok_def chain_seed_def not_le)
  ultimately show ?thesis using assms(1) False by (intro exI [of _ d]) (auto simp: fast_forward_sender_chain_def word_gt_0)
qed

section \<open>Sample crates\<close>

text \<open>
  A codec for the persisted structures, from prefix codes: what comes after the code of a value is
  left over.
\<close>

definition prefix_code :: "('a \<Rightarrow> bytes) \<Rightarrow> (bytes \<Rightarrow> 'a \<times> bytes) \<Rightarrow> bool" where
  "prefix_code put get \<longleftrightarrow> (\<forall>a r. get (put a @ r) = (a, r))"

definition put_u32 :: "u32 \<Rightarrow> bytes" where "put_u32 n = nat_be 4 (unat n)"
definition get_u32 :: "bytes \<Rightarrow> u32 \<times> bytes" where "get_u32 bs = (of_nat (be_nat (take 4 bs)), drop 4 bs)"

fun put_list :: "('a \<Rightarrow> bytes) \<Rightarrow> 'a list \<Rightarrow> bytes" where
  "put_list put [] = [0]"
| "put_list put (x # xs) = 1 # put x @ put_list put xs"

fun get_list :: "(bytes \<Rightarrow> 'a \<times> bytes) \<Rightarrow> nat \<Rightarrow> bytes \<Rightarrow> 'a list \<times> bytes" where
  "get_list get (Suc n) (b # bs) =
     (if b = 0 then ([], bs) else case get bs of (x, bs) \<Rightarrow> case get_list get n bs of (xs, bs) \<Rightarrow> (x # xs, bs))"
| "get_list get n bs = ([], bs)"

definition get_all :: "(bytes \<Rightarrow> 'a \<times> bytes) \<Rightarrow> bytes \<Rightarrow> 'a list \<times> bytes" where
  "get_all get bs = get_list get (length bs) bs"

definition put_opt :: "('a \<Rightarrow> bytes) \<Rightarrow> 'a option \<Rightarrow> bytes" where
  "put_opt put x = put_list put (case x of None \<Rightarrow> [] | Some a \<Rightarrow> [a])"

definition get_opt :: "(bytes \<Rightarrow> 'a \<times> bytes) \<Rightarrow> bytes \<Rightarrow> 'a option \<times> bytes" where
  "get_opt get bs = (case get_all get bs of (xs, bs) \<Rightarrow> (case xs of [] \<Rightarrow> None | a # _ \<Rightarrow> Some a, bs))"

definition put_pair :: "('a \<Rightarrow> bytes) \<Rightarrow> ('b \<Rightarrow> bytes) \<Rightarrow> 'a \<times> 'b \<Rightarrow> bytes" where
  "put_pair f g p = f (fst p) @ g (snd p)"

definition get_pair :: "(bytes \<Rightarrow> 'a \<times> bytes) \<Rightarrow> (bytes \<Rightarrow> 'b \<times> bytes) \<Rightarrow> bytes \<Rightarrow> ('a \<times> 'b) \<times> bytes" where
  "get_pair f g bs = (case f bs of (a, bs) \<Rightarrow> case g bs of (b, bs) \<Rightarrow> ((a, b), bs))"

definition put_bytes :: "bytes \<Rightarrow> bytes" where "put_bytes = put_list (\<lambda>b. [b])"
definition get_bytes :: "bytes \<Rightarrow> bytes \<times> bytes" where "get_bytes = get_all (\<lambda>bs. (hd bs, tl bs))"

definition put_chain :: "chain_key_structure \<Rightarrow> bytes" where
  "put_chain c = put_pair (put_opt put_u32) (put_opt put_bytes) (cks_iteration c, cks_seed c)"

definition get_chain :: "bytes \<Rightarrow> chain_key_structure \<times> bytes" where
  "get_chain bs =
     (case get_pair (get_opt get_u32) (get_opt get_bytes) bs of
        ((i, s), bs) \<Rightarrow> (\<lparr>cks_iteration = i, cks_seed = s\<rparr>, bs))"

definition put_signing :: "signing_key_structure \<Rightarrow> bytes" where
  "put_signing k = put_pair (put_opt put_bytes) (put_opt put_bytes) (sks_public k, sks_private k)"

definition get_signing :: "bytes \<Rightarrow> signing_key_structure \<times> bytes" where
  "get_signing bs =
     (case get_pair (get_opt get_bytes) (get_opt get_bytes) bs of
        ((p, s), bs) \<Rightarrow> (\<lparr>sks_public = p, sks_private = s\<rparr>, bs))"

definition put_state :: "state_structure \<Rightarrow> bytes" where
  "put_state s =
     put_pair (put_opt put_u32) (put_pair (put_opt put_chain) (put_pair (put_opt put_signing) (put_list put_chain)))
       (ss_key_id s, ss_chain_key s, ss_signing_key s, ss_message_keys s)"

definition get_state :: "bytes \<Rightarrow> state_structure \<times> bytes" where
  "get_state bs =
     (case get_pair (get_opt get_u32) (get_pair (get_opt get_chain) (get_pair (get_opt get_signing) (get_all get_chain))) bs of
        ((i, c, k, ks), bs) \<Rightarrow>
          (\<lparr>ss_key_id = i, ss_chain_key = c, ss_signing_key = k, ss_message_keys = ks\<rparr>, bs))"

lemma code_u32: "prefix_code put_u32 get_u32"
  by (simp add: prefix_code_def put_u32_def get_u32_def)

lemma get_list_put: "prefix_code put get \<Longrightarrow> length xs < n \<Longrightarrow> get_list get n (put_list put xs @ r) = (xs, r)"
proof (induction xs arbitrary: n)
  case Nil
  then show ?case by (cases n) auto
next
  case (Cons x xs)
  then show ?case by (cases n) (auto simp: prefix_code_def)
qed

lemma length_put_list: "length xs < length (put_list put xs)"
  by (induction xs) auto

lemma length_put_bytes: "length (put_list (\<lambda>b. [b]) bs) = Suc (2 * length bs)"
  by (induction bs) auto

lemma code_list:
  assumes "prefix_code put get"
  shows "prefix_code (put_list put) (get_all get)"
  unfolding prefix_code_def get_all_def
  using get_list_put [OF assms] length_put_list by (metis length_append trans_less_add1)

lemma code_opt: "prefix_code put get \<Longrightarrow> prefix_code (put_opt put) (get_opt get)"
  using code_list [of put get] by (simp add: prefix_code_def put_opt_def get_opt_def split: option.split)

lemma code_pair: "prefix_code f f' \<Longrightarrow> prefix_code g g' \<Longrightarrow> prefix_code (put_pair f g) (get_pair f' g')"
  by (simp add: prefix_code_def put_pair_def get_pair_def)

lemma code_bytes: "prefix_code put_bytes get_bytes"
  unfolding put_bytes_def get_bytes_def by (rule code_list) (simp add: prefix_code_def)

lemma code_chain: "prefix_code put_chain get_chain"
  using code_pair [OF code_opt [OF code_u32] code_opt [OF code_bytes]]
  by (simp add: prefix_code_def put_chain_def get_chain_def)

lemma code_signing: "prefix_code put_signing get_signing"
  using code_pair [OF code_opt [OF code_bytes] code_opt [OF code_bytes]]
  by (simp add: prefix_code_def put_signing_def get_signing_def)

lemma code_state: "prefix_code put_state get_state"
  using code_pair [OF code_opt [OF code_u32] code_pair [OF code_opt [OF code_chain] code_pair [OF code_opt [OF code_signing]
      code_list [OF code_chain]]]]
  by (simp add: prefix_code_def put_state_def get_state_def)

text \<open>
  Crates that are enough to evaluate the model: tags of five bytes, varints of eight, and a signature
  that shows key and message.
\<close>

fun wire_byte :: "wire_type \<Rightarrow> u8" where
  "wire_byte Varint = 0" | "wire_byte Fixed64 = 1" | "wire_byte LengthDelimited = 2"
| "wire_byte StartGroup = 3" | "wire_byte EndGroup = 4" | "wire_byte Fixed32 = 5"

definition byte_wire :: "u8 \<Rightarrow> wire_type" where
  "byte_wire b =
     (if b = 0 then Varint else if b = 1 then Fixed64 else if b = 2 then LengthDelimited else if b = 3 then StartGroup
      else if b = 4 then EndGroup else Fixed32)"

definition sample_varint :: "bytes \<Rightarrow> (u64 \<times> bytes) option" where
  "sample_varint bs = (if length bs < 8 then None else Some (of_nat (be_nat (take 8 bs)), drop 8 bs))"

definition sample_skip :: "nat \<times> wire_type \<Rightarrow> bytes \<Rightarrow> bytes option" where
  "sample_skip t bs =
     (case sample_varint bs of
        None \<Rightarrow> None
      | Some (len, r) \<Rightarrow> Some (if snd t = LengthDelimited then drop (unat len) r else r))"

definition sample_u32 :: "nat \<Rightarrow> bytes \<Rightarrow> u32 option" where
  "sample_u32 n bs = Some (of_nat (be_nat (take 8 (drop n bs))))"

definition sample_group :: group_env where
  "sample_group =
     \<lparr>hmac_sha256 = hmac_sha256 sample_hkdf, hkdf_expand = hkdf_expand sample_hkdf,
      clamp = (\<lambda>k. k),
      cbc_encrypt = (\<lambda>key iv pt. Some (take 16 key @ pt)),
      cbc_decrypt = (\<lambda>key iv ct. if take 16 ct = take 16 key then Some (drop 16 ct) else None),
      xed_sign = (\<lambda>key m r. take 64 (key @ m @ replicate 64 0)),
      xed_verify = (\<lambda>key m sig. sig = take 64 (key @ m @ replicate 64 0)),
      tag_encode = (\<lambda>n w. nat_be 4 n @ [wire_byte w]),
      tag_decode = (\<lambda>bs. if length bs < 5 then None else Some ((be_nat (take 4 bs), byte_wire (bs ! 4)), drop 5 bs)),
      encode_varint = (\<lambda>v. nat_be 8 (unat v)),
      decode_varint = sample_varint,
      skip_field = sample_skip,
      skm_view = (\<lambda>bs. Some (sample_u32 5 bs, sample_u32 18 bs, Some (drop 39 bs))),
      skdm_view = (\<lambda>bs. let n = be_nat (take 8 (drop 31 bs)) in
        Some (sample_u32 5 bs, sample_u32 18 bs, Some (take n (drop 39 bs)), Some (drop 13 (drop n (drop 39 bs))))),
      record_to_vec = (\<lambda>ss. let b = put_list put_state ss in
        nat_be 4 1 @ [wire_byte LengthDelimited] @ nat_be 8 (unat (of_nat (length b) :: u64)) @ b),
      record_decode = (\<lambda>bs. Some (fst (get_all get_state (drop 13 bs))))\<rparr>"

definition sample_state :: sender_key_state where
  "sample_state =
     \<lparr>sender_key_id = Some 7,
      sender_signing_key = Some \<lparr>sks_public = Some (5 # replicate 32 9), sks_private = Some (replicate 32 9)\<rparr>,
      message_keys = [],
      sender_chain = Some \<lparr>ck_iteration = 5, ck_seed = replicate 32 0\<rparr>\<rparr>"

definition sample_record :: sender_key_record where
  "sample_record = \<lparr>states = [sample_state], lease = Leased 8 True\<rparr>"

lemma sample_fields:
  "push_varint_field sample_group n v = nat_be 4 n @ [0] @ nat_be 8 (unat v)"
  "push_bytes_field sample_group n b = nat_be 4 n @ [2] @ nat_be 8 (unat (of_nat (length b) :: u64)) @ b"
  by (simp_all add: push_varint_field_def push_bytes_field_def sample_group_def)

lemma unat_mod_64 [simp]:
  "unat (v :: u64) mod 18446744073709551616 = unat v" "unat (n :: u32) mod 18446744073709551616 = unat n"
proof -
  have v: "unat v < 2 ^ LENGTH(64)" and n: "unat n < 2 ^ LENGTH(32)" by (rule unsigned_less)+
  have "unat n < 18446744073709551616" by (rule less_le_trans [OF n]) simp
  with v show "unat v mod 18446744073709551616 = unat v" "unat n mod 18446744073709551616 = unat n" by simp_all
qed

lemma sample_views:
  "sample_u32 5 (nat_be 4 a @ b # nat_be 8 (unat (ucast n :: u64)) @ r) = Some n"
  "sample_u32 18 (nat_be 4 a @ b # nat_be 8 c @ nat_be 4 d @ e # nat_be 8 (unat (ucast n :: u64)) @ r) = Some n"
  for n :: u32
proof -
  have "unat (ucast n :: u64) = unat n" by (rule unat_ucast_up) simp
  then show "sample_u32 5 (nat_be 4 a @ b # nat_be 8 (unat (ucast n :: u64)) @ r) = Some n"
    "sample_u32 18 (nat_be 4 a @ b # nat_be 8 c @ nat_be 4 d @ e # nat_be 8 (unat (ucast n :: u64)) @ r) = Some n"
    by (simp_all add: sample_u32_def drop_Cons')
qed

lemma sample_keys [simp]:
  "signing_key_private sample_group sample_state = Some (replicate 32 9)"
  "signing_key_public sample_state = Some (replicate 32 9)"
  "sender_chain sample_state = Some \<lparr>ck_iteration = 5, ck_seed = replicate 32 0\<rparr>"
  "states sample_record = [sample_state]"
  by (simp_all add: sample_state_def signing_key_private_def signing_key_deserialize_def signing_key_public_def
      public_key_deserialize_def sample_record_def) (simp add: sample_group_def)

lemma sample_message_codec_ok: "message_codec_ok sample_group"
proof -
  have "hkdf_env.truncate sample_group = sample_hkdf" by (simp add: sample_group_def hkdf_env.defs)
  moreover have "unat (of_nat n :: u64) = n" if "n < 2 ^ 31" for n using that by (simp add: unat_of_nat)
  ultimately show ?thesis
    using sample_hkdf_ok unfolding message_codec_ok_def sample_fields
    by (simp add: sample_group_def sample_views drop_Cons' min_def Let_def)
qed

lemma sample_key_pair_ok: "key_pair_ok sample_group (replicate 32 9) (replicate 32 9)"
  by (simp add: key_pair_ok_def sample_group_def)

lemma sample_record_codec_ok: "record_codec_ok sample_group"
  unfolding record_codec_ok_def
proof (intro conjI allI impI)
  have "byte_wire (wire_byte w) = w" for w by (cases w) (simp_all add: byte_wire_def)
  then show "tag_decode sample_group (tag_encode sample_group n w @ r) = Some ((n, w), r)" if "0 < n \<and> n < 2 ^ 29" for n w r
    using that by (simp add: sample_group_def nth_append)
  show "decode_varint sample_group (encode_varint sample_group v @ r) = Some (v, r)" for v r
    by (simp add: sample_group_def sample_varint_def)
  show "skip_field sample_group (n, LengthDelimited) (encode_varint sample_group (of_nat (length p)) @ p @ r) = Some r"
    if "length p < 2 ^ 31" for n p r
    using that by (simp add: sample_group_def sample_skip_def sample_varint_def unat_of_nat)
  show "\<exists>ps. record_to_vec sample_group ss = concat (map (push_bytes_field sample_group 1) ps)" for ss
    by (rule exI [of _ "[put_list put_state ss]"]) (simp add: sample_fields, simp add: sample_group_def Let_def)
  show "record_decode sample_group (record_to_vec sample_group ss @ concat fs) = Some ss" for ss fs
    using code_list [OF code_state] by (simp add: sample_group_def Let_def prefix_code_def drop_Cons')
qed (simp add: sample_group_def)

section \<open>Properties\<close>

text \<open>
  C13 (a message key is given out once, and it is the sender's). A receiver takes over a chain at an
  iteration. Whatever the order in which messages arrive, repeated or not, each iteration yields a key
  at most once, and the key is the one the sender derives there by stepping the chain. Distinct
  messages within the jump limit of the start all get their key, in any order.
\<close>

theorem message_keys_once:
  assumes "state_new cid it seed pk sk = Inr s"
  shows "distinct (map fst (key_run E ns s)) \<and>
    (\<forall>(n, k) \<in> set (key_run E ns s).
       it \<le> n \<and> (\<exists>c. advance_chain E n \<lparr>ck_iteration = it, ck_seed = seed\<rparr> = Inr c \<and> k = chain_message_key E c)) \<and>
    (distinct ns \<and> (\<forall>n \<in> set ns. it \<le> n \<and> n \<noteq> - 1 \<and> unat n < unat it + MAX_FORWARD_JUMPS) \<longrightarrow>
       map fst (key_run E ns s) = ns)"
proof -
  note s = state_new_ok [OF assms]
  have on: "on_chain E (unat it) seed s" using s(1) [of E] by (simp add: window_def)
  have once: "distinct (map fst (key_run E ns s))" "fst ` set (key_run E ns s) \<subseteq> {n. it \<le> n}"
    "\<forall>(n, k) \<in> set (key_run E ns s). k = the_key E (unat it) seed n"
    using key_run_once [OF on, of ns] s(2,3) by auto
  have "it \<le> n \<and> (\<exists>c. advance_chain E n \<lparr>ck_iteration = it, ck_seed = seed\<rparr> = Inr c \<and> k = chain_message_key E c)"
    if "(n, k) \<in> set (key_run E ns s)" for n k
  proof -
    have n: "it \<le> n" "k = the_key E (unat it) seed n" using that once by force+
    have "chain_ok E (unat it) seed \<lparr>ck_iteration = it, ck_seed = seed\<rparr>" by (simp add: chain_ok_def chain_seed_def)
    from advance_chain_ok [OF this, of n] n show ?thesis by (auto simp: chain_message_key_ok)
  qed
  moreover have "map fst (key_run E ns s) = ns"
    if "distinct ns" "\<forall>n \<in> set ns. it \<le> n \<and> n \<noteq> - 1 \<and> unat n < unat it + MAX_FORWARD_JUMPS"
    using that s(2) by (intro key_run_window [OF s(1) [of E]]) auto
  ultimately show ?thesis using once(1) by blast
qed

theorem message_keys_once_witness:
  "distinct (map fst (key_run sample_group [7, 5, 7, 6, 5] sample_state)) \<and>
   map fst (key_run sample_group [7, 5, 6] sample_state) = [7, 5, 6]"
proof -
  have new: "state_new 7 5 (replicate 32 0) (replicate 32 9) (Some (replicate 32 9)) = Inr sample_state"
    by (simp add: state_new_def sample_state_def public_key_serialize_def)
  have "unat (5 :: u32) = 5" "unat (6 :: u32) = 6" "unat (7 :: u32) = 7" by simp_all
  then show ?thesis
    using message_keys_once [OF new, of sample_group "[7, 5, 7, 6, 5]"] message_keys_once [OF new, of sample_group "[7, 5, 6]"]
    by (simp add: MAX_FORWARD_JUMPS_def)
qed

text \<open>
  C12 (group messages arrive in any order). A sender announces its chain, a receiver takes the
  announcement over, and the sender encrypts up to the jump limit of messages. Every selection of them,
  in any order, decrypts to the plaintexts; messages that are lost do not hinder the others.
\<close>

theorem group_messages_any_order:
  assumes "message_codec_ok E" and "key_pair_ok E pk sk"
    and "states R = s # rest" and "signing_key_private E s = Some sk" and "signing_key_public s = Some pk"
    and "sender_chain s = Some c" and "length (ck_seed c) = 32"
    and "\<forall>p \<in> set ps. fits (snd p)" and "length ps \<le> MAX_FORWARD_JUMPS" and "unat (ck_iteration c) + length ps < 2 ^ 32"
    and "distinct order" and "set order \<subseteq> {..<length ps}"
  shows "\<exists>skdm Q ms R'. build_skdm_from_record E R = Inr skdm \<and>
    bind_res (skdm_parse E (skdm_serialized skdm)) (\<lambda>m. process_sender_key_distribution_message m None) = Inr Q \<and>
    encrypt_all E ps R = Inr (ms, R') \<and>
    decrypt_all E (map (\<lambda>i. skm_serialized (ms ! i)) order) Q = map (\<lambda>i. Inr (snd (ps ! i))) order"
proof -
  let ?it = "unat (ck_iteration c)" and ?seed = "ck_seed c"
  obtain t where t: "state_new (chain_id s) (ck_iteration c) ?seed pk None = Inr t"
    using assms(7) by (simp add: state_new_def)
  let ?Q = "\<lparr>states = [t], lease = clear_reservation lease_default\<rparr>"
  have "length pk = 32" by (rule signing_key_length [OF assms(5)])
  with t have id: "signing_key_public t = Some pk" "chain_id t = chain_id s"
    by (auto simp: state_new_def signing_key_public_def public_key_serialize_def public_key_deserialize_def
        chain_id_def or_0_def split: if_splits)
  have "chain_ok E ?it ?seed c" by (simp add: chain_ok_def chain_seed_def)
  from encrypt_all_ok [OF assms(1,2,8,3,4,6) this assms(10)] obtain ms R' where
    ms: "encrypt_all E ps R = Inr (ms, R')" "length ms = length ps"
    "\<forall>i < length ps. message_of E ?it ?seed (chain_id s) pk (snd (ps ! i)) (ms ! i) \<and>
       unat (skm_iteration (ms ! i)) = ?it + i" by blast
  have in_range: "skm_iteration (ms ! i) \<noteq> - 1" if "i < length ps" for i
  proof
    assume "skm_iteration (ms ! i) = - 1"
    with ms(3) that have "?it + i = 2 ^ 32 - 1" using unat_max_u32 by metis
    with that assms(10) show False by simp
  qed
  have "decrypt_all E (map (\<lambda>i. skm_serialized (ms ! i)) order) ?Q = map (\<lambda>i. Inr (snd (ps ! i))) order"
  proof (rule decrypt_all_window [OF state_new_ok(1) [OF t, of E]])
    show "\<forall>j \<in> set order. message_of E ?it ?seed (chain_id t) pk (snd (ps ! j)) (ms ! j) \<and>
        skm_iteration (ms ! j) \<in> available_keys t \<and> skm_iteration (ms ! j) \<noteq> - 1 \<and>
        unat (skm_iteration (ms ! j)) < ?it + MAX_FORWARD_JUMPS"
      using ms(3) in_range assms(9,12) id(2) state_new_ok(2) [OF t] by (auto simp: word_le_nat_alt)
    show "inj_on (\<lambda>j. skm_iteration (ms ! j)) (set order)"
      using ms(3) assms(12) by (intro inj_onI) (metis add_left_cancel lessThan_iff subsetD)
  qed (use assms(11) id in simp_all)
  moreover have "build_skdm_from_record E R = Inr (skdm_new E 3 (chain_id s) (ck_iteration c) ?seed pk)"
    using assms(3,5,6) by (simp add: build_skdm_from_record_def message_version_def)
  moreover have "process_sender_key_distribution_message (skdm_new E 3 (chain_id s) (ck_iteration c) ?seed pk) None = Inr ?Q"
    using t by (simp add: process_sender_key_distribution_message_def add_sender_key_state_def record_new_empty_def
        remove_state_def skdm_new_def)
  ultimately show ?thesis using ms(1) skdm_new_ok [OF assms(1,7) \<open>length pk = 32\<close>] by simp
qed

theorem group_messages_any_order_witness:
  "\<exists>skdm Q ms R'. build_skdm_from_record sample_group sample_record = Inr skdm \<and>
    bind_res (skdm_parse sample_group (skdm_serialized skdm)) (\<lambda>m. process_sender_key_distribution_message m None) = Inr Q \<and>
    encrypt_all sample_group [([], [1]), ([], [2, 2]), ([], [3])] sample_record = Inr (ms, R') \<and>
    decrypt_all sample_group [skm_serialized (ms ! 2), skm_serialized (ms ! 0), skm_serialized (ms ! 1)] Q =
      [Inr [3], Inr [1], Inr [2, 2]]"
  using group_messages_any_order [OF sample_message_codec_ok sample_key_pair_ok, of sample_record sample_state "[]"
      "\<lparr>ck_iteration = 5, ck_seed = replicate 32 0\<rparr>" "[([], [1]), ([], [2, 2]), ([], [3])]" "[2, 0, 1]"]
  by (simp add: MAX_FORWARD_JUMPS_def fits_def)



end
